(* ===== verification/Sqlite_Prelude.thy ===== *)
theory Sqlite_Prelude
  imports Main "HOL-Library.Word" "HOL-Library.Monad_Syntax"
begin

unbundle bit_operations_syntax

text \<open>
  The types, the result codes and the generic lemmas that every theory of this
  development shares.  The C integer types of sqliteInt.h keep their width as machine
  words: the arithmetic below wraps exactly where the C arithmetic does.  A pointer to
  bytes that is only read is a byte list; reading outside of it is undefined in C and is
  the value \<open>None\<close> here, so a theorem that an operation returns \<open>Some\<close> also
  says that it stays inside its buffer.
\<close>

section \<open>Machine types\<close>

type_synonym u8 = "8 word"
type_synonym u16 = "16 word"
type_synonym u32 = "32 word"
type_synonym u64 = "64 word"
type_synonym i64 = "64 word"  \<comment> \<open>read through \<open>sint\<close> and \<open><s\<close>, \<open>\<le>s\<close>\<close>
type_synonym bytes = "u8 list"

text \<open>The result codes of sqlite3.h that the modelled code returns.\<close>

datatype result_code =
    SQLITE_OK | SQLITE_ERROR | SQLITE_BUSY | SQLITE_NOMEM | SQLITE_IOERR
  | SQLITE_IOERR_SHORT_READ | SQLITE_IOERR_LOCK | SQLITE_IOERR_UNLOCK | SQLITE_IOERR_RDLOCK
  | SQLITE_IOERR_CHECKRESERVEDLOCK | SQLITE_IOERR_CLOSE | SQLITE_PERM | SQLITE_CORRUPT
  | SQLITE_FULL | SQLITE_CANTOPEN | SQLITE_NOTFOUND | SQLITE_READONLY | SQLITE_PROTOCOL
  | SQLITE_INTERRUPT | SQLITE_DONE | SQLITE_ROW

named_theorems bitvec_simps \<open>bits of the masks and casts that the code uses\<close>
named_theorems wf_intros \<open>preservation of the well-formedness invariants\<close>

section \<open>Reading memory\<close>

definition rd :: "'a list \<Rightarrow> nat \<Rightarrow> 'a option" where
  "rd p i = (if i < length p then Some (p ! i) else None)"

lemma rd_Some [simp]: "i < length p \<Longrightarrow> rd p i = Some (p ! i)"
  by (simp add: rd_def)

lemma rd_None [simp]: "length p \<le> i \<Longrightarrow> rd p i = None"
  by (simp add: rd_def)

lemma rd_eq_Some_iff: "rd p i = Some x \<longleftrightarrow> i < length p \<and> p ! i = x"
  by (auto simp: rd_def)

lemma rd_append1: "i < length p \<Longrightarrow> rd (p @ q) i = rd p i"
  by (simp add: rd_def nth_append)

lemma rd_Cons_0 [simp]: "rd (x # xs) 0 = Some x"
  by (simp add: rd_def)

lemma rd_Cons_Suc [simp]: "rd (x # xs) (Suc i) = rd xs i"
  by (simp add: rd_def)

lemma rd_Cons_numeral [simp]: "rd (x # xs) (numeral k) = rd xs (pred_numeral k)"
  by (simp add: numeral_eq_Suc)

lemma rd_Cons_1 [simp]: "rd (x # xs) 1 = rd xs 0"
  by (simp add: rd_def)

lemma rd_Nil [simp]: "rd [] i = None"
  by (simp add: rd_def)

section \<open>Memory allocation\<close>

text \<open>
  Whether an allocation succeeds is not the program's choice.  A component that allocates
  carries the outcomes of its coming allocations as a list; an exhausted list stands for
  an allocator that succeeds from then on.
\<close>

definition malloc_next :: "bool list \<Rightarrow> bool \<times> bool list" where
  "malloc_next ms = (case ms of [] \<Rightarrow> (True, []) | b # bs \<Rightarrow> (b, bs))"

definition malloc_succeeds :: "bool list \<Rightarrow> bool" where
  "malloc_succeeds ms \<longleftrightarrow> list_all id ms"

lemma malloc_next_succeeds [dest]:
  "malloc_next ms = (ok, ms') \<Longrightarrow> malloc_succeeds ms \<Longrightarrow> ok \<and> malloc_succeeds ms'"
  by (auto simp: malloc_next_def malloc_succeeds_def split: list.splits)

section \<open>Words\<close>

lemma uint_drop_bit_less:
  fixes v :: "'a::len word"
  assumes "v \<noteq> 0" and "0 < n"
  shows "unat (drop_bit n v) < unat v"
proof -
  have "unat (drop_bit n v) = unat v div 2 ^ n"
    by (metis unat_drop_bit_eq drop_bit_eq_div)
  moreover have "0 < unat v" using assms(1) by (simp add: unat_gt_0)
  moreover have "(1::nat) < 2 ^ n" using assms(2) by (rule one_less_power [rotated]) simp
  ultimately show ?thesis by (simp add: div_less_dividend)
qed

text \<open>
  Two words are equal when they agree on every bit; on 64-bit words the bits are listed,
  so that the simplifier evaluates both sides at each position.
\<close>

lemma upt64:
  "[0..<64] =
    [0, 1, 2, 3, 4, 5, 6, 7, 8, 9, 10, 11, 12, 13, 14, 15, 16, 17, 18, 19, 20, 21,
     22, 23, 24, 25, 26, 27, 28, 29, 30, 31, 32, 33, 34, 35, 36, 37, 38, 39, 40, 41,
     42, 43, 44, 45, 46, 47, 48, 49, 50, 51, 52, 53, 54, 55, 56, 57, 58, 59, 60, 61,
     62, 63]"
  by code_simp

lemma bits_u64: "(a::u64) = b \<longleftrightarrow> list_all (\<lambda>n. bit a n = bit b n) [0..<64]"
  by (auto simp: list_all_iff intro: bit_word_eqI)

lemma bits_u32: "(a::u32) = b \<longleftrightarrow> list_all (\<lambda>n. bit a n = bit b n) [0..<32]"
  by (auto simp: list_all_iff intro: bit_word_eqI)

lemma bits_u8: "(a::u8) = b \<longleftrightarrow> list_all (\<lambda>n. bit a n = bit b n) [0..<8]"
  by (auto simp: list_all_iff intro: bit_word_eqI)

lemma upt32:
  "[0..<32] = [0, 1, 2, 3, 4, 5, 6, 7, 8, 9, 10, 11, 12, 13, 14, 15, 16, 17, 18, 19, 20,
    21, 22, 23, 24, 25, 26, 27, 28, 29, 30, 31]"
  by code_simp

lemma upt8: "[0..<8] = [0, 1, 2, 3, 4, 5, 6, 7]"
  by code_simp

lemma mask_0x7f [bitvec_simps]: "(0x7f::'a::len word) = mask 7"
  by (simp add: mask_eq_exp_minus_1)

lemma mask_0xf [bitvec_simps]: "(0xf::'a::len word) = mask 4"
  by (simp add: mask_eq_exp_minus_1)

lemma exp_0x80: "(0x80::'a::len word) = 2 ^ 7"
  by simp

lemma bit_0x80 [bitvec_simps]: "bit (0x80::'a::len word) n \<longleftrightarrow> n = 7 \<and> 7 < LENGTH('a)"
  by (simp only: exp_0x80 bit_exp_iff) (auto simp: possible_bit_def)

lemma flag_clear: "(x::'a::len word) AND 0x80 = 0 \<longleftrightarrow> \<not> bit x 7"
  using and_exp_eq_0_iff_not_bit [of x 7] by simp

lemma bit_word_large [bitvec_simps]: "LENGTH('a) \<le> n \<Longrightarrow> \<not> bit (w::'a::len word) n"
  by (auto dest: bit_imp_le_length)

lemma bit_ucast_u8_u32 [simp]: "bit (ucast (p::u8) :: u32) n = bit p n"
  by (auto simp: bit_simps dest: bit_imp_le_length)

end
