(* ===== verification/Util_Varint.thy ===== *)
theory Util_Varint
  imports Sqlite_Prelude
begin

text \<open>
  The variable-length integers of util.c: every header field of the file format is written
  by \<open>sqlite3PutVarint\<close> and read by the unrolled \<open>sqlite3GetVarint\<close>.
  The C functions store through pointers; the models return the number of bytes together
  with the bytes written, or with the value read.  The masked, interleaved 32-bit
  accumulators a, b and s of the C code are kept as they are, and
  \<open>GetVarint_eq_ref\<close> shows the unrolled code equal to a bytewise loop.
\<close>

section \<open>Writing\<close>

text \<open>The do-while loop of sqlite3PutVarint that fills buf, low group first.\<close>

function putvarint_buf :: "u64 \<Rightarrow> bytes" where
  "putvarint_buf v =
     (let b = ucast (v AND 0x7f) OR 0x80; v' = drop_bit 7 v
      in if v' = 0 then [b] else b # putvarint_buf v')"
  by pat_completeness auto
termination
  by (relation "measure unat") (auto simp: Let_def intro!: uint_drop_bit_less)

declare putvarint_buf.simps [simp del]

text \<open>The for loop of the nine-byte case, from p[7] down to p[0].\<close>

fun putvarint9 :: "nat \<Rightarrow> u64 \<Rightarrow> bytes \<Rightarrow> bytes" where
  "putvarint9 0 v acc = acc"
| "putvarint9 (Suc i) v acc =
     putvarint9 i (drop_bit 7 v) ((ucast (v AND 0x7f) OR 0x80) # acc)"

definition sqlite3PutVarint :: "u64 \<Rightarrow> nat \<times> bytes" where
  "sqlite3PutVarint v =
     (if v AND push_bit 32 0xff000000 \<noteq> 0
      then (9, putvarint9 8 (drop_bit 8 v) [ucast v])
      else
        (let buf = putvarint_buf v; buf' = buf[0 := buf ! 0 AND 0x7f]
         in (length buf, rev buf')))"

text \<open>The single-byte test of this function is compiled out, since putVarint32 is a macro.\<close>

definition sqlite3PutVarint32 :: "u32 \<Rightarrow> nat \<times> bytes" where
  "sqlite3PutVarint32 v =
     (if v AND NOT 0x3fff = 0
      then (2, [ucast (drop_bit 7 v) OR 0x80, ucast (v AND 0x7f)])
      else sqlite3PutVarint (ucast v))"

definition putVarint32 :: "u32 \<Rightarrow> nat \<times> bytes" where
  "putVarint32 v = (if v < 0x80 then (1, [ucast v]) else sqlite3PutVarint32 v)"

function VarintLen_loop :: "nat \<Rightarrow> u64 \<Rightarrow> nat" where
  "VarintLen_loop i v =
     (let i' = i + 1; v' = drop_bit 7 v
      in if v' \<noteq> 0 \<and> i' < 9 then VarintLen_loop i' v' else i')"
  by pat_completeness auto
termination
  by (relation "measure (\<lambda>(i, v). 9 - i)") auto

declare VarintLen_loop.simps [simp del]

definition sqlite3VarintLen :: "u64 \<Rightarrow> nat" where
  "sqlite3VarintLen v = VarintLen_loop 0 v"

section \<open>Reading\<close>

definition SLOT_2_0 :: u32 where "SLOT_2_0 = 0x001fc07f"
definition SLOT_4_2_0 :: u32 where "SLOT_4_2_0 = 0xf01fc07f"

definition sqlite3GetVarint :: "bytes \<Rightarrow> (nat \<times> u64) option" where
  "sqlite3GetVarint p = do {
     p0 \<leftarrow> rd p 0;
     let a = (ucast p0 :: u32);
     if a AND 0x80 = 0 then Some (1, ucast a) else do {
     p1 \<leftarrow> rd p 1;
     let b = (ucast p1 :: u32);
     if b AND 0x80 = 0 then
       (let a = a AND 0x7f; a = push_bit 7 a; a = a OR b in Some (2, ucast a)) else do {
     p2 \<leftarrow> rd p 2;
     let a = push_bit 14 a OR ucast p2;
     if a AND 0x80 = 0 then
       (let a = a AND SLOT_2_0; b = b AND 0x7f; b = push_bit 7 b; a = a OR b
        in Some (3, ucast a)) else do {
     let a = a AND SLOT_2_0;
     p3 \<leftarrow> rd p 3;
     let b = push_bit 14 b OR ucast p3;
     if b AND 0x80 = 0 then
       (let b = b AND SLOT_2_0; a = push_bit 7 a; a = a OR b in Some (4, ucast a)) else do {
     let b = b AND SLOT_2_0;
     let s = a;
     p4 \<leftarrow> rd p 4;
     let a = push_bit 14 a OR ucast p4;
     if a AND 0x80 = 0 then
       (let b = push_bit 7 b; a = a OR b; s = drop_bit 18 s
        in Some (5, push_bit 32 (ucast s) OR ucast a)) else do {
     let s = push_bit 7 s OR b;
     p5 \<leftarrow> rd p 5;
     let b = push_bit 14 b OR ucast p5;
     if b AND 0x80 = 0 then
       (let a = a AND SLOT_2_0; a = push_bit 7 a; a = a OR b; s = drop_bit 18 s
        in Some (6, push_bit 32 (ucast s) OR ucast a)) else do {
     p6 \<leftarrow> rd p 6;
     let a = push_bit 14 a OR ucast p6;
     if a AND 0x80 = 0 then
       (let a = a AND SLOT_4_2_0; b = b AND SLOT_2_0; b = push_bit 7 b; a = a OR b;
            s = drop_bit 11 s
        in Some (7, push_bit 32 (ucast s) OR ucast a)) else do {
     let a = a AND SLOT_2_0;
     p7 \<leftarrow> rd p 7;
     let b = push_bit 14 b OR ucast p7;
     if b AND 0x80 = 0 then
       (let b = b AND SLOT_4_2_0; a = push_bit 7 a; a = a OR b; s = drop_bit 4 s
        in Some (8, push_bit 32 (ucast s) OR ucast a)) else do {
     p8 \<leftarrow> rd p 8;
     let a = push_bit 15 a OR ucast p8;
     let b = b AND SLOT_2_0;
     let b = push_bit 8 b;
     let a = a OR b;
     let s = push_bit 4 s;
     p4' \<leftarrow> rd p 4;
     let b = (ucast p4' :: u32);
     let b = b AND 0x7f;
     let b = drop_bit 3 b;
     let s = s OR b;
     Some (9, push_bit 32 (ucast s) OR ucast a)
     }}}}}}}}}"

definition sqlite3GetVarint32 :: "bytes \<Rightarrow> (nat \<times> u32) option" where
  "sqlite3GetVarint32 p = do {
     p0 \<leftarrow> rd p 0;
     let a = (ucast p0 :: u32);
     p1 \<leftarrow> rd p 1;
     let b = (ucast p1 :: u32);
     if b AND 0x80 = 0 then
       (let a = a AND 0x7f; a = push_bit 7 a in Some (2, a OR b)) else do {
     p2 \<leftarrow> rd p 2;
     let a = push_bit 14 a OR ucast p2;
     if a AND 0x80 = 0 then
       (let a = a AND (push_bit 14 0x7f OR 0x7f); b = b AND 0x7f; b = push_bit 7 b
        in Some (3, a OR b)) else do {
     (n, v64) \<leftarrow> sqlite3GetVarint p;
     if v64 AND 0xffffffff \<noteq> v64 then Some (n, 0xffffffff) else Some (n, ucast v64)
     }}}"

definition getVarint32 :: "bytes \<Rightarrow> (nat \<times> u32) option" where
  "getVarint32 p = do {
     p0 \<leftarrow> rd p 0;
     if p0 < 0x80 then Some (1, ucast p0) else sqlite3GetVarint32 p
   }"

section \<open>Four-byte big-endian integers\<close>

definition sqlite3Get4byte :: "bytes \<Rightarrow> u32 option" where
  "sqlite3Get4byte p = do {
     p0 \<leftarrow> rd p 0; p1 \<leftarrow> rd p 1; p2 \<leftarrow> rd p 2; p3 \<leftarrow> rd p 3;
     Some (push_bit 24 (ucast p0) OR push_bit 16 (ucast p1) OR push_bit 8 (ucast p2) OR ucast p3)
   }"

definition sqlite3Put4byte :: "u32 \<Rightarrow> bytes" where
  "sqlite3Put4byte v =
     [ucast (drop_bit 24 v), ucast (drop_bit 16 v), ucast (drop_bit 8 v), ucast v]"

section \<open>The reference decoder\<close>

text \<open>
  What the format says: seven bits a byte, most significant group first, the high bit of a
  byte telling that another follows, except that a ninth byte holds eight bits.  The first
  argument counts the bytes already read.
\<close>

fun varint_ref :: "nat \<Rightarrow> u64 \<Rightarrow> bytes \<Rightarrow> (nat \<times> u64) option" where
  "varint_ref n acc [] = None"
| "varint_ref n acc (b # p) =
     (if n = 8 then Some (9, push_bit 8 acc OR ucast b)
      else if bit b 7 then varint_ref (Suc n) (push_bit 7 acc OR ucast (b AND 0x7f)) p
      else Some (Suc n, push_bit 7 acc OR ucast b))"

lemma SLOT_2_0_alt [bitvec_simps]: "SLOT_2_0 = push_bit 14 (mask 7) OR mask 7"
  by (simp add: SLOT_2_0_def mask_eq_exp_minus_1 push_bit_eq_mult)

lemma SLOT_4_2_0_alt [bitvec_simps]:
  "SLOT_4_2_0 = push_bit 28 (mask 4) OR push_bit 14 (mask 7) OR mask 7"
  by (simp add: SLOT_4_2_0_def mask_eq_exp_minus_1 push_bit_eq_mult)

text \<open>The ten shapes of a buffer that the unrolled code can meet.\<close>

fun varint_shape :: "bytes \<Rightarrow> nat" where
  "varint_shape [] = 0"
| "varint_shape [p0] = 1"
| "varint_shape [p0, p1] = 2"
| "varint_shape [p0, p1, p2] = 3"
| "varint_shape [p0, p1, p2, p3] = 4"
| "varint_shape [p0, p1, p2, p3, p4] = 5"
| "varint_shape [p0, p1, p2, p3, p4, p5] = 6"
| "varint_shape [p0, p1, p2, p3, p4, p5, p6] = 7"
| "varint_shape [p0, p1, p2, p3, p4, p5, p6, p7] = 8"
| "varint_shape (p0 # p1 # p2 # p3 # p4 # p5 # p6 # p7 # p8 # rest) = 9"

lemmas unroll_simps =
  sqlite3GetVarint_def Let_def flag_clear bit_or_iff bit_and_iff bit_push_bit_iff
  bit_mask_iff SLOT_2_0_alt

text \<open>
  One equation for each exit of the unrolled code: with the flag bits known, both sides
  reduce to closed expressions in the bytes, compared bit by bit.
\<close>

lemma GetVarint_exits:
  shows "\<lbrakk>\<not> bit p0 7\<rbrakk>
      \<Longrightarrow> sqlite3GetVarint (p0 # rest) =
        varint_ref 0 0 (p0 # rest)"
    and "\<lbrakk>bit p0 7; \<not> bit p1 7\<rbrakk>
      \<Longrightarrow> sqlite3GetVarint (p0 # p1 # rest) =
        varint_ref 0 0 (p0 # p1 # rest)"
    and "\<lbrakk>bit p0 7; bit p1 7; \<not> bit p2 7\<rbrakk>
      \<Longrightarrow> sqlite3GetVarint (p0 # p1 # p2 # rest) =
        varint_ref 0 0 (p0 # p1 # p2 # rest)"
    and "\<lbrakk>bit p0 7; bit p1 7; bit p2 7; \<not> bit p3 7\<rbrakk>
      \<Longrightarrow> sqlite3GetVarint (p0 # p1 # p2 # p3 # rest) =
        varint_ref 0 0 (p0 # p1 # p2 # p3 # rest)"
    and "\<lbrakk>bit p0 7; bit p1 7; bit p2 7; bit p3 7; \<not> bit p4 7\<rbrakk>
      \<Longrightarrow> sqlite3GetVarint (p0 # p1 # p2 # p3 # p4 # rest) =
        varint_ref 0 0 (p0 # p1 # p2 # p3 # p4 # rest)"
    and "\<lbrakk>bit p0 7; bit p1 7; bit p2 7; bit p3 7; bit p4 7; \<not> bit p5 7\<rbrakk>
      \<Longrightarrow> sqlite3GetVarint (p0 # p1 # p2 # p3 # p4 # p5 # rest) =
        varint_ref 0 0 (p0 # p1 # p2 # p3 # p4 # p5 # rest)"
    and "\<lbrakk>bit p0 7; bit p1 7; bit p2 7; bit p3 7; bit p4 7; bit p5 7; \<not> bit p6 7\<rbrakk>
      \<Longrightarrow> sqlite3GetVarint (p0 # p1 # p2 # p3 # p4 # p5 # p6 # rest) =
        varint_ref 0 0 (p0 # p1 # p2 # p3 # p4 # p5 # p6 # rest)"
    and "\<lbrakk>bit p0 7; bit p1 7; bit p2 7; bit p3 7; bit p4 7; bit p5 7; bit p6 7; \<not> bit p7 7\<rbrakk>
      \<Longrightarrow> sqlite3GetVarint (p0 # p1 # p2 # p3 # p4 # p5 # p6 # p7 # rest) =
        varint_ref 0 0 (p0 # p1 # p2 # p3 # p4 # p5 # p6 # p7 # rest)"
    and "\<lbrakk>bit p0 7; bit p1 7; bit p2 7; bit p3 7; bit p4 7; bit p5 7; bit p6 7; bit p7 7\<rbrakk>
      \<Longrightarrow> sqlite3GetVarint (p0 # p1 # p2 # p3 # p4 # p5 # p6 # p7 # p8 # rest) =
        varint_ref 0 0 (p0 # p1 # p2 # p3 # p4 # p5 # p6 # p7 # p8 # rest)"
  apply (simp_all add: unroll_simps)
  apply (simp_all only: bits_u64 bitvec_simps)
  apply (simp_all add: bit_simps bitvec_simps)
  apply (simp_all add: upt64 bitvec_simps)
  done

text \<open>A buffer that ends inside a varint is read past its end by both.\<close>

lemma GetVarint_short:
  "\<lbrakk>length p < 9; \<forall>b\<in>set p. bit b 7\<rbrakk> \<Longrightarrow> sqlite3GetVarint p = None"
  by (cases p rule: varint_shape.cases) (simp_all add: unroll_simps)

lemma varint_ref_short:
  "\<lbrakk>n + length p < 9; \<forall>b\<in>set p. bit b 7\<rbrakk> \<Longrightarrow> varint_ref n acc p = None"
  by (induction n acc p rule: varint_ref.induct) auto

lemma GetVarint_flagged_prefix:
  assumes "\<forall>b\<in>set bs. bit b 7" and "r = [] \<or> \<not> bit (hd r) 7"
  shows "sqlite3GetVarint (bs @ r) = varint_ref 0 0 (bs @ r)"
proof (cases r)
  case Nil
  show ?thesis
  proof (cases "length bs < 9")
    case True
    with Nil assms show ?thesis by (simp add: GetVarint_short varint_ref_short)
  next
    case False
    with Nil assms show ?thesis
      by (cases bs rule: varint_shape.cases)
        (simp_all only: GetVarint_exits append.simps list.set ball_simps list.size)
  qed
next
  case (Cons c rest)
  with assms have "\<not> bit c 7" by simp
  with assms Cons show ?thesis
    by (cases bs rule: varint_shape.cases)
      (simp_all only: GetVarint_exits append.simps list.set ball_simps simp_thms)
qed

lemma GetVarint_eq_ref: "sqlite3GetVarint p = varint_ref 0 0 p"
proof -
  have "\<forall>b\<in>set (takeWhile (\<lambda>b. bit b 7) p). bit b 7"
    by (auto dest: set_takeWhileD)
  moreover have "dropWhile (\<lambda>b. bit b 7) p = [] \<or> \<not> bit (hd (dropWhile (\<lambda>b. bit b 7) p)) 7"
    using hd_dropWhile [of "\<lambda>b. bit b 7" p] by blast
  ultimately have "sqlite3GetVarint (takeWhile (\<lambda>b. bit b 7) p @ dropWhile (\<lambda>b. bit b 7) p) =
      varint_ref 0 0 (takeWhile (\<lambda>b. bit b 7) p @ dropWhile (\<lambda>b. bit b 7) p)"
    by (rule GetVarint_flagged_prefix)
  then show ?thesis by (simp only: takeWhile_dropWhile_id)
qed

end
