(* ===== verification/Varint_Roundtrip.thy ===== *)
theory Varint_Roundtrip
  imports Util_Varint
begin

section \<open>Round trips\<close>

text \<open>The group of seven bits that the encoder stores, with the continuation flag set.\<close>

definition put_step :: "u64 \<Rightarrow> u8 \<Rightarrow> u64" where
  "put_step acc b = push_bit 7 acc OR ucast (b AND 0x7f)"

lemma put_step_digit [simp]:
  "put_step (drop_bit 7 v) (ucast (v AND 0x7f) OR 0x80) = v"
  unfolding put_step_def
  by (simp only: bits_u64, simp add: bit_simps bitvec_simps, simp add: upt64)

lemma fold_putvarint_buf: "foldl put_step 0 (rev (putvarint_buf v)) = v"
proof (induction v rule: putvarint_buf.induct)
  case (1 v)
  show ?case
  proof (cases "drop_bit 7 v = 0")
    case True
    then show ?thesis
      using put_step_digit [of v] by (simp add: putvarint_buf.simps [of v])
  next
    case False
    with 1 show ?thesis
      by (simp add: putvarint_buf.simps [of v] Let_def)
  qed
qed

lemma flags_putvarint_buf: "\<forall>b\<in>set (putvarint_buf v). bit b 7"
proof (induction v rule: putvarint_buf.induct)
  case (1 v)
  then show ?case
    by (auto simp: putvarint_buf.simps [of v] Let_def bit_simps bitvec_simps)
qed

lemma putvarint_buf_nonempty [simp]: "putvarint_buf v \<noteq> []"
  by (subst putvarint_buf.simps) (simp add: Let_def)

lemma length_putvarint_buf_le:
  assumes "drop_bit (7 * n) v = 0"
  shows "length (putvarint_buf v) \<le> max 1 n"
  using assms
proof (induction v arbitrary: n rule: putvarint_buf.induct)
  case (1 v)
  show ?case
  proof (cases "drop_bit 7 v = 0")
    case True
    then show ?thesis by (simp add: putvarint_buf.simps [of v] Let_def)
  next
    case False
    with "1.prems" obtain m where n: "n = Suc m" by (cases n) auto
    with False "1.prems" have "0 < m" by (cases m) auto
    have "drop_bit (7 * m) (drop_bit 7 v) = 0"
      using "1.prems" n by (simp add: drop_bit_drop_bit add.commute)
    with 1 False have "length (putvarint_buf (drop_bit 7 v)) \<le> max 1 m" by blast
    with False n \<open>0 < m\<close> show ?thesis
      by (simp add: putvarint_buf.simps [of v] Let_def)
  qed
qed

lemma varint_ref_flagged:
  assumes "\<forall>b\<in>set bs. bit b 7" and "n + length bs \<le> 8"
  shows "varint_ref n acc (bs @ c # rest) = varint_ref (n + length bs) (foldl put_step acc bs) (c # rest)"
  using assms
proof (induction bs arbitrary: n acc)
  case Nil
  then show ?case by simp
next
  case (Cons b bs)
  then show ?case by (simp add: put_step_def del: varint_ref.simps(2)) (subst varint_ref.simps, simp add: put_step_def)
qed

lemma high_byte_clear:
  fixes v :: u64
  shows "v AND push_bit 32 0xff000000 = 0 \<longleftrightarrow> drop_bit 56 v = 0"
proof -
  have "(push_bit 32 0xff000000 :: u64) = push_bit 56 (mask 8)"
    by (simp add: push_bit_eq_mult mask_eq_exp_minus_1)
  then show ?thesis
    by (simp only: bits_u64, simp add: bit_simps bitvec_simps, simp add: upt64 bitvec_simps)
qed

lemma PutVarint_cases:
  "drop_bit 56 v \<noteq> 0 \<Longrightarrow> sqlite3PutVarint v = (9, putvarint9 8 (drop_bit 8 v) [ucast v])"
  "drop_bit 56 v = 0 \<Longrightarrow> putvarint_buf v = b # bs \<Longrightarrow>
     sqlite3PutVarint v = (Suc (length bs), rev bs @ [b AND 0x7f])"
  by (simp_all only: sqlite3PutVarint_def high_byte_clear) (simp_all add: Let_def)

lemma putvarint9_alt:
  "\<exists>ds. putvarint9 n v acc = ds @ acc \<and> length ds = n \<and> (\<forall>b\<in>set ds. bit b 7) \<and>
        foldl put_step (drop_bit (7 * n) v) ds = v"
proof (induction n arbitrary: v acc)
  case 0
  then show ?case by simp
next
  case (Suc n)
  let ?b = "ucast (v AND 0x7f) OR 0x80 :: u8"
  obtain ds where ds: "putvarint9 n (drop_bit 7 v) (?b # acc) = ds @ ?b # acc"
    "length ds = n" "\<forall>b\<in>set ds. bit b 7"
    "foldl put_step (drop_bit (7 * n) (drop_bit 7 v)) ds = drop_bit 7 v"
    using Suc [of "drop_bit 7 v" "?b # acc"] by auto
  show ?case
    by (rule exI [of _ "ds @ [?b]"])
      (use ds in \<open>auto simp: drop_bit_drop_bit add.commute bit_or_iff bit_0x80\<close>)
qed

lemma PutVarint_length: "fst (sqlite3PutVarint v) = length (snd (sqlite3PutVarint v))"
proof (cases "drop_bit 56 v = 0")
  case True
  then show ?thesis
    using PutVarint_cases(2) [OF True] by (cases "putvarint_buf v") auto
next
  case False
  then show ?thesis
    using putvarint9_alt [of 8 "drop_bit 8 v" "[ucast v]"] by (auto simp: PutVarint_cases(1))
qed

lemma PutVarint_varint_ref:
  "varint_ref 0 0 (snd (sqlite3PutVarint v) @ rest) = Some (fst (sqlite3PutVarint v), v)"
proof (cases "drop_bit 56 v = 0")
  case False
  obtain ds where ds: "putvarint9 8 (drop_bit 8 v) [ucast v] = ds @ [ucast v]"
    "length ds = 8" "\<forall>b\<in>set ds. bit b 7"
    "foldl put_step (drop_bit 56 (drop_bit 8 v)) ds = drop_bit 8 v"
    using putvarint9_alt [of 8 "drop_bit 8 v" "[ucast v]"] by auto
  have z: "drop_bit 56 (drop_bit 8 v) = 0"
    by (simp add: drop_bit_drop_bit)
  have "push_bit 8 (drop_bit 8 v) OR ucast (ucast v :: u8) = v"
    by (simp only: bits_u64, simp add: bit_simps bitvec_simps, simp add: upt64)
  with ds z False show ?thesis
    by (simp add: PutVarint_cases varint_ref_flagged)
next
  case True
  obtain b bs where buf: "putvarint_buf v = b # bs"
    using putvarint_buf_nonempty by (cases "putvarint_buf v") auto
  have len: "length (b # bs) \<le> 8"
    using length_putvarint_buf_le [of 8 v] True buf by simp
  have flags: "\<forall>x\<in>set (rev bs). bit x 7"
    using flags_putvarint_buf [of v] buf by simp
  have val: "put_step (foldl put_step 0 (rev bs)) b = v"
    using fold_putvarint_buf [of v] buf by simp
  have "\<not> bit (b AND 0x7f) 7" by (simp add: bit_simps bitvec_simps)
  with True buf len flags val show ?thesis
    by (simp add: PutVarint_cases varint_ref_flagged put_step_def)
qed


lemma less_0x80_iff: "v < 0x80 \<longleftrightarrow> drop_bit 7 v = 0" for v :: u32
proof -
  have "drop_bit 7 v = 0 \<longleftrightarrow> unat v div 2 ^ 7 = 0"
    by (metis drop_bit_eq_div unat_drop_bit_eq unsigned_eq_0_iff)
  then show ?thesis by (simp add: word_less_nat_alt div_eq_0_iff)
qed

lemma length_putvarint_buf_gt: "drop_bit (7 * n) v \<noteq> 0 \<Longrightarrow> n < length (putvarint_buf v)"
proof (induction v arbitrary: n rule: putvarint_buf.induct)
  case (1 v)
  show ?case
  proof (cases n)
    case 0
    then show ?thesis by simp
  next
    case (Suc m)
    with "1.prems" have m: "drop_bit (7 * m) (drop_bit 7 v) \<noteq> 0"
      by (simp add: drop_bit_drop_bit add.commute)
    have "drop_bit 7 v \<noteq> 0"
    proof
      assume "drop_bit 7 v = 0"
      with m show False by (simp only: drop_bit_of_0)
    qed
    with 1 m Suc show ?thesis
      by (simp add: putvarint_buf.simps [of v] Let_def)
  qed
qed

lemma VarintLen_loop_buf:
  "i < 9 \<Longrightarrow> VarintLen_loop i v = min 9 (i + length (putvarint_buf v))"
proof (induction i v rule: VarintLen_loop.induct)
  case (1 i v)
  show ?case
  proof (cases "drop_bit 7 v \<noteq> 0 \<and> i + 1 < 9")
    case True
    with 1 have "VarintLen_loop (i + 1) (drop_bit 7 v) =
        min 9 (i + 1 + length (putvarint_buf (drop_bit 7 v)))"
      by simp
    with True show ?thesis
      by (simp add: VarintLen_loop.simps [of i v] putvarint_buf.simps [of v] Let_def)
  next
    case False
    have "0 < length (putvarint_buf v)" by simp
    with False 1 show ?thesis
      by (auto simp: VarintLen_loop.simps [of i v] putvarint_buf.simps [of v] Let_def)
  qed
qed

lemma PutVarint_lengths:
  "sqlite3VarintLen v = fst (sqlite3PutVarint v) \<and>
   length (snd (sqlite3PutVarint v)) = fst (sqlite3PutVarint v) \<and>
   1 \<le> fst (sqlite3PutVarint v) \<and> fst (sqlite3PutVarint v) \<le> 9"
proof -
  have len: "sqlite3VarintLen v = min 9 (length (putvarint_buf v))"
    by (simp add: sqlite3VarintLen_def VarintLen_loop_buf)
  have "fst (sqlite3PutVarint v) = min 9 (length (putvarint_buf v))"
  proof (cases "drop_bit 56 v = 0")
    case True
    then show ?thesis
      using length_putvarint_buf_le [of 8 v] PutVarint_cases(2) [OF True]
      by (cases "putvarint_buf v") auto
  next
    case False
    then show ?thesis
      using length_putvarint_buf_gt [of 8 v] by (simp add: PutVarint_cases(1))
  qed
  moreover have "0 < length (putvarint_buf v)" by simp
  ultimately show ?thesis using len PutVarint_length [of v] by linarith
qed

lemma drop_bit_ucast_u32: "drop_bit n (ucast (v::u32) :: u64) = ucast (drop_bit n v)"
  by (rule bit_word_eqI) (auto simp: bit_simps dest: bit_imp_le_length)

lemma ucast_u32_eq_0 [simp]: "(ucast (v::u32) :: u64) = 0 \<longleftrightarrow> v = 0"
  by (simp only: bits_u64 bits_u32, simp add: bit_simps, simp add: upt64 upt32 bitvec_simps)

lemma mask_0x3fff [bitvec_simps]: "(0x3fff::'a::len word) = mask 14"
  by (simp add: mask_eq_exp_minus_1)

lemma two_byte_test: "v AND NOT 0x3fff = 0 \<longleftrightarrow> drop_bit 14 v = 0" for v :: u32
  by (simp only: bits_u32 bitvec_simps, simp add: bit_simps, simp add: upt32 bitvec_simps)

lemma putvarint_buf_small:
  "drop_bit 7 v = 0 \<Longrightarrow> putvarint_buf v = [ucast (v AND 0x7f) OR 0x80]"
  by (simp add: putvarint_buf.simps [of v])

lemma low_flag_off: "(ucast ((v::u64) AND 0x7f) OR 0x80 :: u8) AND 0x7f = ucast (v AND 0x7f)"
  by (simp only: bits_u8 bitvec_simps, simp add: bit_simps, simp add: upt8 bitvec_simps)

lemma PutVarint_one: "drop_bit 7 v = 0 \<Longrightarrow> sqlite3PutVarint v = (1, [ucast (v AND 0x7f)])"
  using PutVarint_cases(2) [of v] putvarint_buf_small [of v] drop_bit_drop_bit [of 49 7 v]
  by (simp add: low_flag_off)

lemma PutVarint_two:
  assumes "drop_bit 7 v \<noteq> 0" and "drop_bit 14 v = 0"
  shows "sqlite3PutVarint v = (2, [ucast (drop_bit 7 v AND 0x7f) OR 0x80, ucast (v AND 0x7f)])"
proof -
  have "drop_bit 7 (drop_bit 7 v) = 0" using assms(2) by (simp add: drop_bit_drop_bit)
  then have "putvarint_buf v = [ucast (v AND 0x7f) OR 0x80, ucast (drop_bit 7 v AND 0x7f) OR 0x80]"
    using assms(1) putvarint_buf_small [of "drop_bit 7 v"] by (simp add: putvarint_buf.simps [of v] Let_def)
  moreover have "drop_bit 56 v = 0" using assms(2) drop_bit_drop_bit [of 42 14 v] by simp
  ultimately show ?thesis using PutVarint_cases(2) [of v] by (simp add: low_flag_off)
qed

lemma ucast_low_byte:
  "drop_bit 7 v = 0 \<Longrightarrow> ucast (ucast v AND 0x7f :: u64) = (ucast v :: u8)"
  "ucast (ucast v AND 0x7f :: u64) = (ucast (v AND 0x7f) :: u8)" for v :: u32
  by (simp_all only: bits_u32 bits_u8 bitvec_simps, simp_all add: bit_simps,
      simp_all add: upt32 upt8 bitvec_simps)

lemma ucast_second_byte:
  "ucast (drop_bit 7 v AND 0x7f) OR 0x80 = (ucast (drop_bit 7 v) OR 0x80 :: u8)" for v :: u32
  by (simp only: bits_u32 bits_u8 bitvec_simps, simp add: bit_simps, simp add: upt32 upt8 bitvec_simps)

lemma putVarint32_PutVarint: "putVarint32 v = sqlite3PutVarint (ucast v)"
proof -
  consider (one) "drop_bit 7 v = 0" | (two) "drop_bit 7 v \<noteq> 0" "drop_bit 14 v = 0"
    | (more) "drop_bit 7 v \<noteq> 0" "drop_bit 14 v \<noteq> 0" by blast
  then show ?thesis
  proof cases
    case one
    then show ?thesis
      by (simp add: putVarint32_def less_0x80_iff PutVarint_one drop_bit_ucast_u32 ucast_low_byte(1))
  next
    case two
    then show ?thesis
      by (simp add: putVarint32_def sqlite3PutVarint32_def less_0x80_iff two_byte_test [simplified]
          PutVarint_two drop_bit_ucast_u32 ucast_low_byte(2) ucast_second_byte)
  next
    case more
    then show ?thesis
      by (simp add: putVarint32_def sqlite3PutVarint32_def less_0x80_iff two_byte_test [simplified])
  qed
qed

lemma mask_0xffffffff [bitvec_simps]: "(0xffffffff::'a::len word) = mask 32"
  by (simp add: mask_eq_exp_minus_1)

lemma fits_u32_iff: "v AND 0xffffffff = v \<longleftrightarrow> v \<le> 0xffffffff" for v :: u64
proof
  assume "v AND 0xffffffff = v"
  then show "v \<le> 0xffffffff" using word_and_le1 [of v "0xffffffff"] by simp
next
  assume "v \<le> 0xffffffff"
  then have "v < 2 ^ 32" by (simp add: word_le_nat_alt word_less_nat_alt)
  then show "v AND 0xffffffff = v" by (simp only: mask_0xffffffff less_mask_eq)
qed

lemma flag_less_u8: "p < 0x80 \<longleftrightarrow> \<not> bit p 7" for p :: u8
proof -
  have "bit p 7 \<longleftrightarrow> bit (unat p) 7" by (simp add: bit_unsigned_iff)
  also have "\<dots> \<longleftrightarrow> odd (unat p div 128)" by (simp add: bit_iff_odd)
  finally have odd: "bit p 7 \<longleftrightarrow> odd (unat p div 128)" .
  have "unat p < 256" using unsigned_less [of p, where ?'a = nat] by simp
  then have "unat p div 128 = 0 \<or> unat p div 128 = 1" by linarith
  then have "even (unat p div 128) \<longleftrightarrow> unat p < 128" by (auto simp: div_eq_0_iff)
  with odd show ?thesis by (simp add: word_less_nat_alt)
qed

definition clamp_u32 :: "nat \<times> u64 \<Rightarrow> nat \<times> u32" where
  "clamp_u32 r = (fst r, if snd r \<le> 0xffffffff then ucast (snd r) else 0xffffffff)"

lemma clamp_u32_fits: "v AND 0xffffffff = v \<Longrightarrow> clamp_u32 (n, v) = (n, ucast v)"
  by (simp add: clamp_u32_def fits_u32_iff)

lemma GetVarint32_flagged2:
  assumes "bit p0 7" "bit p1 7"
  shows "sqlite3GetVarint32 (p0 # p1 # p) = map_option clamp_u32 (varint_ref 0 0 (p0 # p1 # p))"
proof (cases p)
  case Nil
  with assms show ?thesis by (simp add: sqlite3GetVarint32_def Let_def flag_clear)
next
  case (Cons p2 r)
  show ?thesis
  proof (cases "bit p2 7")
    case True
    with assms Cons show ?thesis
      by (cases "varint_ref 0 0 (p0 # p1 # p)")
        (auto simp: sqlite3GetVarint32_def Let_def flag_clear GetVarint_eq_ref bit_or_iff
          bit_push_bit_iff fits_u32_iff clamp_u32_def simp del: varint_ref.simps)
  next
    case False
    let ?v = "push_bit 7 (push_bit 7 (ucast (p0 AND 0x7f)) OR ucast (p1 AND 0x7f)) OR ucast p2 :: u64"
    have "clamp_u32 (3, ?v) = (3, ucast ?v)"
      by (rule clamp_u32_fits)
        (simp only: bits_u64 bitvec_simps, simp add: bit_simps, simp add: upt64 bitvec_simps)
    moreover have "(push_bit 14 (ucast p0) OR ucast p2) AND (push_bit 14 0x7f OR 0x7f) OR
        push_bit 7 (ucast p1 AND 0x7f) = (ucast ?v :: u32)"
      using False by (simp only: bits_u32 bitvec_simps, simp add: bit_simps, simp add: upt32 bitvec_simps)
    moreover have "varint_ref 0 0 (p0 # p1 # p) = Some (3, ?v)"
      using assms False Cons by simp
    ultimately show ?thesis
      using assms False Cons
      by (simp add: sqlite3GetVarint32_def Let_def flag_clear bit_or_iff bit_push_bit_iff
          del: varint_ref.simps)
  qed
qed

lemma GetVarint32_flagged1:
  assumes "bit p0 7"
  shows "sqlite3GetVarint32 (p0 # p) = map_option clamp_u32 (varint_ref 0 0 (p0 # p))"
proof (cases p)
  case Nil
  with assms show ?thesis by (simp add: sqlite3GetVarint32_def)
next
  case (Cons p1 r)
  show ?thesis
  proof (cases "bit p1 7")
    case True
    with assms Cons GetVarint32_flagged2 show ?thesis by blast
  next
    case False
    let ?v = "push_bit 7 (ucast (p0 AND 0x7f)) OR ucast p1 :: u64"
    have "clamp_u32 (2, ?v) = (2, ucast ?v)"
      by (rule clamp_u32_fits)
        (simp only: bits_u64 bitvec_simps, simp add: bit_simps, simp add: upt64 bitvec_simps)
    moreover have "push_bit 7 (ucast p0 AND 0x7f) OR ucast p1 = (ucast ?v :: u32)"
      by (simp only: bits_u32 bitvec_simps, simp add: bit_simps, simp add: upt32 bitvec_simps)
    moreover have "varint_ref 0 0 (p0 # p) = Some (2, ?v)"
      using assms False Cons by simp
    ultimately show ?thesis
      using assms False Cons
      by (simp add: sqlite3GetVarint32_def Let_def flag_clear del: varint_ref.simps)
  qed
qed

lemma getVarint32_clamp: "getVarint32 p = map_option clamp_u32 (sqlite3GetVarint p)"
proof (cases p)
  case Nil
  then show ?thesis by (simp add: getVarint32_def GetVarint_eq_ref)
next
  case (Cons p0 r)
  have "clamp_u32 (1, ucast p0) = (1, ucast (ucast p0 :: u64))"
    by (rule clamp_u32_fits)
      (simp only: bits_u64 bitvec_simps, simp add: bit_simps, simp add: upt64 bitvec_simps)
  moreover have "ucast (ucast p0 :: u64) = (ucast p0 :: u32)"
    by (simp only: bits_u32, simp add: bit_simps, simp add: upt32 bitvec_simps)
  moreover note Cons
  ultimately show ?thesis
    by (cases "bit p0 7")
      (simp_all add: getVarint32_def GetVarint_eq_ref flag_less_u8 GetVarint32_flagged1)
qed

lemma Get4byte_Put4byte: "sqlite3Get4byte (sqlite3Put4byte v @ rest) = Some v"
  by (simp add: sqlite3Get4byte_def sqlite3Put4byte_def)
    (simp only: bits_u32, simp add: bit_simps, simp add: upt32)

lemma Put4byte_Get4byte:
  "map_option sqlite3Put4byte (sqlite3Get4byte [p0, p1, p2, p3]) = Some [p0, p1, p2, p3]"
  by (simp add: sqlite3Get4byte_def sqlite3Put4byte_def)
    (simp only: bits_u8, simp add: bit_simps, simp add: upt8 bitvec_simps)

lemma putVarint32_length: "length (snd (putVarint32 v)) = sqlite3VarintLen (ucast v)"
  and putVarint32_fst: "fst (putVarint32 v) = length (snd (putVarint32 v))"
  and putVarint32_nonempty: "0 < length (snd (putVarint32 v))"
  and putVarint32_le_9: "length (snd (putVarint32 v)) \<le> 9"
  using PutVarint_lengths [of "ucast v"] by (simp_all add: putVarint32_PutVarint)

lemma getVarint32_putVarint32:
  "getVarint32 (snd (putVarint32 v) @ rest) = Some (length (snd (putVarint32 v)), v)"
proof -
  have "ucast v AND 0xffffffff = (ucast v :: u64)"
    by (rule bit_word_eqI) (auto simp: bit_simps mask_0xffffffff dest: bit_imp_le_length)
  moreover have "ucast (ucast v :: u64) = v"
    by (rule bit_word_eqI) (auto simp: bit_simps dest: bit_imp_le_length)
  ultimately show ?thesis
    using putVarint32_fst [of v]
    by (simp add: getVarint32_clamp GetVarint_eq_ref putVarint32_PutVarint PutVarint_varint_ref clamp_u32_fits)
qed

lemma VarintLen_le_iff:
  assumes "1 \<le> k" and "k \<le> 8"
  shows "sqlite3VarintLen v \<le> k \<longleftrightarrow> unat v < 2 ^ (7 * k)"
proof -
  have len: "sqlite3VarintLen v = min 9 (length (putvarint_buf v))"
    by (simp add: sqlite3VarintLen_def VarintLen_loop_buf)
  have "sqlite3VarintLen v \<le> k \<longleftrightarrow> drop_bit (7 * k) v = 0"
    using length_putvarint_buf_le [of k v] length_putvarint_buf_gt [of k v] assms len by force
  also have "\<dots> \<longleftrightarrow> unat v div 2 ^ (7 * k) = 0"
    by (metis drop_bit_eq_div unat_drop_bit_eq unsigned_eq_0_iff)
  finally show ?thesis by (simp add: div_eq_0_iff)
qed

section \<open>Properties\<close>

text \<open>
  C8: Reading what sqlite3PutVarint wrote, whatever bytes follow, gives back every 64-bit
  value and the number of bytes written, which is what sqlite3VarintLen computes and lies
  between 1 and 9.
\<close>

theorem Varint_roundtrip:
  "sqlite3GetVarint (snd (sqlite3PutVarint v) @ rest) = Some (sqlite3VarintLen v, v) \<and>
   length (snd (sqlite3PutVarint v)) = sqlite3VarintLen v \<and> 1 \<le> sqlite3VarintLen v \<and> sqlite3VarintLen v \<le> 9"
  using PutVarint_lengths [of v] by (simp add: GetVarint_eq_ref PutVarint_varint_ref)

text \<open>
  C9: The unrolled sqlite3GetVarint, with its masked and interleaved 32-bit accumulators,
  equals the byte-by-byte decoder of the format on every buffer, and reads past the end of
  exactly the buffers on which the reference does.
\<close>

theorem GetVarint_reference: "sqlite3GetVarint p = varint_ref 0 0 p"
  by (rule GetVarint_eq_ref)

text \<open>
  C36: The 32-bit varint routines and macros agree with the 64-bit ones: putVarint32 writes
  the same bytes and getVarint32 reads the same value, clamped to 0xffffffff.
\<close>

theorem Varint32_agrees:
  "putVarint32 v = sqlite3PutVarint (ucast v) \<and>
   getVarint32 p = map_option clamp_u32 (sqlite3GetVarint p)"
  by (simp add: putVarint32_PutVarint getVarint32_clamp)

text \<open>
  C37: sqlite3Get4byte and sqlite3Put4byte are inverse to each other.
\<close>

theorem Four_byte_roundtrip:
  "sqlite3Get4byte (sqlite3Put4byte v @ rest) = Some v \<and>
   map_option sqlite3Put4byte (sqlite3Get4byte [p0, p1, p2, p3]) = Some [p0, p1, p2, p3]"
  using Get4byte_Put4byte Put4byte_Get4byte by blast

end
