(* ===== verification/Util_Int.thy ===== *)
theory Util_Int
  imports Sqlite_Prelude "HOL-Library.Signed_Division"
begin

text \<open>
  The overflow-checked 64-bit arithmetic of util.c, which implements the SQL operators
  +, - and *.  C leaves a signed overflow undefined, so every signed operation of the
  code goes through \<open>ck64\<close>, which is \<open>None\<close> when the exact result is not an i64:
  a theorem that an operation returns \<open>Some\<close> says that none of its intermediate results
  overflows.  A C function that updates *pA returns its result code and the new *pA.
\<close>

definition LARGEST_INT64 :: int where "LARGEST_INT64 = 0x7fffffffffffffff"
definition SMALLEST_INT64 :: int where "SMALLEST_INT64 = - 1 - LARGEST_INT64"

definition in_i64 :: "int \<Rightarrow> bool" where
  "in_i64 x \<longleftrightarrow> SMALLEST_INT64 \<le> x \<and> x \<le> LARGEST_INT64"

definition ck64 :: "int \<Rightarrow> int option" where
  "ck64 x = (if in_i64 x then Some x else None)"

lemma in_i64_iff: "in_i64 x \<longleftrightarrow> - (2 ^ 63) \<le> x \<and> x < 2 ^ 63"
  by (auto simp: in_i64_def SMALLEST_INT64_def LARGEST_INT64_def)

lemma ck64_Some [simp]: "in_i64 x \<Longrightarrow> ck64 x = Some x"
  by (simp add: ck64_def)

definition sqlite3AddInt64 :: "int \<Rightarrow> int \<Rightarrow> (nat \<times> int) option" where
  "sqlite3AddInt64 iA iB =
     (if 0 \<le> iB then do {
        d \<leftarrow> (if 0 < iA then ck64 (LARGEST_INT64 - iA) else Some iB);
        if 0 < iA \<and> d < iB then Some (1, iA) else do {
        r \<leftarrow> ck64 (iA + iB);
        Some (0, r) }}
      else do {
        d \<leftarrow> (if iA < 0 then do { s \<leftarrow> ck64 (iA + LARGEST_INT64); ck64 (- s) } else Some iB);
        e \<leftarrow> ck64 (iB + 1);
        if iA < 0 \<and> d > e then Some (1, iA) else do {
        r \<leftarrow> ck64 (iA + iB);
        Some (0, r) }})"

definition sqlite3SubInt64 :: "int \<Rightarrow> int \<Rightarrow> (nat \<times> int) option" where
  "sqlite3SubInt64 iA iB =
     (if iB = SMALLEST_INT64 then
        (if 0 \<le> iA then Some (1, iA) else do { r \<leftarrow> ck64 (iA - iB); Some (0, r) })
      else do { nB \<leftarrow> ck64 (- iB); sqlite3AddInt64 iA nB })"

definition TWOPOWER32 :: int where "TWOPOWER32 = 2 ^ 32"
definition TWOPOWER31 :: int where "TWOPOWER31 = 2 ^ 31"

definition sqlite3MulInt64 :: "int \<Rightarrow> int \<Rightarrow> (nat \<times> int) option" where
  "sqlite3MulInt64 iA iB = do {
     let iA1 = iA sdiv TWOPOWER32;
     let iA0 = iA smod TWOPOWER32;
     let iB1 = iB sdiv TWOPOWER32;
     let iB0 = iB smod TWOPOWER32;
     h \<leftarrow> ck64 (iA1 * iB1);
     if h \<noteq> 0 then Some (1, iA) else do {
     x \<leftarrow> ck64 (iA1 * iB0);
     y \<leftarrow> ck64 (iA0 * iB1);
     r \<leftarrow> ck64 (x + y);
     if r < - TWOPOWER31 \<or> TWOPOWER31 \<le> r then Some (1, iA) else do {
     r \<leftarrow> ck64 (r * TWOPOWER32);
     l \<leftarrow> ck64 (iA0 * iB0);
     (rc, r') \<leftarrow> sqlite3AddInt64 r l;
     if rc \<noteq> 0 then Some (1, iA) else Some (0, r') }}}"

text \<open>An \<open>int\<close> is a 32-bit value here; 0x80000000 cast to int is the smallest one.\<close>

definition sqlite3AbsInt32 :: "int \<Rightarrow> int" where
  "sqlite3AbsInt32 x = (if 0 \<le> x then x else if x = - 0x80000000 then 0x7fffffff else - x)"

section \<open>The exact specification\<close>

text \<open>What the SQL layer relies on: the exact result, or 1 and the operand unchanged.\<close>

definition exact64 :: "int \<Rightarrow> int \<Rightarrow> nat \<times> int" where
  "exact64 old r = (if in_i64 r then (0, r) else (1, old))"

lemma AddInt64_exact:
  assumes "in_i64 a" and "in_i64 b"
  shows "sqlite3AddInt64 a b = Some (exact64 a (a + b))"
  using assms
  by (auto simp: sqlite3AddInt64_def exact64_def ck64_def in_i64_def SMALLEST_INT64_def
      LARGEST_INT64_def)

lemma SubInt64_exact:
  assumes "in_i64 a" and "in_i64 b"
  shows "sqlite3SubInt64 a b = Some (exact64 a (a - b))"
proof (cases "b = SMALLEST_INT64")
  case True
  with assms show ?thesis
    by (auto simp: sqlite3SubInt64_def exact64_def ck64_def in_i64_def SMALLEST_INT64_def
        LARGEST_INT64_def)
next
  case False
  with assms have "in_i64 (- b)"
    by (auto simp: in_i64_def SMALLEST_INT64_def LARGEST_INT64_def)
  with False assms show ?thesis
    by (simp add: sqlite3SubInt64_def AddInt64_exact)
qed

lemma AbsInt32_bounds:
  assumes "- (2 ^ 31) \<le> x" and "x < 2 ^ 31"
  shows "0 \<le> sqlite3AbsInt32 x \<and> sqlite3AbsInt32 x < 2 ^ 31 \<and>
    sqlite3AbsInt32 x = min \<bar>x\<bar> (2 ^ 31 - 1)"
  using assms by (auto simp: sqlite3AbsInt32_def)

section \<open>Multiplication\<close>

text \<open>
  The operands are split at 32 bits, towards zero, so both halves carry the sign of the
  operand.
\<close>

lemma split32_pos:
  assumes "0 \<le> a" shows "a sdiv TWOPOWER32 = a div 2 ^ 32" "a smod TWOPOWER32 = a mod 2 ^ 32"
  using assms
  by (auto simp: signed_divide_int_def signed_modulo_int_def TWOPOWER32_def sgn_if minus_div_mult_eq_mod)

lemma split32_neg:
  assumes "a < 0"
  shows "a sdiv TWOPOWER32 = - ((- a) div 2 ^ 32)" "a smod TWOPOWER32 = - ((- a) mod 2 ^ 32)"
  using assms minus_div_mult_eq_mod [of "- a" "2 ^ 32"]
  by (auto simp: signed_divide_int_def signed_modulo_int_def TWOPOWER32_def sgn_if)

lemma split32_sum: "a = (a sdiv TWOPOWER32) * 2 ^ 32 + a smod TWOPOWER32"
  using minus_div_mult_eq_mod [of "- a" "2 ^ 32"]
  by (cases "0 \<le> a") (simp_all add: split32_pos split32_neg)

lemma split32_bounds:
  assumes "in_i64 a"
  shows "\<bar>a sdiv TWOPOWER32\<bar> \<le> 2 ^ 31" and "\<bar>a smod TWOPOWER32\<bar> \<le> 2 ^ 32 - 1"
  using assms by (cases "0 \<le> a"; simp add: split32_pos split32_neg in_i64_iff; linarith)+

lemma split32_sign:
  "0 \<le> a \<Longrightarrow> 0 \<le> a sdiv TWOPOWER32" "0 \<le> a \<Longrightarrow> 0 \<le> a smod TWOPOWER32"
  "a \<le> 0 \<Longrightarrow> a sdiv TWOPOWER32 \<le> 0" "a \<le> 0 \<Longrightarrow> a smod TWOPOWER32 \<le> 0"
  by (cases "a = 0"; simp add: split32_pos split32_neg pos_imp_zdiv_nonneg_iff)+

lemma mult_abs_bound: "\<bar>x\<bar> \<le> m \<Longrightarrow> \<bar>y\<bar> \<le> n \<Longrightarrow> \<bar>x * y\<bar> \<le> m * n" for x y :: int
  by (simp add: abs_mult mult_mono)

text \<open>All four partial products have the sign of the product.\<close>

lemma partial_signs:
  fixes a b :: int
  defines "P \<equiv> \<lambda>x. if 0 \<le> a \<longleftrightarrow> 0 \<le> b then 0 \<le> x else x \<le> (0::int)"
  shows "P ((a sdiv TWOPOWER32) * (b sdiv TWOPOWER32))" "P ((a sdiv TWOPOWER32) * (b smod TWOPOWER32))"
    "P ((a smod TWOPOWER32) * (b sdiv TWOPOWER32))" "P ((a smod TWOPOWER32) * (b smod TWOPOWER32))"
  unfolding P_def using split32_sign [of a] split32_sign [of b]
  by (auto intro: mult_nonneg_nonneg mult_nonpos_nonpos mult_nonneg_nonpos mult_nonpos_nonneg)

definition low_product :: "int \<Rightarrow> int \<Rightarrow> int" where
  "low_product a b = (a smod TWOPOWER32) * (b smod TWOPOWER32)"

definition mid_product :: "int \<Rightarrow> int \<Rightarrow> int" where
  "mid_product a b = (a sdiv TWOPOWER32) * (b smod TWOPOWER32) + (a smod TWOPOWER32) * (b sdiv TWOPOWER32)"

lemma product_expand:
  "a * b = (a sdiv TWOPOWER32) * (b sdiv TWOPOWER32) * 2 ^ 64 + mid_product a b * 2 ^ 32 + low_product a b"
  by (subst split32_sum [of a], subst split32_sum [of b])
    (simp add: low_product_def mid_product_def algebra_simps)

lemma same_sign_sum_overflows:
  fixes h m1 m2 l :: int
  assumes "h \<noteq> 0"
    and "(0 \<le> h \<and> 0 \<le> m1 \<and> 0 \<le> m2 \<and> 0 \<le> l) \<or> (h \<le> 0 \<and> m1 \<le> 0 \<and> m2 \<le> 0 \<and> l \<le> 0)"
  shows "\<not> in_i64 (h * 2 ^ 64 + (m1 + m2) * 2 ^ 32 + l)"
  using assms by (auto simp: in_i64_iff)

lemma high_part_overflows:
  assumes "(a sdiv TWOPOWER32) * (b sdiv TWOPOWER32) \<noteq> 0"
  shows "\<not> in_i64 (a * b)"
  unfolding product_expand [of a b] low_product_def mid_product_def
  by (rule same_sign_sum_overflows [OF assms])
    (use partial_signs [of a b] in \<open>simp split: if_splits\<close>)

lemma mid_part_overflows:
  assumes "(a sdiv TWOPOWER32) * (b sdiv TWOPOWER32) = 0"
    and "mid_product a b < - TWOPOWER31 \<or> TWOPOWER31 \<le> mid_product a b"
  shows "\<not> in_i64 (a * b)"
  using assms partial_signs [of a b] product_expand [of a b]
  by (auto simp: in_i64_iff low_product_def mid_product_def TWOPOWER31_def split: if_splits)

lemma partial_products_in_range:
  assumes "in_i64 a" and "in_i64 b"
  shows "in_i64 ((a sdiv TWOPOWER32) * (b sdiv TWOPOWER32))"
    "in_i64 ((a sdiv TWOPOWER32) * (b smod TWOPOWER32))"
    "in_i64 ((a smod TWOPOWER32) * (b sdiv TWOPOWER32))"
  using mult_abs_bound [OF split32_bounds(1) [OF assms(1)] split32_bounds(1) [OF assms(2)]]
    mult_abs_bound [OF split32_bounds(1) [OF assms(1)] split32_bounds(2) [OF assms(2)]]
    mult_abs_bound [OF split32_bounds(2) [OF assms(1)] split32_bounds(1) [OF assms(2)]]
  by (auto simp: in_i64_iff abs_le_iff)

definition reaches_low_product :: "int \<Rightarrow> int \<Rightarrow> bool" where
  "reaches_low_product a b \<longleftrightarrow> (a sdiv TWOPOWER32) * (b sdiv TWOPOWER32) = 0 \<and>
     - TWOPOWER31 \<le> mid_product a b \<and> mid_product a b < TWOPOWER31"

lemma MulInt64_early:
  assumes "in_i64 a" and "in_i64 b" and "\<not> reaches_low_product a b"
  shows "sqlite3MulInt64 a b = Some (1, a) \<and> \<not> in_i64 (a * b)"
proof (cases "(a sdiv TWOPOWER32) * (b sdiv TWOPOWER32) = 0")
  case False
  then show ?thesis
    using high_part_overflows [OF False] partial_products_in_range(1) [OF assms(1,2)]
    by (simp add: sqlite3MulInt64_def)
next
  case True
  then have big: "mid_product a b < - TWOPOWER31 \<or> TWOPOWER31 \<le> mid_product a b"
    using assms(3) by (auto simp: reaches_low_product_def)
  have "in_i64 (mid_product a b)"
    using True partial_products_in_range [OF assms(1,2)] by (auto simp: mid_product_def)
  then show ?thesis
    using True big mid_part_overflows [OF True big] partial_products_in_range [OF assms(1,2)]
    by (simp add: sqlite3MulInt64_def mid_product_def)
qed

lemma MulInt64_late:
  assumes "in_i64 a" and "in_i64 b" and "reaches_low_product a b"
  shows "sqlite3MulInt64 a b =
    (if in_i64 (low_product a b) then Some (exact64 a (a * b)) else None)"
proof -
  have high: "(a sdiv TWOPOWER32) * (b sdiv TWOPOWER32) = 0"
    and small: "- TWOPOWER31 \<le> mid_product a b" "mid_product a b < TWOPOWER31"
    using assms(3) by (simp_all add: reaches_low_product_def)
  have mid: "in_i64 (mid_product a b)"
    using high partial_products_in_range [OF assms(1,2)] by (auto simp: mid_product_def)
  have r: "in_i64 (mid_product a b * TWOPOWER32)"
    using small by (auto simp: in_i64_iff TWOPOWER31_def TWOPOWER32_def)
  note ok = partial_products_in_range [OF assms(1,2)] mid r
  show ?thesis
  proof (cases "in_i64 (low_product a b)")
    case True
    have "mid_product a b * TWOPOWER32 + low_product a b = a * b"
      using high product_expand [of a b] by (simp add: TWOPOWER32_def)
    then have "sqlite3AddInt64 (mid_product a b * TWOPOWER32) (low_product a b) =
        Some (exact64 (mid_product a b * TWOPOWER32) (a * b))"
      using AddInt64_exact [OF r True] by simp
    then show ?thesis
      using high ok small True
      by (simp add: sqlite3MulInt64_def mid_product_def low_product_def exact64_def)
  next
    case False
    then show ?thesis
      using high ok small by (simp add: sqlite3MulInt64_def mid_product_def low_product_def ck64_def)
  qed
qed

text \<open>
  C28: sqlite3AddInt64 and sqlite3SubInt64 never overflow a C integer; they store the exact
  result when it fits in 64 bits and otherwise leave the operand and return 1.
\<close>

theorem AddSubInt64_exact:
  assumes "in_i64 a" and "in_i64 b"
  shows "sqlite3AddInt64 a b = Some (exact64 a (a + b)) \<and> sqlite3SubInt64 a b = Some (exact64 a (a - b))"
  using AddInt64_exact [OF assms] SubInt64_exact [OF assms] by simp

theorem AddSubInt64_exact_witness:
  "sqlite3AddInt64 (2 ^ 63 - 1) (- 5) = Some (0, 2 ^ 63 - 6) \<and>
   sqlite3SubInt64 (2 ^ 63 - 1) (- 5) = Some (1, 2 ^ 63 - 1)"
  using AddSubInt64_exact [of "2 ^ 63 - 1" "- 5"] by (simp add: in_i64_iff exact64_def)

text \<open>
  C27: sqlite3MulInt64 stores the exact product, or leaves its operand and returns 1 when the
  product does not fit, except when the product of the two low halves overflows, where the C
  expression is undefined.
\<close>

theorem MulInt64_spec:
  assumes "in_i64 a" and "in_i64 b"
  shows "sqlite3MulInt64 a b =
    (if reaches_low_product a b \<and> \<not> in_i64 (low_product a b) then None
     else Some (exact64 a (a * b)))"
  using MulInt64_early [OF assms] MulInt64_late [OF assms]
  by (cases "reaches_low_product a b") (auto simp: exact64_def)

theorem MulInt64_spec_witness:
  "in_i64 3037000500 \<and> in_i64 (- 3037000499) \<and>
   sqlite3MulInt64 3037000500 (- 3037000499) = Some (0, - 9223372033963249500)"
  using MulInt64_spec [of 3037000500 "- 3037000499"]
  by (simp add: in_i64_iff exact64_def low_product_def TWOPOWER32_def)


end
