(* ===== verification/Global_Tables.thy ===== *)
theory Global_Tables
  imports Sqlite_Prelude
begin

text \<open>
  The two character tables of global.c and the character-class macros of sqliteInt.h built
  on them.  Text is a \<open>string\<close>: a C string is the characters before its terminating
  zero byte, and a character indexes a table with its code, as (unsigned char) does.
\<close>

section \<open>The tables\<close>

definition sqlite3UpperToLower :: "nat list" where
  "sqlite3UpperToLower =
     [0, 1, 2, 3, 4, 5, 6, 7, 8, 9, 10, 11, 12, 13, 14, 15, 16, 17, 18, 19, 20, 21, 22,
      23, 24, 25, 26, 27, 28, 29, 30, 31, 32, 33, 34, 35, 36, 37, 38, 39, 40, 41, 42, 43,
      44, 45, 46, 47, 48, 49, 50, 51, 52, 53, 54, 55, 56, 57, 58, 59, 60, 61, 62, 63, 64,
      97, 98, 99, 100, 101, 102, 103, 104, 105, 106, 107, 108, 109, 110, 111, 112, 113,
      114, 115, 116, 117, 118, 119, 120, 121, 122, 91, 92, 93, 94, 95, 96, 97, 98, 99,
      100, 101, 102, 103, 104, 105, 106, 107, 108, 109, 110, 111, 112, 113, 114, 115, 116,
      117, 118, 119, 120, 121, 122, 123, 124, 125, 126, 127, 128, 129, 130, 131, 132, 133,
      134, 135, 136, 137, 138, 139, 140, 141, 142, 143, 144, 145, 146, 147, 148, 149, 150,
      151, 152, 153, 154, 155, 156, 157, 158, 159, 160, 161, 162, 163, 164, 165, 166, 167,
      168, 169, 170, 171, 172, 173, 174, 175, 176, 177, 178, 179, 180, 181, 182, 183, 184,
      185, 186, 187, 188, 189, 190, 191, 192, 193, 194, 195, 196, 197, 198, 199, 200, 201,
      202, 203, 204, 205, 206, 207, 208, 209, 210, 211, 212, 213, 214, 215, 216, 217, 218,
      219, 220, 221, 222, 223, 224, 225, 226, 227, 228, 229, 230, 231, 232, 233, 234, 235,
      236, 237, 238, 239, 240, 241, 242, 243, 244, 245, 246, 247, 248, 249, 250, 251, 252,
      253, 254, 255]"

definition sqlite3CtypeMap :: "u8 list" where
  "sqlite3CtypeMap =
     [0, 0, 0, 0, 0, 0, 0, 0, 0, 1, 1, 1, 1, 1, 0, 0, 0, 0, 0, 0, 0, 0, 0, 0, 0, 0, 0, 0,
      0, 0, 0, 0, 1, 0, 0, 0, 64, 0, 0, 0, 0, 0, 0, 0, 0, 0, 0, 0, 12, 12, 12, 12, 12, 12,
      12, 12, 12, 12, 0, 0, 0, 0, 0, 0, 0, 10, 10, 10, 10, 10, 10, 2, 2, 2, 2, 2, 2, 2, 2,
      2, 2, 2, 2, 2, 2, 2, 2, 2, 2, 2, 2, 0, 0, 0, 0, 64, 0, 42, 42, 42, 42, 42, 42, 34,
      34, 34, 34, 34, 34, 34, 34, 34, 34, 34, 34, 34, 34, 34, 34, 34, 34, 34, 34, 0, 0, 0,
      0, 0, 64, 64, 64, 64, 64, 64, 64, 64, 64, 64, 64, 64, 64, 64, 64, 64, 64, 64, 64,
      64, 64, 64, 64, 64, 64, 64, 64, 64, 64, 64, 64, 64, 64, 64, 64, 64, 64, 64, 64, 64,
      64, 64, 64, 64, 64, 64, 64, 64, 64, 64, 64, 64, 64, 64, 64, 64, 64, 64, 64, 64, 64,
      64, 64, 64, 64, 64, 64, 64, 64, 64, 64, 64, 64, 64, 64, 64, 64, 64, 64, 64, 64, 64,
      64, 64, 64, 64, 64, 64, 64, 64, 64, 64, 64, 64, 64, 64, 64, 64, 64, 64, 64, 64, 64,
      64, 64, 64, 64, 64, 64, 64, 64, 64, 64, 64, 64, 64, 64, 64, 64, 64, 64, 64, 64, 64,
      64, 64, 64, 64]"

definition ctype :: "u8 \<Rightarrow> char \<Rightarrow> bool" where
  "ctype m c \<longleftrightarrow> sqlite3CtypeMap ! of_char c AND m \<noteq> 0"

definition UpperToLower :: "char \<Rightarrow> nat" where
  "UpperToLower c = sqlite3UpperToLower ! of_char c"

definition sqlite3Isspace :: "char \<Rightarrow> bool" where "sqlite3Isspace c \<longleftrightarrow> ctype 0x01 c"
definition sqlite3Isalnum :: "char \<Rightarrow> bool" where "sqlite3Isalnum c \<longleftrightarrow> ctype 0x06 c"
definition sqlite3Isalpha :: "char \<Rightarrow> bool" where "sqlite3Isalpha c \<longleftrightarrow> ctype 0x02 c"
definition sqlite3Isdigit :: "char \<Rightarrow> bool" where "sqlite3Isdigit c \<longleftrightarrow> ctype 0x04 c"
definition sqlite3Isxdigit :: "char \<Rightarrow> bool" where "sqlite3Isxdigit c \<longleftrightarrow> ctype 0x08 c"
definition IdChar :: "char \<Rightarrow> bool" where "IdChar c \<longleftrightarrow> ctype 0x46 c"

section \<open>What the tables say\<close>

lemma of_char_less_256 [simp]: "of_char c < (256::nat)"
  by (simp add: of_char_def horner_sum_bit_eq_take_bit char_of_def)

text \<open>A table is checked entry by entry, its index counted along.\<close>

fun all_from :: "(int \<Rightarrow> 'a \<Rightarrow> bool) \<Rightarrow> int \<Rightarrow> 'a list \<Rightarrow> bool" where
  "all_from P n [] = True"
| "all_from P n (x # xs) = (P n x \<and> all_from P (n + 1) xs)"

lemma all_from_nth: "all_from P n xs \<Longrightarrow> i < length xs \<Longrightarrow> P (n + int i) (xs ! i)"
proof (induction xs arbitrary: n i)
  case Nil
  then show ?case by simp
next
  case (Cons x xs)
  then have "i = Suc j \<Longrightarrow> P (n + 1 + int j) (xs ! j)" for j by simp
  then show ?case using Cons.prems(1) by (cases i) (simp_all add: add.assoc)
qed

lemma length_tables [simp]: "length sqlite3UpperToLower = 256" "length sqlite3CtypeMap = 256"
  by (simp_all add: sqlite3UpperToLower_def sqlite3CtypeMap_def)

lemma UpperToLower_table:
  "all_from (\<lambda>n v. int v = (if 65 \<le> n \<and> n \<le> 90 then n + 32 else n)) 0 sqlite3UpperToLower"
  unfolding sqlite3UpperToLower_def by simp

lemma UpperToLower_alt:
  "UpperToLower c =
     (if 65 \<le> (of_char c :: nat) \<and> (of_char c :: nat) \<le> 90 then of_char c + 32 else of_char c)"
  using all_from_nth [OF UpperToLower_table, of "of_char c"] by (auto simp: UpperToLower_def)

lemma Isdigit_table:
  "all_from (\<lambda>n v. (v AND 0x04 \<noteq> 0) = (48 \<le> n \<and> n \<le> 57)) 0 sqlite3CtypeMap"
  unfolding sqlite3CtypeMap_def by simp

lemma Isdigit_alt: "sqlite3Isdigit c \<longleftrightarrow> 48 \<le> (of_char c :: nat) \<and> (of_char c :: nat) \<le> 57"
  using all_from_nth [OF Isdigit_table, of "of_char c"] by (simp add: sqlite3Isdigit_def ctype_def)

end
