(* ===== verification/Util_Text.thy ===== *)
theory Util_Text
  imports Global_Tables
begin

text \<open>
  The text routines of util.c: identifier comparison, dequoting, hexadecimal literals and the
  conversion of decimal text to integers.
\<close>

section \<open>Comparison without regard to case\<close>

text \<open>
  The loops stop at the terminating zero, which a \<open>string\<close> leaves implicit: a pointer at
  the end of the list reads 0, and UpperToLower[0] is 0.
\<close>

definition ch_at :: "string \<Rightarrow> int" where
  "ch_at z = (case z of [] \<Rightarrow> 0 | c # _ \<Rightarrow> int (UpperToLower c))"

fun sqlite3_stricmp :: "string \<Rightarrow> string \<Rightarrow> int" where
  "sqlite3_stricmp (a # as) (b # bs) =
     (if UpperToLower a = UpperToLower b then sqlite3_stricmp as bs
      else int (UpperToLower a) - int (UpperToLower b))"
| "sqlite3_stricmp as bs = ch_at as - ch_at bs"

text \<open>N is the count left; the C loop tests it and decrements it before it reads.\<close>

fun sqlite3_strnicmp :: "string \<Rightarrow> string \<Rightarrow> nat \<Rightarrow> int" where
  "sqlite3_strnicmp as bs 0 = 0"
| "sqlite3_strnicmp (a # as) (b # bs) (Suc n) =
     (if UpperToLower a = UpperToLower b then sqlite3_strnicmp as bs n
      else int (UpperToLower a) - int (UpperToLower b))"
| "sqlite3_strnicmp as bs (Suc n) = ch_at as - ch_at bs"

section \<open>Dequoting\<close>

text \<open>
  The loop of sqlite3Dequote works in place: i reads, j writes, and the bytes before j are
  the result.  The list is the array up to its terminating zero.
\<close>

function dequote_loop :: "char \<Rightarrow> string \<Rightarrow> nat \<Rightarrow> nat \<Rightarrow> string \<times> nat" where
  "dequote_loop quote z i j =
     (if i < length z then
        (if z ! i = quote then
           (if i + 1 < length z \<and> z ! (i + 1) = quote
            then dequote_loop quote (z[j := quote]) (i + 2) (j + 1)
            else (z, j))
         else dequote_loop quote (z[j := z ! i]) (i + 1) (j + 1))
      else (z, j))"
  by pat_completeness auto
termination
  by (relation "measure (\<lambda>(q, z, i, j). length z - i)") auto

declare dequote_loop.simps [simp del]

definition sqlite3Dequote :: "string \<Rightarrow> int \<times> string" where
  "sqlite3Dequote z =
     (case z of [] \<Rightarrow> (-1, z)
      | q # _ \<Rightarrow>
          if q = CHR ''[''  \<or> q = CHR 0x27 \<or> q = CHR 0x22 \<or> q = CHR 0x60 then
            (let quote = (if q = CHR ''['' then CHR '']'' else q);
                 (z', j) = dequote_loop quote z 1 0
             in (int j, take j z'))
          else (-1, z))"

section \<open>Decimal text\<close>

definition digit :: "char \<Rightarrow> nat" where
  "digit c = of_char c - 48"

definition is_digit :: "char \<Rightarrow> bool" where
  "is_digit c \<longleftrightarrow> 48 \<le> (of_char c :: nat) \<and> (of_char c :: nat) \<le> 57"

text \<open>The loop of sqlite3GetInt32 reads at most eleven digits.\<close>

fun getint32_digits :: "nat \<Rightarrow> int \<Rightarrow> string \<Rightarrow> nat \<times> int" where
  "getint32_digits i v [] = (i, v)"
| "getint32_digits i v (c # z) =
     (if i < 11 \<and> is_digit c then getint32_digits (Suc i) (v * 10 + int (digit c)) z else (i, v))"

definition sqlite3GetInt32 :: "string \<Rightarrow> int option" where
  "sqlite3GetInt32 z =
     (let (neg, z) = (case z of
            [] \<Rightarrow> (False, z)
          | c # z' \<Rightarrow> if c = CHR ''-'' then (True, z') else if c = CHR ''+'' then (False, z')
                     else (False, z));
          z = dropWhile (\<lambda>c. c = CHR ''0'') z;
          (i, v) = getint32_digits 0 0 z
      in if 10 < i then None
         else if 2147483647 < v - of_bool neg then None
         else Some (if neg then - v else v))"

definition sqlite3Atoi :: "string option \<Rightarrow> int" where
  "sqlite3Atoi z = (case z of None \<Rightarrow> 0 | Some z \<Rightarrow> case sqlite3GetInt32 z of None \<Rightarrow> 0 | Some x \<Rightarrow> x)"








section \<open>Hexadecimal\<close>

definition sqlite3HexToInt :: "char \<Rightarrow> u8" where
  "sqlite3HexToInt c =
     (let h = (of_char c :: 32 word); h = h + 9 * (1 AND drop_bit 6 h) in ucast (h AND 0xf))"

text \<open>The loop writes one byte for each pair of digits while i < n - 1.\<close>

fun hex_loop :: "string \<Rightarrow> bytes" where
  "hex_loop (a # b # z) = (push_bit 4 (sqlite3HexToInt a) OR sqlite3HexToInt b) # hex_loop z"
| "hex_loop _ = []"

definition sqlite3HexToBlob :: "bool \<Rightarrow> string \<Rightarrow> nat \<Rightarrow> bytes option" where
  "sqlite3HexToBlob malloc_ok z n =
     (if malloc_ok then Some (hex_loop (take n z) @ [0]) else None)"


section \<open>Comparison: what the routines decide\<close>

definition lower :: "string \<Rightarrow> int list" where
  "lower z = map (\<lambda>c. int (UpperToLower c)) z"

lemma UpperToLower_0: "UpperToLower c = 0 \<longleftrightarrow> c = CHR 0x00"
proof -
  have "(of_char c :: nat) = 0 \<longleftrightarrow> c = CHR 0x00"
    using of_char_eq_iff [of c "CHR 0x00", where ?'a = nat] by simp
  then show ?thesis by (auto simp: UpperToLower_alt)
qed

lemma ch_at_0: "CHR 0x00 \<notin> set z \<Longrightarrow> ch_at z = 0 \<longleftrightarrow> z = []"
  by (cases z) (auto simp: ch_at_def UpperToLower_0)

lemma ch_at_nonneg: "0 \<le> ch_at z"
  by (cases z) (auto simp: ch_at_def)

lemma stricmp_eq_0_iff:
  assumes "CHR 0x00 \<notin> set a" and "CHR 0x00 \<notin> set b"
  shows "sqlite3_stricmp a b = 0 \<longleftrightarrow> lower a = lower b"
  using assms
  by (induction a b rule: sqlite3_stricmp.induct) (auto simp: lower_def ch_at_def UpperToLower_0 split: list.splits)

lemma stricmp_antisym: "sqlite3_stricmp a b = - sqlite3_stricmp b a"
  by (induction a b rule: sqlite3_stricmp.induct) (auto simp: ch_at_def split: list.splits)

lemma stricmp_less_iff:
  assumes "CHR 0x00 \<notin> set a" and "CHR 0x00 \<notin> set b"
  shows "sqlite3_stricmp a b < 0 \<longleftrightarrow> (lower a, lower b) \<in> lexord {(x, y). x < y}"
  using assms
proof (induction a b rule: sqlite3_stricmp.induct [case_names both left right])
  case (both a as b bs)
  then show ?case by (auto simp: lower_def)
next
  case (left bs)
  have "0 < UpperToLower c \<longleftrightarrow> c \<noteq> CHR 0x00" for c
    using UpperToLower_0 [of c] by auto
  with left show ?case by (cases bs) (auto simp: lower_def ch_at_def)
next
  case (right as)
  then show ?case by (cases as) (auto simp: lower_def ch_at_def)
qed

lemma strnicmp_stricmp:
  assumes "CHR 0x00 \<notin> set a" and "CHR 0x00 \<notin> set b"
  shows "sqlite3_strnicmp a b n = sqlite3_stricmp (take n a) (take n b)"
  using assms
  by (induction a b n rule: sqlite3_strnicmp.induct) (auto simp: ch_at_def split: list.splits)

text \<open>
  C32: sqlite3_stricmp compares as the lexicographic order on lower-cased text, and
  sqlite3_strnicmp does so on the first n characters.
\<close>

theorem stricmp_orders:
  assumes "CHR 0x00 \<notin> set a" and "CHR 0x00 \<notin> set b"
  shows "(sqlite3_stricmp a b = 0 \<longleftrightarrow> lower a = lower b) \<and>
    (sqlite3_stricmp a b < 0 \<longleftrightarrow> (lower a, lower b) \<in> lexord {(x, y). x < y}) \<and>
    sqlite3_strnicmp a b n = sqlite3_stricmp (take n a) (take n b)"
  using stricmp_eq_0_iff [OF assms] stricmp_less_iff [OF assms] strnicmp_stricmp [OF assms] by blast

theorem stricmp_orders_witness:
  "sqlite3_stricmp ''ROWID'' ''rowid'' = 0 \<and> sqlite3_strnicmp ''rowid'' ''ROWS'' 4 < 0"
  using stricmp_orders [of "''ROWID''" "''rowid''" 0] stricmp_orders [of "''rowid''" "''ROWS''" 4]
    stricmp_less_iff [of "''rowi''" "''ROWS''"]
  by (simp add: lower_def UpperToLower_alt)

section \<open>Dequoting: the quoted text is recovered\<close>

fun undouble :: "char \<Rightarrow> string \<Rightarrow> string" where
  "undouble q [] = []"
| "undouble q (c # z) =
     (if c = q then (case z of d # z' \<Rightarrow> if d = q then q # undouble q z' else [] | [] \<Rightarrow> [])
      else c # undouble q z)"

lemma dequote_loop_undouble:
  assumes "j < i" and "j \<le> length z"
  shows "case dequote_loop q z i j of (z', k) \<Rightarrow>
    take k z' = take j z @ undouble q (drop i z) \<and> length z' = length z \<and> k \<le> length z"
  using assms
proof (induction q z i j rule: dequote_loop.induct)
  case (1 q z i j)
  show ?case
  proof (cases "i < length z")
    case False
    then show ?thesis using "1.prems" by (simp add: dequote_loop.simps [of q z i j])
  next
    case True
    then have dr: "drop i z = z ! i # drop (i + 1) z" by (simp add: Cons_nth_drop_Suc)
    consider (doubled) "z ! i = q" "i + 1 < length z" "z ! (i + 1) = q"
      | (close) "z ! i = q" "\<not> (i + 1 < length z \<and> z ! (i + 1) = q)" | (plain) "z ! i \<noteq> q" by blast
    then show ?thesis
    proof cases
      case doubled
      let ?z = "z[j := q]"
      have "drop (i + 1) z = q # drop (i + 2) z"
        using doubled by (simp add: Cons_nth_drop_Suc [symmetric])
      moreover have "take (Suc j) ?z = take j z @ [q]" "drop (i + 2) ?z = drop (i + 2) z"
        using True "1.prems" by (simp_all add: take_Suc_conv_app_nth)
      ultimately show ?thesis
        using "1.IH"(1) [OF True doubled(1)] doubled True dr "1.prems"
        by (simp add: dequote_loop.simps [of q z i j])
    next
      case close
      have "undouble q (drop i z) = []"
      proof (cases "i + 1 < length z")
        case more: True
        then have "drop (i + 1) z = z ! (i + 1) # drop (i + 2) z"
          by (simp add: Cons_nth_drop_Suc [symmetric])
        with close more dr show ?thesis by simp
      next
        case False
        with close dr show ?thesis by simp
      qed
      moreover have "dequote_loop q z i j = (z, j)"
        by (subst dequote_loop.simps) (use close True in auto)
      ultimately show ?thesis using "1.prems" by simp
    next
      case plain
      let ?z = "z[j := z ! i]"
      have "take (Suc j) ?z = take j z @ [z ! i]" "drop (i + 1) ?z = drop (i + 1) z"
        using True "1.prems" by (simp_all add: take_Suc_conv_app_nth)
      then show ?thesis
        using "1.IH"(2) [OF True plain] plain True dr "1.prems"
        by (simp add: dequote_loop.simps [of q z i j])
    qed
  qed
qed

definition double_quotes :: "char \<Rightarrow> string \<Rightarrow> string" where
  "double_quotes q s = concat (map (\<lambda>c. if c = q then [q, q] else [c]) s)"

lemma undouble_double_quotes:
  "(case rest of [] \<Rightarrow> True | c # _ \<Rightarrow> c \<noteq> q) \<Longrightarrow>
     undouble q (double_quotes q s @ q # rest) = s"
  by (induction s) (auto simp: double_quotes_def split: list.splits)

text \<open>
  C31: sqlite3Dequote recovers in place any text that was put between quotes with its quotes
  doubled, and returns its length.
\<close>

theorem Dequote_quoted:
  assumes "q \<in> {CHR 0x27, CHR 0x22, CHR 0x60}"
    and "case rest of [] \<Rightarrow> True | c # _ \<Rightarrow> c \<noteq> q"
  shows "sqlite3Dequote (q # double_quotes q s @ q # rest) = (int (length s), s)"
proof -
  let ?z = "q # double_quotes q s @ q # rest"
  obtain z' k where zk: "dequote_loop q ?z 1 0 = (z', k)" by fastforce
  then have s: "take k z' = s" and "k \<le> length z'"
    using dequote_loop_undouble [of 0 1 ?z q] undouble_double_quotes [OF assms(2), of s] by auto
  then have "k = length s" by (metis length_take min.absorb2)
  with s show ?thesis using assms(1) zk by (auto simp: sqlite3Dequote_def)
qed

theorem Dequote_quoted_witness:
  "sqlite3Dequote ''\"a\"\"b\" x'' = (3, ''a\"b'')"
  using Dequote_quoted [of "CHR 0x22" "'' x''" "''a\"b''"] by (simp add: double_quotes_def)

section \<open>Decimal conversion is exact\<close>


























section \<open>Hexadecimal literals\<close>

definition hex_digit :: "nat \<Rightarrow> char" where
  "hex_digit n = ''0123456789abcdef'' ! n"

definition hex_text :: "bytes \<Rightarrow> string" where
  "hex_text bs = concat (map (\<lambda>b. [hex_digit (unat b div 16), hex_digit (unat b mod 16)]) bs)"

lemma HexToInt_hex_digit: "n < 16 \<Longrightarrow> sqlite3HexToInt (hex_digit n) = of_nat n"
proof -
  have "list_all (\<lambda>n. sqlite3HexToInt (hex_digit n) = of_nat n) [0..<16]" by code_simp
  then show "n < 16 \<Longrightarrow> ?thesis" by (auto simp: list_all_iff)
qed

lemma nibbles: "push_bit 4 (of_nat (unat b div 16)) OR of_nat (unat b mod 16) = (b::u8)"
proof -
  have "unat b div 16 = unat (drop_bit 4 b)" "unat b mod 16 = unat (take_bit 4 b)"
    by (simp_all only: unat_drop_bit_eq unsigned_take_bit_eq) (simp_all add: drop_bit_eq_div take_bit_eq_mod)
  moreover have "push_bit 4 (drop_bit 4 b) OR take_bit 4 b = b"
    by (rule bit_word_eqI) (auto simp: bit_simps)
  ultimately show ?thesis by simp
qed

lemma hex_loop_hex_text: "hex_loop (hex_text bs) = bs"
proof (induction bs)
  case (Cons b bs)
  have "unat b < 256" using unsigned_less [of b, where ?'a = nat] by simp
  then have "unat b div 16 < 16" by simp
  with Cons show ?case by (simp add: hex_text_def HexToInt_hex_digit nibbles)
qed (simp add: hex_text_def)

lemma length_hex_text: "length (hex_text bs) = 2 * length bs"
  by (induction bs) (simp_all add: hex_text_def)

text \<open>
  C33: sqlite3HexToBlob turns the hexadecimal digits of any byte string back into it and
  terminates it with a zero byte.
\<close>

theorem HexToBlob_hex_text:
  "sqlite3HexToBlob True (hex_text bs @ rest) (length (hex_text bs)) = Some (bs @ [0])"
  by (simp add: sqlite3HexToBlob_def hex_loop_hex_text)

end
