(* ===== verification/Rowset.thy ===== *)
theory Rowset
  imports Sqlite_Prelude "HOL-Library.Tree"
begin

text \<open>
  The RowSet object of rowset.c.  A chain of entries linked by pRight is the list of its
  rowids; a tree of entries is a \<open>Tree\<close> whose nodes carry the rowids; the forest list,
  whose entries use pLeft for a tree and pRight for the next entry, is the list of those
  trees, \<open>Leaf\<close> standing for a null pLeft.  A rowid is an i64 that the code only compares,
  so it is an \<open>int\<close> here.  An \<open>assert\<close> that fails and a write behind the array of
  forty sort buckets are the value \<open>None\<close>.
\<close>

section \<open>Data\<close>

text \<open>The bits ROWSET_SORTED and ROWSET_NEXT of rsFlags are the two flags below.\<close>

record RowSet =
  pChunk :: nat
  pEntry :: "int list"
  pLast :: "int option"
  pForest :: "int tree list"
  nFresh :: nat
  rsSorted :: bool
  rsNext :: bool
  iBatch :: u8
  mallocs :: "bool list"

definition SIZEOF_ROWSET :: nat where "SIZEOF_ROWSET = 56"
definition SIZEOF_ENTRY :: nat where "SIZEOF_ENTRY = 24"

definition sqlite3RowSetInit :: "nat \<Rightarrow> bool list \<Rightarrow> RowSet option" where
  "sqlite3RowSetInit n ms =
     (if SIZEOF_ROWSET \<le> n then
        Some \<lparr>pChunk = 0, pEntry = [], pLast = None, pForest = [],
          nFresh = ((n - SIZEOF_ROWSET) div SIZEOF_ENTRY) mod 2 ^ 16,
          rsSorted = True, rsNext = False, iBatch = 0, mallocs = ms\<rparr>
      else None)"

definition sqlite3RowSetClear :: "RowSet \<Rightarrow> RowSet" where
  "sqlite3RowSetClear p =
     p\<lparr>pChunk := 0, nFresh := 0, pEntry := [], pLast := None, pForest := [],
       rsSorted := True, rsNext := False\<rparr>"


section \<open>Insertion\<close>


section \<open>Sorting\<close>

fun rowSetEntryMerge :: "int list \<Rightarrow> int list \<Rightarrow> int list" where
  "rowSetEntryMerge [] b = b"
| "rowSetEntryMerge a [] = a"
| "rowSetEntryMerge (x # a) (y # b) =
     (if x < y then x # rowSetEntryMerge a (y # b)
      else if y < x then y # rowSetEntryMerge (x # a) b
      else rowSetEntryMerge a (y # b))"

text \<open>The inner for loop over the buckets; the empty list is a null bucket.\<close>

fun bucket_insert :: "int list list \<Rightarrow> int list \<Rightarrow> int list list option" where
  "bucket_insert [] p = None"
| "bucket_insert (a # as) p =
     (if a = [] then Some (p # as)
      else map_option ((#) []) (bucket_insert as (rowSetEntryMerge a p)))"

fun sort_fill :: "int list list \<Rightarrow> int list \<Rightarrow> int list list option" where
  "sort_fill bs [] = Some bs"
| "sort_fill bs (v # p) = do { bs' \<leftarrow> bucket_insert bs [v]; sort_fill bs' p }"

definition rowSetEntrySort :: "int list \<Rightarrow> int list option" where
  "rowSetEntrySort p = do {
     aBucket \<leftarrow> sort_fill (replicate 40 []) p;
     Some (foldl rowSetEntryMerge [] aBucket) }"

section \<open>Lists and trees\<close>

text \<open>The first and last pointers that the C code returns delimit the list.\<close>

fun rowSetTreeToList :: "int tree \<Rightarrow> int list" where
  "rowSetTreeToList Leaf = []"
| "rowSetTreeToList (Node l v r) =
     (if l \<noteq> Leaf then rowSetTreeToList l @ [v] else [v]) @
     (if r \<noteq> Leaf then rowSetTreeToList r else [])"

text \<open>The depth is at least 1 in every call, so the equation for 0 is never used.\<close>

fun rowSetNDeepTree :: "int list \<Rightarrow> nat \<Rightarrow> int tree \<times> int list" where
  "rowSetNDeepTree list 0 = (Leaf, list)"
| "rowSetNDeepTree list (Suc d) =
     (case list of
        [] \<Rightarrow> (Leaf, [])
      | x # xs \<Rightarrow>
          if d = 0 then (Node Leaf x Leaf, xs)
          else (case rowSetNDeepTree list d of
              (l, []) \<Rightarrow> (l, [])
            | (l, y # ys) \<Rightarrow> (case rowSetNDeepTree ys d of (r, rest) \<Rightarrow> (Node l y r, rest))))"

lemma rowSetNDeepTree_length: "rowSetNDeepTree xs d = (t, rest) \<Longrightarrow> length rest \<le> length xs"
proof (induction d arbitrary: xs t rest)
  case 0
  then show ?case by simp
next
  case (Suc d)
  show ?case
  proof (cases xs)
    case Nil
    with Suc.prems show ?thesis by simp
  next
    case (Cons x ys)
    show ?thesis
    proof (cases "d = 0")
      case True
      with Suc.prems Cons show ?thesis by auto
    next
      case False
      obtain l m where lm: "rowSetNDeepTree xs d = (l, m)" by fastforce
      obtain r k where rk: "rowSetNDeepTree (tl m) d = (r, k)" by fastforce
      from Suc.IH [OF lm] Suc.IH [OF rk] Suc.prems Cons False lm rk show ?thesis
        by (cases m) auto
    qed
  qed
qed

function listToTree_loop :: "nat \<Rightarrow> int tree \<Rightarrow> int list \<Rightarrow> int tree" where
  "listToTree_loop d p [] = p"
| "listToTree_loop d p (x # xs) =
     (let (r, rest) = rowSetNDeepTree xs d in listToTree_loop (Suc d) (Node p x r) rest)"
  by pat_completeness auto
termination
  by (relation "measure (\<lambda>(d, p, xs). length xs)")
    (auto simp: less_Suc_eq_le intro: rowSetNDeepTree_length [OF sym])

definition rowSetListToTree :: "int list \<Rightarrow> int tree option" where
  "rowSetListToTree list =
     (case list of [] \<Rightarrow> None
      | x # xs \<Rightarrow> Some (listToTree_loop 1 (Node Leaf x Leaf) xs))"

section \<open>Extraction and test\<close>

definition rowSetToList :: "RowSet \<Rightarrow> RowSet option" where
  "rowSetToList p =
     (if rsNext p then None else do {
      p \<leftarrow> (if \<not> rsSorted p then do { e \<leftarrow> rowSetEntrySort (pEntry p); Some (p\<lparr>pEntry := e\<rparr>) }
            else Some p);
      if pForest p \<noteq> [] then None
      else Some (p\<lparr>rsNext := True\<rparr>) })"

definition sqlite3RowSetNext :: "RowSet \<Rightarrow> (int option \<times> RowSet) option" where
  "sqlite3RowSetNext p = do {
     p \<leftarrow> (if \<not> rsNext p then rowSetToList p else Some p);
     Some (case pEntry p of
         v # rest \<Rightarrow>
           (let p = p\<lparr>pEntry := rest\<rparr>
            in (Some v, if rest = [] then sqlite3RowSetClear p else p))
       | [] \<Rightarrow> (None, p)) }"






section \<open>Sorting is correct\<close>

lemma set_rowSetEntryMerge [simp]: "set (rowSetEntryMerge a b) = set a \<union> set b"
  by (induction a b rule: rowSetEntryMerge.induct) auto

lemma rowSetEntryMerge_Nil2 [simp]: "rowSetEntryMerge a [] = a"
  by (cases a) simp_all

lemma sorted_rowSetEntryMerge:
  "sorted_wrt (<) a \<Longrightarrow> sorted_wrt (<) b \<Longrightarrow> sorted_wrt (<) (rowSetEntryMerge a b)"
  by (induction a b rule: rowSetEntryMerge.induct) auto

lemma rowSetEntryMerge_eq_Nil [simp]: "rowSetEntryMerge a b = [] \<longleftrightarrow> a = [] \<and> b = []"
  by (metis set_empty set_rowSetEntryMerge sup_eq_bot_iff)

text \<open>The occupied buckets are the binary digits of the number of entries consumed.\<close>

fun bucket_count :: "int list list \<Rightarrow> nat" where
  "bucket_count [] = 0"
| "bucket_count (a # as) = of_bool (a \<noteq> []) + 2 * bucket_count as"

definition buckets_sorted :: "int list list \<Rightarrow> bool" where
  "buckets_sorted bs \<longleftrightarrow> (\<forall>b\<in>set bs. sorted_wrt (<) b)"

lemma bucket_insert_spec:
  assumes "p \<noteq> []" and "sorted_wrt (<) p" and "buckets_sorted bs"
    and "Suc (bucket_count bs) < 2 ^ length bs"
  shows "\<exists>bs'. bucket_insert bs p = Some bs' \<and> bucket_count bs' = Suc (bucket_count bs) \<and>
    length bs' = length bs \<and> buckets_sorted bs' \<and>
    set (concat bs') = set (concat bs) \<union> set p"
  using assms
proof (induction bs arbitrary: p)
  case Nil
  then show ?case by simp
next
  case (Cons a as)
  show ?case
  proof (cases "a = []")
    case True
    with Cons.prems show ?thesis by (auto simp: buckets_sorted_def)
  next
    case False
    let ?m = "rowSetEntryMerge a p"
    have "?m \<noteq> []" "sorted_wrt (<) ?m" "buckets_sorted as" "Suc (bucket_count as) < 2 ^ length as"
      using Cons.prems False by (auto simp: buckets_sorted_def sorted_rowSetEntryMerge)
    from Cons.IH [OF this] False show ?thesis
      by (auto simp: buckets_sorted_def)
  qed
qed

lemma sort_fill_spec:
  assumes "buckets_sorted bs" and "bucket_count bs + length xs < 2 ^ length bs"
  shows "\<exists>bs'. sort_fill bs xs = Some bs' \<and> buckets_sorted bs' \<and>
    set (concat bs') = set (concat bs) \<union> set xs"
  using assms
proof (induction xs arbitrary: bs)
  case Nil
  then show ?case by simp
next
  case (Cons v xs)
  obtain bs1 where bs1: "bucket_insert bs [v] = Some bs1" "bucket_count bs1 = Suc (bucket_count bs)"
    "length bs1 = length bs" "buckets_sorted bs1" "set (concat bs1) = set (concat bs) \<union> {v}"
    using bucket_insert_spec [of "[v]" bs] Cons.prems by auto
  with Cons.IH [of bs1] Cons.prems show ?case by auto
qed

lemma foldl_merge_sorted:
  "sorted_wrt (<) a \<Longrightarrow> buckets_sorted bs \<Longrightarrow> sorted_wrt (<) (foldl rowSetEntryMerge a bs)"
  by (induction bs arbitrary: a) (auto simp: buckets_sorted_def sorted_rowSetEntryMerge)

lemma set_foldl_merge [simp]: "set (foldl rowSetEntryMerge a bs) = set a \<union> set (concat bs)"
  by (induction bs arbitrary: a) auto

lemma strict_sorted_unique:
  "sorted_wrt (<) xs \<Longrightarrow> xs = sorted_list_of_set (set xs)" for xs :: "int list"
  by (metis sorted_list_of_set.idem_if_sorted_distinct strict_sorted_iff)

lemma rowSetEntrySort_correct:
  assumes "length xs < 2 ^ 40"
  shows "rowSetEntrySort xs = Some (sorted_list_of_set (set xs))"
proof -
  have "bucket_count (replicate n []) = 0" for n by (induction n) auto
  moreover have "buckets_sorted (replicate 40 [])" by (simp add: buckets_sorted_def)
  ultimately obtain bs where "sort_fill (replicate 40 []) xs = Some bs" "buckets_sorted bs"
    "set (concat bs) = set xs"
    using sort_fill_spec [of "replicate 40 []" xs] assms by auto
  then show ?thesis
    using strict_sorted_unique [OF foldl_merge_sorted [of "[]" bs]]
    by (simp add: rowSetEntrySort_def)
qed

section \<open>Trees\<close>

lemma rowSetTreeToList_inorder [simp]: "rowSetTreeToList t = inorder t"
  by (induction t) auto

lemma rowSetNDeepTree_spec:
  "rowSetNDeepTree xs d = (t, rest) \<Longrightarrow> 0 < d \<Longrightarrow>
     inorder t @ rest = xs \<and> height t \<le> d \<and> (rest \<noteq> [] \<longrightarrow> Suc (size t) = 2 ^ d)"
proof (induction d arbitrary: xs t rest)
  case 0
  then show ?case by simp
next
  case (Suc d)
  show ?case
  proof (cases "xs = [] \<or> d = 0")
    case True
    with Suc.prems show ?thesis by (auto split: list.splits)
  next
    case False
    obtain l m where lm: "rowSetNDeepTree xs d = (l, m)" by fastforce
    obtain r k where rk: "rowSetNDeepTree (tl m) d = (r, k)" by fastforce
    have l: "inorder l @ m = xs" "height l \<le> d" "m \<noteq> [] \<longrightarrow> Suc (size l) = 2 ^ d"
      using Suc.IH [OF lm] False by auto
    have r: "inorder r @ k = tl m" "height r \<le> d" "k \<noteq> [] \<longrightarrow> Suc (size r) = 2 ^ d"
      using Suc.IH [OF rk] False by auto
    from l r Suc.prems False lm rk show ?thesis
      by (cases xs; cases m) (auto simp: le_SucI)
  qed
qed

lemma inorder_listToTree_loop:
  "0 < d \<Longrightarrow> inorder (listToTree_loop d p xs) = inorder p @ xs"
proof (induction d p xs rule: listToTree_loop.induct)
  case (2 d p x xs)
  obtain r rest where r: "rowSetNDeepTree xs d = (r, rest)" by fastforce
  with 2 rowSetNDeepTree_spec [OF r] show ?case by auto
qed simp

lemma height_listToTree_loop:
  "0 < d \<Longrightarrow> Suc (size p) = 2 ^ d \<Longrightarrow> height p \<le> d \<Longrightarrow>
     \<exists>e. height (listToTree_loop d p xs) \<le> Suc e \<and> 2 ^ e \<le> size (listToTree_loop d p xs)"
proof (induction d p xs rule: listToTree_loop.induct)
  case (1 d p)
  have "(2::nat) ^ (d - 1) < 2 ^ d"
    using "1.prems"(1) by simp
  then have "2 ^ (d - 1) \<le> size p" using "1.prems"(2) by linarith
  with 1 show ?case by (intro exI [of _ "d - 1"]) simp
next
  case (2 d p x xs)
  obtain r rest where r: "rowSetNDeepTree xs d = (r, rest)" by fastforce
  note spec = rowSetNDeepTree_spec [OF r "2.prems"(1)]
  show ?case
  proof (cases "rest = []")
    case True
    with r "2.prems" spec show ?thesis by (intro exI [of _ d]) auto
  next
    case False
    then have "Suc (size (Node p x r)) = 2 ^ Suc d" using spec "2.prems" by auto
    with 2 r spec show ?thesis by auto
  qed
qed

lemma rowSetListToTree_correct:
  assumes "xs \<noteq> []"
  shows "\<exists>t. rowSetListToTree xs = Some t \<and> inorder t = xs \<and>
    (\<exists>e. height t \<le> Suc e \<and> 2 ^ e \<le> length xs)"
proof -
  obtain x ys where xs: "xs = x # ys" using assms by (cases xs) auto
  let ?t = "listToTree_loop 1 (Node Leaf x Leaf) ys"
  have "inorder ?t = xs" using xs inorder_listToTree_loop by simp
  moreover from this have "size ?t = length xs" by (metis length_inorder)
  ultimately show ?thesis
    using xs height_listToTree_loop [of 1 "Node Leaf x Leaf" ys] by (auto simp: rowSetListToTree_def)
qed



section \<open>The two sets a RowSet represents\<close>

text \<open>
  A test sees the rowids that were inserted before the last change of batch (the forest);
  those inserted since then are pending on the entry list.
\<close>

definition visible :: "RowSet \<Rightarrow> int set" where
  "visible p = (\<Union>t\<in>set (pForest p). set_tree t)"

definition pending :: "RowSet \<Rightarrow> int set" where
  "pending p = set (pEntry p)"

definition rowset_inv :: "RowSet \<Rightarrow> bool" where
  "rowset_inv p \<longleftrightarrow>
     (\<not> rsNext p \<longrightarrow> pLast p = (if pEntry p = [] then None else Some (last (pEntry p)))) \<and>
     (rsSorted p \<or> rsNext p \<longrightarrow> sorted_wrt (<) (pEntry p)) \<and>
     (\<forall>t\<in>set (pForest p). sorted_wrt (<) (inorder t))"

lemma rowset_inv_Init: "sqlite3RowSetInit n ms = Some p \<Longrightarrow> rowset_inv p"
  by (auto simp: sqlite3RowSetInit_def rowset_inv_def split: if_splits)

lemma rowset_inv_Clear: "rowset_inv (sqlite3RowSetClear p)"
  by (simp add: sqlite3RowSetClear_def rowset_inv_def)




section \<open>Flushing a batch into the forest\<close>






section \<open>Extraction in order\<close>

lemma rowSetToList_spec:
  assumes "rowset_inv p" "\<not> rsNext p" "pForest p = []" "length (pEntry p) < 2 ^ 40"
  shows "\<exists>q. rowSetToList p = Some q \<and> pEntry q = sorted_list_of_set (pending p) \<and> rsNext q"
proof (cases "rsSorted p")
  case True
  with assms show ?thesis
    using strict_sorted_unique [of "pEntry p"]
    by (auto simp: rowSetToList_def rowset_inv_def pending_def)
next
  case False
  with assms rowSetEntrySort_correct [OF assms(4)] show ?thesis
    by (auto simp: rowSetToList_def pending_def)
qed

text \<open>Reading until the RowSet answers that it is empty, at most n times.\<close>

fun rowset_drain :: "nat \<Rightarrow> RowSet \<Rightarrow> int list option" where
  "rowset_drain 0 p = Some []"
| "rowset_drain (Suc n) p = do {
     (v, q) \<leftarrow> sqlite3RowSetNext p;
     (case v of None \<Rightarrow> Some [] | Some x \<Rightarrow> map_option ((#) x) (rowset_drain n q)) }"

lemma rowset_drain_started:
  "rsNext p \<or> pEntry p = [] \<and> rsSorted p \<and> pForest p = [] \<Longrightarrow> length (pEntry p) < n \<Longrightarrow>
     rowset_drain n p = Some (pEntry p)"
proof (induction n arbitrary: p)
  case 0
  then show ?case by simp
next
  case (Suc n)
  show ?case
  proof (cases "pEntry p")
    case Nil
    with Suc.prems show ?thesis by (auto simp: sqlite3RowSetNext_def rowSetToList_def)
  next
    case (Cons x xs)
    let ?q = "if xs = [] then sqlite3RowSetClear (p\<lparr>pEntry := xs\<rparr>) else p\<lparr>pEntry := xs\<rparr>"
    have next_eq: "sqlite3RowSetNext p = Some (Some x, ?q)"
      using Cons Suc.prems by (auto simp: sqlite3RowSetNext_def)
    have "rowset_drain n ?q = Some (pEntry ?q)"
      using Cons Suc.prems by (intro Suc.IH) (auto simp: sqlite3RowSetClear_def)
    moreover have "pEntry ?q = xs" by (simp add: sqlite3RowSetClear_def)
    ultimately show ?thesis using Cons next_eq by simp
  qed
qed

text \<open>
  C25: Calling sqlite3RowSetNext until it answers no delivers the inserted rowids in
  increasing order, each once.
\<close>

theorem RowSetNext_drains_sorted:
  assumes "rowset_inv p" and "\<not> rsNext p" and "pForest p = []" and "length (pEntry p) < 2 ^ 40"
    and "card (pending p) < n"
  shows "rowset_drain n p = Some (sorted_list_of_set (pending p))"
proof -
  obtain q where q: "rowSetToList p = Some q" "pEntry q = sorted_list_of_set (pending p)" "rsNext q"
    using rowSetToList_spec assms by blast
  have "sqlite3RowSetNext p = sqlite3RowSetNext q"
    using q assms(2) by (simp add: sqlite3RowSetNext_def)
  moreover have "rowset_drain n q = Some (sorted_list_of_set (pending p))"
    using q assms(5) rowset_drain_started [of q n] by simp
  ultimately show ?thesis using assms(5) by (cases n) auto
qed

section \<open>The opcodes RowSetAdd, RowSetRead and RowSetTest\<close>

text \<open>
  The cases of vdbe.c that use a RowSet.  Register P1 is \<open>None\<close> when it holds anything
  but a RowSet; \<open>create\<close> is sqlite3VdbeMemSetRowSet and the other parameters are
  the functions of rowset.c.  The opcode jumps to P2, falls through or goes to no_mem.
\<close>

datatype opcode_exit = Jump | Fall | NoMem

definition op_RowSetAdd ::
  "'s option \<Rightarrow> ('s \<Rightarrow> int \<Rightarrow> 's option) \<Rightarrow> 's option \<Rightarrow> int \<Rightarrow> (opcode_exit \<times> 's option) option"
where
  "op_RowSetAdd create ins P1 rowid =
     (case (case P1 of None \<Rightarrow> create | Some s \<Rightarrow> Some s) of
        None \<Rightarrow> Some (NoMem, None)
      | Some s \<Rightarrow> do { s \<leftarrow> ins s rowid; Some (Fall, Some s) })"

definition op_RowSetRead ::
  "('s \<Rightarrow> (int option \<times> 's) option) \<Rightarrow> 's option \<Rightarrow> (opcode_exit \<times> int option \<times> 's option) option"
where
  "op_RowSetRead nxt P1 =
     (case P1 of
        None \<Rightarrow> Some (Jump, None, None)
      | Some s \<Rightarrow> do {
          (v, s) \<leftarrow> nxt s;
          Some (case v of None \<Rightarrow> (Jump, None, None) | Some x \<Rightarrow> (Fall, Some x, Some s)) })"





section \<open>The interface the opcodes rely on\<close>


section \<open>The RowSet implements the interface\<close>

definition new_rowset :: RowSet where
  "new_rowset = \<lparr>pChunk = 0, pEntry = [], pLast = None, pForest = [], nFresh = 0,
     rsSorted = True, rsNext = False, iBatch = 0, mallocs = []\<rparr>"












section \<open>Properties of the object itself\<close>


definition two_rows :: RowSet where
  "two_rows = new_rowset\<lparr>pEntry := [4, 9], pLast := Some 9, nFresh := 40, pChunk := 1\<rparr>"

lemma two_rows_ok:
  "rowset_inv two_rows" "\<not> rsNext two_rows" "length (pEntry two_rows) < 2 ^ 40"
  "malloc_succeeds (mallocs two_rows)" "pForest two_rows = []" "pending two_rows = {4, 9}"
  "visible two_rows = {}" "iBatch two_rows = 0"
  by (auto simp: two_rows_def new_rowset_def rowset_inv_def malloc_succeeds_def pending_def visible_def)


theorem RowSetNext_drains_sorted_witness:
  "rowset_drain 3 two_rows = Some [4, 9]"
  using RowSetNext_drains_sorted [OF two_rows_ok(1,2,5,3), of 3] two_rows_ok(6) by simp

text \<open>
  C35: rowSetListToTree keeps the order of the entries and builds a tree whose height is at
  most one more than a base-2 logarithm of their number.
\<close>

theorem rowSetListToTree_balanced:
  assumes "xs \<noteq> []"
  shows "\<exists>t. rowSetListToTree xs = Some t \<and> inorder t = xs \<and>
    (\<exists>e. height t \<le> Suc e \<and> 2 ^ e \<le> length xs)"
  by (rule rowSetListToTree_correct [OF assms])

theorem rowSetListToTree_balanced_witness:
  "\<exists>t. rowSetListToTree [1, 2, 3, 4, 5] = Some t \<and> inorder t = [1, 2, 3, 4, 5] \<and>
    (\<exists>e. height t \<le> Suc e \<and> 2 ^ e \<le> length [1, 2, 3, 4, 5 :: int])"
  by (rule rowSetListToTree_balanced) simp

end
