(* ===== verification/Complete.thy ===== *)
theory Complete
  imports Util_Text
begin

text \<open>
  complete.c: sqlite3_complete decides whether a text of SQL is one or more complete
  statements.  The scanner (one token per turn of the loop) and the 8-state machine are the
  code's; the reference it is proved against splits the tokens into statements and asks each
  CREATE TRIGGER statement for its closing ";END;".
\<close>

section \<open>Tokens and the transition table\<close>

abbreviation "tkSEMI \<equiv> (0::nat)"
abbreviation "tkWS \<equiv> (1::nat)"
abbreviation "tkOTHER \<equiv> (2::nat)"
abbreviation "tkEXPLAIN \<equiv> (3::nat)"
abbreviation "tkCREATE \<equiv> (4::nat)"
abbreviation "tkTEMP \<equiv> (5::nat)"
abbreviation "tkTRIGGER \<equiv> (6::nat)"
abbreviation "tkEND \<equiv> (7::nat)"

definition trans_table :: "nat list list" where
  "trans_table =
    [[1, 0, 2, 3, 4, 2, 2, 2],
     [1, 1, 2, 3, 4, 2, 2, 2],
     [1, 2, 2, 2, 2, 2, 2, 2],
     [1, 3, 3, 2, 4, 2, 2, 2],
     [1, 4, 2, 2, 2, 4, 5, 2],
     [6, 5, 5, 5, 5, 5, 5, 5],
     [6, 6, 5, 5, 5, 5, 5, 7],
     [1, 7, 5, 5, 5, 5, 5, 5]]"

definition complete_trans :: "nat \<Rightarrow> nat \<Rightarrow> nat" where
  "complete_trans state token = trans_table ! state ! token"

section \<open>The scanner\<close>

text \<open>
  One turn of the loop either finds a token and leaves the rest of the text, or meets the end
  of the text inside a comment or a quoted token.  The end inside a comment that runs to the
  end of its line is told apart, because the code then returns state==1 and not 0.
\<close>

datatype scan = Token nat string | Unterminated | Line_comment_at_end

fun c_comment :: "string \<Rightarrow> scan" where
  "c_comment (c # d # z) = (if c = CHR ''*'' \<and> d = CHR ''/'' then Token tkWS z else c_comment (d # z))"
| "c_comment _ = Unterminated"

definition quoted :: "char \<Rightarrow> string \<Rightarrow> scan" where
  "quoted q z = (case dropWhile (\<lambda>c. c \<noteq> q) z of [] \<Rightarrow> Unterminated | _ # rest \<Rightarrow> Token tkOTHER rest)"

definition keyword_token :: "string \<Rightarrow> nat \<Rightarrow> nat" where
  "keyword_token z nId =
     (let c = hd z in
      if c = CHR ''c'' \<or> c = CHR ''C'' then
        (if nId = 6 \<and> sqlite3_strnicmp z ''create'' 6 = 0 then tkCREATE else tkOTHER)
      else if c = CHR ''t'' \<or> c = CHR ''T'' then
        (if nId = 7 \<and> sqlite3_strnicmp z ''trigger'' 7 = 0 then tkTRIGGER
         else if nId = 4 \<and> sqlite3_strnicmp z ''temp'' 4 = 0 then tkTEMP
         else if nId = 9 \<and> sqlite3_strnicmp z ''temporary'' 9 = 0 then tkTEMP
         else tkOTHER)
      else if c = CHR ''e'' \<or> c = CHR ''E'' then
        (if nId = 3 \<and> sqlite3_strnicmp z ''end'' 3 = 0 then tkEND
         else if nId = 7 \<and> sqlite3_strnicmp z ''explain'' 7 = 0 then tkEXPLAIN
         else tkOTHER)
      else tkOTHER)"

definition complete_token :: "char \<Rightarrow> string \<Rightarrow> scan" where
  "complete_token c z =
     (if c = CHR '';'' then Token tkSEMI z
      else if c = CHR '' '' \<or> c = CHR 0x0D \<or> c = CHR 0x09 \<or> c = CHR 0x0A \<or> c = CHR 0x0C then Token tkWS z
      else if c = CHR ''/'' then
        (case z of d # z' \<Rightarrow> if d = CHR ''*'' then c_comment z' else Token tkOTHER z | [] \<Rightarrow> Token tkOTHER z)
      else if c = CHR ''-'' then
        (case z of d # _ \<Rightarrow>
           if d = CHR ''-'' then
             (case dropWhile (\<lambda>c. c \<noteq> CHR 0x0A) z of [] \<Rightarrow> Line_comment_at_end | _ # rest \<Rightarrow> Token tkWS rest)
           else Token tkOTHER z
         | [] \<Rightarrow> Token tkOTHER z)
      else if c = CHR ''['' then quoted CHR '']'' z
      else if c = CHR 0x60 \<or> c = CHR 0x22 \<or> c = CHR 0x27 then quoted c z
      else if IdChar c then
        Token (keyword_token (c # z) (1 + length (takeWhile IdChar z))) (dropWhile IdChar z)
      else Token tkOTHER z)"

lemma c_comment_shorter: "c_comment z = Token tk rest \<Longrightarrow> length rest < length z"
  by (induction z rule: c_comment.induct) (auto split: if_splits)

lemma quoted_shorter: "quoted q z = Token tk rest \<Longrightarrow> length rest < length z"
  using length_dropWhile_le [of "\<lambda>c. c \<noteq> q" z] by (auto simp: quoted_def split: list.splits)

text \<open>How a token was found: one character, a comment, a quoted token or a word.\<close>

lemma complete_token_cases [consumes 1, case_names char comment line quoted word]:
  assumes "complete_token c z = Token tk rest"
  obtains "rest = z" "tk \<in> {tkSEMI, tkWS, tkOTHER}"
  | "c_comment (tl z) = Token tk rest"
  | d where "dropWhile (\<lambda>c. c \<noteq> CHR 0x0A) z = d # rest" "tk = tkWS"
  | q where "quoted q z = Token tk rest"
  | "rest = dropWhile IdChar z" "tk = keyword_token (c # z) (1 + length (takeWhile IdChar z))"
  using assms unfolding complete_token_def
  by (simp split: if_split_asm list.split_asm)

lemma complete_token_shorter:
  assumes "complete_token c z = Token tk rest"
  shows "length rest \<le> length z"
  using assms
proof (cases rule: complete_token_cases)
  case comment
  then show ?thesis using c_comment_shorter [of "tl z"] by fastforce
next
  case (line d)
  then show ?thesis using length_dropWhile_le [of "\<lambda>c. c \<noteq> CHR 0x0A" z] by simp
next
  case (quoted q)
  then show ?thesis using quoted_shorter by fastforce
qed (simp_all add: length_dropWhile_le)

function complete_loop :: "nat \<Rightarrow> string \<Rightarrow> bool" where
  "complete_loop state [] \<longleftrightarrow> state = 1"
| "complete_loop state (c # z) \<longleftrightarrow>
     (case complete_token c z of
        Token token rest \<Rightarrow> complete_loop (complete_trans state token) rest
      | Unterminated \<Rightarrow> False
      | Line_comment_at_end \<Rightarrow> state = 1)"
  by pat_completeness auto
termination
  by (relation "measure (\<lambda>(s, z). length z)") (auto dest: complete_token_shorter)

definition sqlite3_complete :: "string \<Rightarrow> bool" where
  "sqlite3_complete z = complete_loop 0 z"

section \<open>The reference\<close>

datatype ending = At_end | In_line_comment | In_token

text \<open>The tokens of a text, white space and comments left out, and how the text ends.\<close>

function scan_all :: "string \<Rightarrow> nat list \<times> ending" where
  "scan_all [] = ([], At_end)"
| "scan_all (c # z) =
     (case complete_token c z of
        Token token rest \<Rightarrow> (let (ts, e) = scan_all rest in (if token = tkWS then ts else token # ts, e))
      | Unterminated \<Rightarrow> ([], In_token)
      | Line_comment_at_end \<Rightarrow> ([], In_line_comment))"
  by pat_completeness auto
termination
  by (relation "measure length") (auto dest: complete_token_shorter)

text \<open>A statement that is a trigger begins [EXPLAIN ...] CREATE [TEMP] TRIGGER.\<close>

definition create_trigger :: "nat list \<Rightarrow> bool" where
  "create_trigger ts \<longleftrightarrow> (case ts of [] \<Rightarrow> False
     | t # r \<Rightarrow> t = tkCREATE \<and> (case dropWhile (\<lambda>t. t = tkTEMP) r of [] \<Rightarrow> False | u # _ \<Rightarrow> u = tkTRIGGER))"

definition is_trigger :: "nat list \<Rightarrow> bool" where
  "is_trigger ts \<longleftrightarrow> create_trigger ts \<or>
     (case ts of [] \<Rightarrow> False
      | t # r \<Rightarrow> t = tkEXPLAIN \<and> create_trigger (dropWhile (\<lambda>t. t = tkOTHER) r))"

text \<open>What follows the first ";END;" of a token list.\<close>

fun after_end :: "nat list \<Rightarrow> nat list option" where
  "after_end [] = None"
| "after_end (t # ts) =
     (if t = tkSEMI \<and> take 2 ts = [tkEND, tkSEMI] then Some (drop 2 ts) else after_end ts)"

lemma after_end_shorter: "after_end ts = Some r \<Longrightarrow> length r < length ts"
  by (induction ts) (auto split: if_splits)

lemma set_after_end: "after_end ts = Some r \<Longrightarrow> set r \<subseteq> set ts"
  by (induction ts) (auto split: if_splits dest: in_set_dropD)

function statements :: "nat list \<Rightarrow> bool" where
  "statements ts \<longleftrightarrow>
     (case dropWhile (\<lambda>t. t \<noteq> tkSEMI) ts of
        [] \<Rightarrow> False
      | semi # r \<Rightarrow>
          if is_trigger (takeWhile (\<lambda>t. t \<noteq> tkSEMI) ts)
          then (case after_end (semi # r) of None \<Rightarrow> False | Some r' \<Rightarrow> r' = [] \<or> statements r')
          else r = [] \<or> statements r)"
  by pat_completeness auto
termination
proof (relation "measure length", goal_cases)
  case (2 ts semi r r')
  then have "length (semi # r) \<le> length ts" using length_dropWhile_le by metis
  with 2 after_end_shorter show ?case by fastforce
next
  case (3 ts semi r)
  then have "length (semi # r) \<le> length ts" using length_dropWhile_le by metis
  then show ?case by simp
qed simp

declare statements.simps [simp del]

declare One_nat_def [simp del]

section \<open>The machine accepts exactly the complete scripts\<close>

definition run :: "nat \<Rightarrow> nat list \<Rightarrow> nat" where
  "run = foldl complete_trans"

lemma run_simps [simp]: "run s [] = s" "run s (t # ts) = run (complete_trans s t) ts"
  by (simp_all add: run_def)

lemma run_append: "run s (a @ b) = run (run s a) b"
  by (simp add: run_def)

abbreviation "tokens ts \<equiv> \<forall>t\<in>set ts. t < 8 \<and> t \<noteq> tkWS"

lemma token_cases:
  "t < 8 \<Longrightarrow> t \<noteq> tkWS \<Longrightarrow> t \<in> {tkSEMI, tkOTHER, tkEXPLAIN, tkCREATE, tkTEMP, tkTRIGGER, tkEND}"
  by auto

lemma trans_WS: "s < 8 \<Longrightarrow> complete_trans s tkWS = s"
proof -
  assume "s < 8"
  then have "s \<in> {0, 1, 2, 3, 4, 5, 6, 7}" by auto
  then show ?thesis by (auto simp: complete_trans_def trans_table_def)
qed

lemma trans_less_8: "s < 8 \<Longrightarrow> t < 8 \<Longrightarrow> complete_trans s t < 8"
proof -
  have "list_all (\<lambda>s. list_all (\<lambda>t. complete_trans s t < 8) [0..<8]) [0..<8]" by code_simp
  then show "s < 8 \<Longrightarrow> t < 8 \<Longrightarrow> ?thesis" by (auto simp: list_all_iff)
qed

lemma trans_rows:
  assumes "t < 8" "t \<noteq> tkWS"
  shows "complete_trans 0 t = (if t = 0 then 1 else if t = 3 then 3 else if t = 4 then 4 else 2)"
    "complete_trans 1 t = (if t = 0 then 1 else if t = 3 then 3 else if t = 4 then 4 else 2)"
    "complete_trans 2 t = (if t = 0 then 1 else 2)"
    "complete_trans 3 t = (if t = 0 then 1 else if t = 2 then 3 else if t = 4 then 4 else 2)"
    "complete_trans 4 t = (if t = 0 then 1 else if t = 5 then 4 else if t = 6 then 5 else 2)"
    "complete_trans 5 t = (if t = 0 then 6 else 5)"
    "complete_trans 6 t = (if t = 0 then 6 else if t = 7 then 7 else 5)"
    "complete_trans 7 t = (if t = 0 then 1 else 5)"
  using token_cases [OF assms] by (auto simp: complete_trans_def trans_table_def)

lemma run_trigger_body:
  assumes "tokens ts"
  shows "run 5 ts = 1 \<longleftrightarrow> (case after_end ts of None \<Rightarrow> False | Some r \<Rightarrow> run 1 r = 1)"
    and "run 6 ts = 1 \<longleftrightarrow> (case after_end (tkSEMI # ts) of None \<Rightarrow> False | Some r \<Rightarrow> run 1 r = 1)"
    and "run 7 ts = 1 \<longleftrightarrow> (case after_end (tkSEMI # tkEND # ts) of None \<Rightarrow> False | Some r \<Rightarrow> run 1 r = 1)"
  using assms
proof (induction ts)
  case (Cons t ts)
  {
    case 1
    with Cons show ?case by (simp add: trans_rows)
  next
    case 2
    with Cons show ?case by (auto simp: trans_rows take_Cons')
  next
    case 3
    with Cons show ?case by (auto simp: trans_rows take_Cons')
  }
qed simp_all

lemma run_2: "tokens ts \<Longrightarrow> tkSEMI \<notin> set ts \<Longrightarrow> run 2 ts = 2"
  by (induction ts) (auto simp: trans_rows)

lemma run_5: "tokens ts \<Longrightarrow> tkSEMI \<notin> set ts \<Longrightarrow> run 5 ts = 5"
  by (induction ts) (auto simp: trans_rows)

text \<open>What the states before the first semicolon remember.\<close>

definition open_states :: "nat \<Rightarrow> bool" where
  "open_states s \<longleftrightarrow> s \<in> {2, 3, 4}"

lemma run_4:
  "tokens ts \<Longrightarrow> tkSEMI \<notin> set ts \<Longrightarrow>
     if create_trigger (tkCREATE # ts) then run 4 ts = 5 else open_states (run 4 ts)"
proof (induction ts)
  case (Cons t ts)
  then show ?case
    by (cases "t = 5"; cases "t = 6") (auto simp: trans_rows create_trigger_def run_2 run_5 open_states_def)
qed (simp add: create_trigger_def open_states_def)

lemma run_3:
  "tokens ts \<Longrightarrow> tkSEMI \<notin> set ts \<Longrightarrow>
     if create_trigger (dropWhile (\<lambda>t. t = tkOTHER) ts) then run 3 ts = 5 else open_states (run 3 ts)"
proof (induction ts)
  case (Cons t ts)
  then show ?case
    using run_4 [of ts]
    by (cases "t = 2"; cases "t = 4") (auto simp: trans_rows create_trigger_def run_2 open_states_def split: if_splits)
qed (simp add: create_trigger_def open_states_def)

lemma run_statement_head:
  assumes "tokens ts" and "tkSEMI \<notin> set ts" and "s = 0 \<or> s = 1"
  shows "if is_trigger ts then run s ts = 5 else ts = [] \<or> open_states (run s ts)"
proof (cases ts)
  case Nil
  with assms(3) show ?thesis by (auto simp: is_trigger_def create_trigger_def open_states_def)
next
  case (Cons t r)
  have r: "tokens r" "tkSEMI \<notin> set r" "t < 8" "t \<noteq> tkWS" "t \<noteq> tkSEMI" using assms Cons by auto
  then have "complete_trans s t = (if t = 3 then 3 else if t = 4 then 4 else 2)"
    using assms(3) by (auto simp: trans_rows)
  then show ?thesis
    using run_3 [OF r(1,2)] run_4 [OF r(1,2)] run_2 [OF r(1,2)] Cons
    by (auto simp: is_trigger_def create_trigger_def open_states_def split: if_splits)
qed

lemma open_states_semi: "open_states s \<or> s = 0 \<or> s = 1 \<Longrightarrow> complete_trans s tkSEMI = 1"
  by (auto simp: open_states_def trans_rows)

lemma run_statements:
  "tokens ts \<Longrightarrow> s = 0 \<or> s = 1 \<Longrightarrow> run s ts = 1 \<longleftrightarrow> ts = [] \<and> s = 1 \<or> statements ts"
proof (induction ts arbitrary: s rule: statements.induct)
  case (1 ts)
  let ?h = "takeWhile (\<lambda>t. t \<noteq> tkSEMI) ts"
  let ?r = "dropWhile (\<lambda>t. t \<noteq> tkSEMI) ts"
  have h: "tokens ?h" "tkSEMI \<notin> set ?h" using "1.prems" by (auto dest: set_takeWhileD)
  note head = run_statement_head [OF h "1.prems"(2)]
  have run: "run s ts = run (run s ?h) ?r" by (simp add: run_append [symmetric])
  have rt: "tokens ?r" using "1.prems" by (auto dest: set_dropWhileD)
  show ?case
  proof (cases ?r)
    case Nil
    then have "ts = ?h" by (metis append_Nil2 takeWhile_dropWhile_id)
    then have "run s ts = 1 \<longleftrightarrow> ts = [] \<and> s = 1"
      using head by (cases "ts = []") (auto simp: open_states_def split: if_splits)
    then show ?thesis unfolding statements.simps [of ts] Nil by simp
  next
    case (Cons semi r)
    then have semi: "semi = tkSEMI" using hd_dropWhile [of "\<lambda>t. t \<noteq> tkSEMI" ts] by simp
    have r: "tokens r" using rt Cons by auto
    have ne: "ts \<noteq> []" using Cons by auto
    show ?thesis
    proof (cases "is_trigger ?h")
      case True
      then have "run s ts = run 5 ?r" using head run by simp
      moreover have "tokens r'" if "after_end (semi # r) = Some r'" for r'
        using rt Cons set_after_end [OF that] by auto
      ultimately show ?thesis
        using run_trigger_body(1) [OF rt] "1.IH"(1) [OF Cons True] True Cons ne
        by (auto simp: statements.simps [of ts] split: option.splits)
    next
      case False
      then have "run s ts = run 1 r"
        using head run Cons semi "1.prems"(2) open_states_semi [of "run s ?h"] by auto
      then show ?thesis
        using "1.IH"(2) [OF Cons False r, of 1] False Cons ne
        by (auto simp: statements.simps [of ts])
    qed
  qed
qed


text \<open>The scanner's tokens, run through the machine.\<close>

lemma keyword_token_less: "keyword_token z n < 8 \<and> keyword_token z n \<noteq> tkWS"
  by (simp add: keyword_token_def Let_def)

lemma c_comment_token: "c_comment z = Token tk rest \<Longrightarrow> tk = tkWS"
  by (induction z rule: c_comment.induct) (auto split: if_splits)

lemma quoted_token: "quoted q z = Token tk rest \<Longrightarrow> tk = tkOTHER"
  by (auto simp: quoted_def split: list.splits)

lemma complete_token_less:
  assumes "complete_token c z = Token tk rest"
  shows "tk < 8"
  using assms
  by (cases rule: complete_token_cases) (auto dest: c_comment_token quoted_token simp: keyword_token_less)

lemma scan_all_tokens: "tokens (fst (scan_all z))"
proof (induction z rule: scan_all.induct)
  case (2 c z)
  then show ?case
    using complete_token_less [of c z] by (cases "complete_token c z") (auto simp: case_prod_beta Let_def)
qed simp

lemma complete_loop_run:
  "s < 8 \<Longrightarrow> complete_loop s z \<longleftrightarrow>
     (case scan_all z of (ts, e) \<Rightarrow> e \<noteq> In_token \<and> run s ts = 1)"
proof (induction s z rule: complete_loop.induct)
  case (2 s c z)
  show ?case
  proof (cases "complete_token c z")
    case (Token tk rest)
    then have "tk < 8" by (rule complete_token_less)
    note IH = "2.IH" [OF Token trans_less_8 [OF "2.prems" this]]
    obtain ts e where "scan_all rest = (ts, e)" by fastforce
    with IH Token trans_WS [OF "2.prems"] show ?thesis by (cases "tk = tkWS") simp_all
  qed simp_all
qed simp

text \<open>
  C11: sqlite3_complete accepts a text exactly when it does not end inside a quoted token or a
  comment of the C kind and its tokens are one or more whole statements, where a CREATE
  TRIGGER statement extends to its closing ;END;.
\<close>

theorem complete_iff_statements:
  "sqlite3_complete z \<longleftrightarrow>
     (case scan_all z of (ts, e) \<Rightarrow> e \<noteq> In_token \<and> statements ts)"
  using scan_all_tokens [of z] run_statements [of "fst (scan_all z)" 0]
  by (auto simp: sqlite3_complete_def complete_loop_run)

end
