(* ===== verification/Bitvec.thy ===== *)
theory Bitvec
  imports Sqlite_Prelude
begin

text \<open>
  bitvec.c: a set of page numbers, kept as a bitmap when the size is small, as a hash table
  with linear probing while it is sparse and as an array of sub-vectors when the hash table
  fills.  The constants are those of a machine with 8-byte pointers.
\<close>

section \<open>The structure\<close>

abbreviation "BITVEC_NELEM \<equiv> (496::nat)"
abbreviation "BITVEC_NBIT \<equiv> (3968::nat)"
abbreviation "BITVEC_NINT \<equiv> (124::nat)"
abbreviation "BITVEC_MXHASH \<equiv> (62::nat)"
abbreviation "BITVEC_NPTR \<equiv> (62::nat)"

text \<open>
  The union u is read as the code reads it: apSub when iDivisor is not zero, aBitmap when
  iSize is small, aHash otherwise.  A value under another constructor would be one that the
  code never writes.
\<close>

datatype bitvec = Bitvec (iSize: nat) (nSet: nat) (iDivisor: nat) (u: bitvec_u)
  and bitvec_u = aBitmap bytes | aHash "nat list" | apSub "bitvec option list"

definition BITVEC_HASH :: "nat \<Rightarrow> nat" where
  "BITVEC_HASH x = x mod BITVEC_NINT"

definition sqlite3BitvecCreate :: "bool list \<Rightarrow> nat \<Rightarrow> bitvec option \<times> bool list" where
  "sqlite3BitvecCreate ms n =
     (let (ok, ms') = malloc_next ms in
      (if ok
       then Some (Bitvec n 0 0 (if n \<le> BITVEC_NBIT then aBitmap (replicate BITVEC_NELEM 0)
                               else aHash (replicate BITVEC_NINT 0)))
       else None, ms'))"

section \<open>Probing\<close>

text \<open>
  From slot h, the first slot that is free (False) or holds i (True).  The code's loops stop
  at the first such slot; after one turn around the table they would never stop, and the
  result is None.
\<close>

fun hash_probe :: "nat \<Rightarrow> nat list \<Rightarrow> nat \<Rightarrow> nat \<Rightarrow> (nat \<times> bool) option" where
  "hash_probe 0 a i h = None"
| "hash_probe (Suc n) a i h =
     (if a ! h = 0 then Some (h, False) else if a ! h = i then Some (h, True)
      else hash_probe n a i ((h + 1) mod BITVEC_NINT))"

definition bit_test :: "bytes \<Rightarrow> nat \<Rightarrow> bool" where
  "bit_test b i \<longleftrightarrow> b ! (i div 8) AND push_bit (i mod 8) 1 \<noteq> 0"

section \<open>Testing\<close>

lemma size_apSub [termination_simp]:
  "bin < length subs \<Longrightarrow> subs ! bin = Some q \<Longrightarrow> size q < Suc (size_list (size_option size) subs)"
proof -
  assume *: "bin < length subs" "subs ! bin = Some q"
  then have "size_option size (Some q) \<le> size_list (size_option size) subs"
    by (metis nth_mem size_list_estimation' order_refl)
  then show ?thesis by simp
qed

text \<open>The loop of sqlite3BitvecTest; i counts from 0.\<close>

fun bitvec_test :: "bitvec \<Rightarrow> nat \<Rightarrow> bool" where
  "bitvec_test (Bitvec sz n d un) i =
     (if d \<noteq> 0 then
        (case un of
           apSub subs \<Rightarrow>
             (if i div d < length subs
              then (case subs ! (i div d) of None \<Rightarrow> False | Some q \<Rightarrow> bitvec_test q (i mod d))
              else False)
         | _ \<Rightarrow> False)
      else if sz \<le> BITVEC_NBIT then (case un of aBitmap b \<Rightarrow> bit_test b i | _ \<Rightarrow> False)
      else (case un of
              aHash a \<Rightarrow> (case hash_probe BITVEC_NINT a (i + 1) (BITVEC_HASH i) of
                           Some (h, found) \<Rightarrow> found | None \<Rightarrow> False)
            | _ \<Rightarrow> False))"

definition sqlite3BitvecTest :: "bitvec option \<Rightarrow> nat \<Rightarrow> bool" where
  "sqlite3BitvecTest p i =
     (case p of None \<Rightarrow> False
      | Some p \<Rightarrow> if iSize p < i \<or> i = 0 then False else bitvec_test p (i - 1))"

section \<open>Setting\<close>

definition rc_or :: "result_code \<Rightarrow> result_code \<Rightarrow> result_code" where
  "rc_or a b = (if a = SQLITE_OK then b else a)"

text \<open>
  One unit of fuel is one turn of the descending loop or one recursive call; None is a
  computation that the fuel did not finish.
\<close>

fun fold_set ::
  "(bool list \<Rightarrow> bitvec \<Rightarrow> nat \<Rightarrow> (result_code \<times> bitvec \<times> bool list) option) \<Rightarrow>
   nat list \<Rightarrow> result_code \<times> bitvec \<times> bool list \<Rightarrow> (result_code \<times> bitvec \<times> bool list) option" where
  "fold_set f [] s = Some s"
| "fold_set f (v # vs) (rc, p, ms) =
     (if v \<noteq> 0 then
        (case f ms p v of None \<Rightarrow> None | Some (rc', p', ms') \<Rightarrow> fold_set f vs (rc_or rc rc', p', ms'))
      else fold_set f vs (rc, p, ms))"

definition rehashed :: "bitvec \<Rightarrow> bitvec" where
  "rehashed p =
     (let d = ((iSize p + BITVEC_NPTR - 1) mod 2 ^ 32) div BITVEC_NPTR
      in Bitvec (iSize p) (nSet p) d
           (if d = 0 then aHash (replicate BITVEC_NINT 0) else apSub (replicate BITVEC_NPTR None)))"

fun bitvec_set :: "nat \<Rightarrow> bool list \<Rightarrow> bitvec \<Rightarrow> nat \<Rightarrow> (result_code \<times> bitvec \<times> bool list) option" where
  "bitvec_set 0 ms p i = None"
| "bitvec_set (Suc fuel) ms p i =
     (if BITVEC_NBIT < iSize p \<and> iDivisor p \<noteq> 0 then
        (case u p of
           apSub subs \<Rightarrow>
             (let bin = (i - 1) div iDivisor p; j = (i - 1) mod iDivisor p in
              if length subs \<le> bin then None
              else
                (let (q, ms) = (case subs ! bin of
                                  None \<Rightarrow> sqlite3BitvecCreate ms (iDivisor p)
                                | Some q \<Rightarrow> (Some q, ms)) in
                 case q of
                   None \<Rightarrow> Some (SQLITE_NOMEM, p, ms)
                 | Some q \<Rightarrow>
                     (case bitvec_set fuel ms q (j + 1) of
                        None \<Rightarrow> None
                      | Some (rc, q', ms) \<Rightarrow>
                          Some (rc, Bitvec (iSize p) (nSet p) (iDivisor p) (apSub (subs[bin := Some q'])), ms))))
         | _ \<Rightarrow> None)
      else if iSize p \<le> BITVEC_NBIT then
        (case u p of
           aBitmap b \<Rightarrow>
             Some (SQLITE_OK,
               Bitvec (iSize p) (nSet p) (iDivisor p)
                 (aBitmap (b[(i - 1) div 8 := b ! ((i - 1) div 8) OR push_bit ((i - 1) mod 8) 1])), ms)
         | _ \<Rightarrow> None)
      else
        (case u p of
           aHash a \<Rightarrow>
             (let h = BITVEC_HASH (i - 1);
                  insert_at = (\<lambda>h. Some (SQLITE_OK,
                    Bitvec (iSize p) (nSet p + 1) (iDivisor p) (aHash (a[h := i])), ms));
                  rehash_or = (\<lambda>h.
                    if BITVEC_MXHASH \<le> nSet p then
                      (let (ok, ms) = malloc_next ms in
                       if \<not> ok then Some (SQLITE_NOMEM, p, ms)
                       else
                         (case bitvec_set fuel ms (rehashed p) i of
                            None \<Rightarrow> None
                          | Some (rc, p', ms) \<Rightarrow> fold_set (bitvec_set fuel) a (rc, p', ms)))
                    else insert_at h)
              in if a ! h = 0 then
                   (if nSet p < BITVEC_NINT - 1 then insert_at h else rehash_or h)
                 else
                   (case hash_probe BITVEC_NINT a i h of
                      None \<Rightarrow> None
                    | Some (h, True) \<Rightarrow> Some (SQLITE_OK, p, ms)
                    | Some (h, False) \<Rightarrow> rehash_or h))
         | _ \<Rightarrow> None))"

text \<open>Nine units are enough for every size below \<open>2 ^ 32\<close>, see need.\<close>

definition sqlite3BitvecSet ::
  "bool list \<Rightarrow> bitvec option \<Rightarrow> nat \<Rightarrow> (result_code \<times> bitvec option \<times> bool list) option" where
  "sqlite3BitvecSet ms p i =
     (case p of None \<Rightarrow> Some (SQLITE_OK, None, ms)
      | Some p \<Rightarrow> (case bitvec_set 9 ms p i of None \<Rightarrow> None
                   | Some (rc, p', ms') \<Rightarrow> Some (rc, Some p', ms')))"

section \<open>Clearing\<close>

text \<open>The rebuilt hash table: the values that stay go to their first free slot.\<close>

fun rebuild :: "nat list \<Rightarrow> nat \<Rightarrow> nat list \<times> nat \<Rightarrow> (nat list \<times> nat) option" where
  "rebuild [] x s = Some s"
| "rebuild (v # vs) x (a, n) =
     (if v \<noteq> 0 \<and> v \<noteq> x then
        (case hash_probe BITVEC_NINT a 0 (BITVEC_HASH (v - 1)) of
           None \<Rightarrow> None
         | Some (h, _) \<Rightarrow> rebuild vs x (a[h := v], n + 1))
      else rebuild vs x (a, n))"

fun bitvec_clear :: "bitvec \<Rightarrow> nat \<Rightarrow> bitvec option" where
  "bitvec_clear (Bitvec sz n d un) i =
     (if d \<noteq> 0 then
        (case un of
           apSub subs \<Rightarrow>
             (if i div d < length subs
              then (case subs ! (i div d) of
                      None \<Rightarrow> Some (Bitvec sz n d un)
                    | Some q \<Rightarrow>
                        (case bitvec_clear q (i mod d) of
                           None \<Rightarrow> None
                         | Some q' \<Rightarrow> Some (Bitvec sz n d (apSub (subs[i div d := Some q'])))))
              else None)
         | _ \<Rightarrow> None)
      else if sz \<le> BITVEC_NBIT then
        (case un of
           aBitmap b \<Rightarrow> Some (Bitvec sz n d (aBitmap (b[i div 8 := b ! (i div 8) AND NOT (push_bit (i mod 8) 1)])))
         | _ \<Rightarrow> None)
      else
        (case un of
           aHash a \<Rightarrow> (case rebuild a (i + 1) (replicate BITVEC_NINT 0, 0) of
                        None \<Rightarrow> None | Some (a', n') \<Rightarrow> Some (Bitvec sz n' d (aHash a')))
         | _ \<Rightarrow> None))"

definition sqlite3BitvecClear :: "bitvec option \<Rightarrow> nat \<Rightarrow> bitvec option option" where
  "sqlite3BitvecClear p i =
     (case p of None \<Rightarrow> Some None
      | Some p \<Rightarrow> (case bitvec_clear p (i - 1) of None \<Rightarrow> None | Some p' \<Rightarrow> Some (Some p')))"

definition sqlite3BitvecSize :: "bitvec \<Rightarrow> nat" where
  "sqlite3BitvecSize p = iSize p"

section \<open>Well-formed vectors\<close>

definition path_ok :: "nat list \<Rightarrow> bool" where
  "path_ok a \<longleftrightarrow> (\<forall>i d. i \<noteq> 0 \<and> d < BITVEC_NINT \<and> a ! ((BITVEC_HASH (i - 1) + d) mod BITVEC_NINT) = i \<longrightarrow>
     (\<forall>k<d. a ! ((BITVEC_HASH (i - 1) + k) mod BITVEC_NINT) \<noteq> 0))"

definition occupied :: "nat list \<Rightarrow> nat" where
  "occupied a = length (filter (\<lambda>v. v \<noteq> 0) a)"

definition hash_ok :: "nat list \<Rightarrow> bool" where
  "hash_ok a \<longleftrightarrow> length a = BITVEC_NINT \<and> path_ok a \<and> occupied a < BITVEC_NINT \<and>
     distinct (filter (\<lambda>v. v \<noteq> 0) a)"

fun bv_wf :: "bitvec \<Rightarrow> bool" where
  "bv_wf (Bitvec sz n d un) \<longleftrightarrow>
     (case un of
        aBitmap b \<Rightarrow> sz \<le> BITVEC_NBIT \<and> d = 0 \<and> length b = BITVEC_NELEM
      | aHash a \<Rightarrow> BITVEC_NBIT < sz \<and> d = 0 \<and> hash_ok a \<and> n = occupied a \<and> (\<forall>v\<in>set a. v \<le> sz)
      | apSub subs \<Rightarrow> BITVEC_NBIT < sz \<and> d = (sz + BITVEC_NPTR - 1) div BITVEC_NPTR \<and>
          length subs = BITVEC_NPTR \<and>
          (\<forall>s\<in>set subs. case s of None \<Rightarrow> True | Some q \<Rightarrow> iSize q = d \<and> bv_wf q))"


section \<open>Linear probing\<close>

lemma hash_probe_Some:
  "hash_probe n a i h = Some (r, found) \<Longrightarrow> h < BITVEC_NINT \<Longrightarrow>
     \<exists>d<n. r = (h + d) mod BITVEC_NINT \<and> (\<forall>k<d. a ! ((h + k) mod BITVEC_NINT) \<notin> {0, i}) \<and>
       (if found then a ! r = i \<and> i \<noteq> 0 else a ! r = 0)"
proof (induction n arbitrary: h)
  case (Suc n)
  show ?case
  proof (cases "a ! h \<in> {0, i}")
    case True
    with Suc.prems show ?thesis by (intro exI [of _ 0]) (auto split: if_splits)
  next
    case False
    let ?h = "(h + 1) mod BITVEC_NINT"
    from False Suc.prems have "hash_probe n a i ?h = Some (r, found)" by simp
    from Suc.IH [OF this] obtain d where d: "d < n" "r = (?h + d) mod BITVEC_NINT"
      "\<forall>k<d. a ! ((?h + k) mod BITVEC_NINT) \<notin> {0, i}" "if found then a ! r = i \<and> i \<noteq> 0 else a ! r = 0"
      by auto
    have sh: "(?h + k) mod BITVEC_NINT = (h + Suc k) mod BITVEC_NINT" for k by (simp add: mod_simps)
    have "a ! ((h + k) mod BITVEC_NINT) \<notin> {0, i}" if "k < Suc d" for k
      using that False Suc.prems(2) d(3) sh by (cases k) auto
    with d sh show ?thesis by (intro exI [of _ "Suc d"]) auto
  qed
qed simp

lemma hash_probe_None:
  "hash_probe n a i h = None \<Longrightarrow> h < BITVEC_NINT \<Longrightarrow> k < n \<Longrightarrow> a ! ((h + k) mod BITVEC_NINT) \<noteq> 0"
proof (induction n arbitrary: h k)
  case (Suc n)
  show ?case
  proof (cases k)
    case 0
    then show ?thesis using Suc.prems by (auto split: if_splits)
  next
    case (Suc j)
    have "hash_probe n a i ((h + 1) mod BITVEC_NINT) = None"
      using Suc.prems(1) by (auto split: if_splits)
    from Suc.IH [OF this, of j] have "a ! (((h + 1) mod BITVEC_NINT + j) mod BITVEC_NINT) \<noteq> 0"
      using Suc.prems Suc by simp
    then show ?thesis using Suc by (simp add: mod_simps)
  qed
qed simp

lemma hash_probe_free: "0 < n \<Longrightarrow> a ! h = 0 \<Longrightarrow> hash_probe n a i h = Some (h, False)"
  by (cases n) auto


lemma slot_distance:
  assumes "h < BITVEC_NINT" and "s < BITVEC_NINT"
  obtains k where "k < BITVEC_NINT" and "s = (h + k) mod BITVEC_NINT"
proof (cases "h \<le> s")
  case True
  with assms that [of "s - h"] show ?thesis by simp
next
  case False
  with assms that [of "s + BITVEC_NINT - h"] show ?thesis by simp
qed

lemma slot_inj:
  assumes "(h + d) mod BITVEC_NINT = (h + e) mod BITVEC_NINT" "d < BITVEC_NINT" "e < BITVEC_NINT"
  shows "d = e"
proof -
  have "d mod BITVEC_NINT = e mod BITVEC_NINT"
    using assms(1) by (simp only: nat_mod_eq_iff) (metis add_left_cancel add.assoc)
  with assms show ?thesis by simp
qed

lemma BITVEC_HASH_less: "BITVEC_HASH x < BITVEC_NINT"
  by (simp add: BITVEC_HASH_def)

lemma free_slot:
  assumes "hash_ok a"
  obtains s where "s < BITVEC_NINT" and "a ! s = 0"
proof -
  have "\<exists>v\<in>set a. v = 0"
  proof (rule ccontr)
    assume none: "\<not> ?thesis"
    have "filter (\<lambda>v. v \<noteq> 0) a = a"
    proof (intro filter_True ballI notI)
      fix v assume "v \<in> set a" "v = 0"
      with none show False by auto
    qed
    with assms show False by (auto simp: hash_ok_def occupied_def)
  qed
  with assms that show ?thesis by (auto simp: in_set_conv_nth hash_ok_def)
qed

lemma hash_probe_returns:
  assumes "hash_ok a" and "h < BITVEC_NINT"
  obtains r found where "hash_probe BITVEC_NINT a i h = Some (r, found)"
proof (cases "hash_probe BITVEC_NINT a i h")
  case None
  obtain s where s: "s < BITVEC_NINT" "a ! s = 0" using assms(1) by (rule free_slot)
  obtain k where "k < BITVEC_NINT" "s = (h + k) mod BITVEC_NINT" using assms(2) s(1) by (rule slot_distance)
  with hash_probe_None [OF None assms(2), of k] s have False by simp
  then show ?thesis ..
next
  case (Some x)
  with that show ?thesis by (cases x) auto
qed

lemma hash_probe_found_iff:
  assumes a: "hash_ok a" and i: "i \<noteq> 0"
    and probe: "hash_probe BITVEC_NINT a i (BITVEC_HASH (i - 1)) = Some (r, found)"
  shows "found \<longleftrightarrow> i \<in> set a"
proof -
  let ?h = "BITVEC_HASH (i - 1)"
  obtain d where d: "d < BITVEC_NINT" "r = (?h + d) mod BITVEC_NINT"
    "\<forall>k<d. a ! ((?h + k) mod BITVEC_NINT) \<notin> {0, i}" "if found then a ! r = i \<and> i \<noteq> 0 else a ! r = 0"
    using hash_probe_Some [OF probe BITVEC_HASH_less] by blast
  have len: "length a = BITVEC_NINT" using a by (simp add: hash_ok_def)
  show ?thesis
  proof
    assume found
    moreover have "r < length a" using d(2) len by simp
    ultimately show "i \<in> set a" using d(4) nth_mem by fastforce
  next
    assume "i \<in> set a"
    then obtain s where s: "s < BITVEC_NINT" "a ! s = i" using len by (auto simp: in_set_conv_nth)
    obtain e where e: "e < BITVEC_NINT" "s = (?h + e) mod BITVEC_NINT"
      using BITVEC_HASH_less s(1) by (rule slot_distance)
    have path: "\<forall>k<e. a ! ((?h + k) mod BITVEC_NINT) \<noteq> 0"
      using a i e s by (auto simp: hash_ok_def path_ok_def)
    consider "d < e" | "d = e" | "e < d" by linarith
    then show found
      using d e s path i by cases (auto split: if_splits)
  qed
qed

section \<open>Adding a value to the hash table\<close>

definition vals :: "nat list \<Rightarrow> nat set" where
  "vals a = set a - {0}"

lemma vals_update:
  assumes "r < length a" and "a ! r = 0" and "v \<noteq> 0"
  shows "vals (a[r := v]) = insert v (vals a)"
    and "occupied (a[r := v]) = occupied a + 1"
    and "distinct (filter (\<lambda>v. v \<noteq> 0) a) \<Longrightarrow> v \<notin> set a \<Longrightarrow> distinct (filter (\<lambda>v. v \<noteq> 0) (a[r := v]))"
proof -
  have up: "a[r := v] = take r a @ v # drop (Suc r) a" using assms(1) by (rule upd_conv_take_nth_drop)
  obtain b c where a: "a = b @ 0 # c" and "a[r := v] = b @ v # c"
    using id_take_nth_drop [OF assms(1)] assms(2) up by metis
  then show "vals (a[r := v]) = insert v (vals a)" "occupied (a[r := v]) = occupied a + 1"
    using assms(3) by (auto simp: vals_def occupied_def)
  show "distinct (filter (\<lambda>v. v \<noteq> 0) (a[r := v]))" if "distinct (filter (\<lambda>v. v \<noteq> 0) a)" "v \<notin> set a"
  proof -
    have "a[r := v] = b @ v # c" by fact
    moreover have "distinct (filter (\<lambda>v. v \<noteq> 0) (b @ v # c))" using that assms(3) unfolding a by auto
    ultimately show ?thesis by simp
  qed
qed

lemma path_ok_update:
  assumes "path_ok a" "length a = BITVEC_NINT" "v \<noteq> 0"
    and r: "r = (BITVEC_HASH (v - 1) + d) mod BITVEC_NINT" "d < BITVEC_NINT" "a ! r = 0"
    and path: "\<forall>k<d. a ! ((BITVEC_HASH (v - 1) + k) mod BITVEC_NINT) \<noteq> 0"
  shows "path_ok (a[r := v])"
  unfolding path_ok_def
proof (intro allI impI, elim conjE)
  fix i e k
  assume i: "i \<noteq> 0" and e: "e < BITVEC_NINT"
    and at: "a[r := v] ! ((BITVEC_HASH (i - 1) + e) mod BITVEC_NINT) = i" and k: "k < e"
  have rl: "r < length a" using r(1) assms(2) by simp
  let ?s = "(BITVEC_HASH (i - 1) + e) mod BITVEC_NINT"
  have "a ! ((BITVEC_HASH (i - 1) + k) mod BITVEC_NINT) \<noteq> 0"
  proof (cases "?s = r")
    case True
    with at rl have "i = v" by simp
    with True r e have "e = d" using slot_inj by metis
    with k path \<open>i = v\<close> show ?thesis by simp
  next
    case False
    with at have "a ! ?s = i" by simp
    with assms(1) i e k show ?thesis by (auto simp: path_ok_def)
  qed
  then show "a[r := v] ! ((BITVEC_HASH (i - 1) + k) mod BITVEC_NINT) \<noteq> 0"
    using assms(3) rl by (simp add: nth_list_update)
qed

lemma hash_ok_insert:
  assumes a: "hash_ok a" and v: "v \<noteq> 0" "v \<notin> set a" and room: "occupied a < BITVEC_NINT - 1"
    and probe: "hash_probe n a i (BITVEC_HASH (v - 1)) = Some (r, False)" and n: "n \<le> BITVEC_NINT"
  shows "hash_ok (a[r := v]) \<and> vals (a[r := v]) = insert v (vals a) \<and> occupied (a[r := v]) = occupied a + 1"
proof -
  obtain d where d: "d < n" "r = (BITVEC_HASH (v - 1) + d) mod BITVEC_NINT"
    "\<forall>k<d. a ! ((BITVEC_HASH (v - 1) + k) mod BITVEC_NINT) \<notin> {0, i}" "a ! r = 0"
    using hash_probe_Some [OF probe BITVEC_HASH_less] by auto
  have len: "length a = BITVEC_NINT" using a by (simp add: hash_ok_def)
  then have "r < length a" using d(2) by simp
  note up = vals_update [OF this d(4) v(1)]
  have "path_ok (a[r := v])"
    using path_ok_update [of a v r d] a v d n len by (auto simp: hash_ok_def)
  with up a len v room show ?thesis by (auto simp: hash_ok_def)
qed

lemma hash_ok_empty: "hash_ok (replicate BITVEC_NINT 0)" "vals (replicate BITVEC_NINT 0) = {}"
    "occupied (replicate BITVEC_NINT 0) = 0"
  by (auto simp: hash_ok_def path_ok_def occupied_def vals_def)

lemma rebuild_correct:
  assumes "distinct (filter (\<lambda>v. v \<noteq> 0) vs)" "hash_ok a" "set vs \<inter> vals a = {}"
    "occupied a + length (filter (\<lambda>v. v \<noteq> 0) vs) < BITVEC_NINT"
  shows "\<exists>a' n'. rebuild vs x (a, occupied a) = Some (a', n') \<and> hash_ok a' \<and> n' = occupied a' \<and>
    vals a' = vals a \<union> (vals vs - {x})"
  using assms
proof (induction vs arbitrary: a)
  case Nil
  then show ?case by (simp add: vals_def)
next
  case (Cons v vs)
  show ?case
  proof (cases "v \<noteq> 0 \<and> v \<noteq> x")
    case False
    have "\<exists>a' n'. rebuild vs x (a, occupied a) = Some (a', n') \<and> hash_ok a' \<and> n' = occupied a' \<and>
        vals a' = vals a \<union> (vals vs - {x})"
      using Cons.prems by (intro Cons.IH) (auto split: if_splits)
    moreover have "vals (v # vs) - {x} = vals vs - {x}" using False by (auto simp: vals_def)
    ultimately show ?thesis using False by auto
  next
    case True
    obtain r found where probe: "hash_probe BITVEC_NINT a 0 (BITVEC_HASH (v - 1)) = Some (r, found)"
      using Cons.prems(2) BITVEC_HASH_less by (rule hash_probe_returns)
    then have "\<not> found" using hash_probe_Some [OF probe BITVEC_HASH_less] by auto
    moreover have "v \<notin> set a" using Cons.prems(3) True by (auto simp: vals_def)
    ultimately have ins: "hash_ok (a[r := v])" "vals (a[r := v]) = insert v (vals a)"
      "occupied (a[r := v]) = occupied a + 1"
      using hash_ok_insert [OF Cons.prems(2), of v BITVEC_NINT 0 r] probe True Cons.prems(4) by auto
    have "set vs \<inter> vals (a[r := v]) = {}"
      using Cons.prems(1,3) True ins(2) by auto
    with Cons.IH [OF _ ins(1)] Cons.prems True ins
    obtain a' n' where "rebuild vs x (a[r := v], occupied a + 1) = Some (a', n')" "hash_ok a'"
      "n' = occupied a'" "vals a' = insert v (vals a) \<union> (vals vs - {x})"
      by auto
    with probe True show ?thesis by (auto simp: vals_def)
  qed
qed


section \<open>The set that a vector stands for\<close>

definition bits :: "bitvec \<Rightarrow> nat set" where
  "bits p = {i. 0 < i \<and> i \<le> iSize p \<and> bitvec_test p (i - 1)}"

lemma test_bits: "sqlite3BitvecTest (Some p) i \<longleftrightarrow> i \<in> bits p"
  by (auto simp: sqlite3BitvecTest_def bits_def)

lemma bits_hash:
  assumes "bv_wf (Bitvec sz n d (aHash a))"
  shows "bits (Bitvec sz n d (aHash a)) = vals a"
proof -
  have a: "hash_ok a" "\<forall>v\<in>set a. v \<le> sz" "BITVEC_NBIT < sz" "d = 0" using assms by auto
  have "bitvec_test (Bitvec sz n d (aHash a)) (i - 1) \<longleftrightarrow> i \<in> set a" if "0 < i" for i
  proof -
    obtain r found where "hash_probe BITVEC_NINT a i (BITVEC_HASH (i - 1)) = Some (r, found)"
      using a(1) BITVEC_HASH_less by (rule hash_probe_returns)
    with hash_probe_found_iff [OF a(1) _ this] that a show ?thesis by simp
  qed
  with a show ?thesis by (auto simp: bits_def vals_def)
qed

lemma bit_test_iff: "bit_test b i \<longleftrightarrow> bit (b ! (i div 8)) (i mod 8)"
  by (simp add: bit_test_def and_exp_eq_0_iff_not_bit push_bit_of_1)

lemma bit_test_set:
  assumes "i div 8 < length b"
  shows "bit_test (b[i div 8 := b ! (i div 8) OR push_bit (i mod 8) 1]) j \<longleftrightarrow> j = i \<or> bit_test b j"
proof (cases "j div 8 = i div 8")
  case True
  then have "j = i \<longleftrightarrow> j mod 8 = i mod 8" by (metis div_mult_mod_eq)
  with True assms show ?thesis
    by (auto simp: bit_test_iff bit_or_iff push_bit_of_1 bit_exp_iff possible_bit_def)
next
  case False
  then show ?thesis using assms by (auto simp: bit_test_iff nth_list_update)
qed

lemma bit_test_clear:
  assumes "i div 8 < length b"
  shows "bit_test (b[i div 8 := b ! (i div 8) AND NOT (push_bit (i mod 8) 1)]) j \<longleftrightarrow> j \<noteq> i \<and> bit_test b j"
proof (cases "j div 8 = i div 8")
  case True
  then have "j = i \<longleftrightarrow> j mod 8 = i mod 8" by (metis div_mult_mod_eq)
  with True assms show ?thesis
    by (auto simp: bit_test_iff bit_and_iff bit_not_iff push_bit_of_1 bit_exp_iff possible_bit_def)
next
  case False
  then show ?thesis using assms by (auto simp: bit_test_iff nth_list_update)
qed

lemma bits_bitmap:
  assumes "bv_wf (Bitvec sz n d (aBitmap b))"
  shows "bits (Bitvec sz n d (aBitmap b)) = {i. 0 < i \<and> i \<le> sz \<and> bit_test b (i - 1)}"
  using assms by (auto simp: bits_def)

lemma bin_less:
  assumes "0 < i" "i \<le> (sz::nat)"
  shows "(i - 1) div ((sz + 61) div 62) < 62"
proof -
  let ?d = "(sz + 61) div 62"
  have "sz \<le> 62 * ?d" by linarith
  with assms have "i - 1 < 62 * ?d" by linarith
  then show ?thesis by (simp add: less_mult_imp_div_less mult.commute)
qed

lemma bits_sub:
  assumes "bv_wf (Bitvec sz n d (apSub subs))"
  shows "i \<in> bits (Bitvec sz n d (apSub subs)) \<longleftrightarrow> 0 < i \<and> i \<le> sz \<and>
     (case subs ! ((i - 1) div d) of None \<Rightarrow> False | Some q \<Rightarrow> (i - 1) mod d + 1 \<in> bits q)"
proof -
  have d: "d = (sz + 61) div 62" "0 < d" "length subs = 62"
    and subs: "\<forall>s\<in>set subs. case s of None \<Rightarrow> True | Some q \<Rightarrow> iSize q = d \<and> bv_wf q"
    using assms by auto
  show ?thesis
  proof (cases "0 < i \<and> i \<le> sz")
    case True
    then have bin: "(i - 1) div d < 62"
      using bin_less [of i sz] d(1) by simp
    show ?thesis
    proof (cases "subs ! ((i - 1) div d)")
      case None
      then show ?thesis using True d bin by (simp add: bits_def)
    next
      case (Some q)
      then have "Some q \<in> set subs" using bin d(3) by (metis nth_mem)
      then have "iSize q = d" using subs by auto
      moreover have "(i - 1) mod d < d" using d(2) by simp
      ultimately show ?thesis using Some True d bin by (simp add: bits_def Suc_leI)
    qed
  next
    case False
    then show ?thesis by (auto simp: bits_def)
  qed
qed


section \<open>Setting a bit\<close>

text \<open>
  The fuel that a vector of size s needs: two units for each level of the tree above the
  bitmaps (one to descend, one to rehash), one less once the level is split.
\<close>

fun need :: "nat \<Rightarrow> nat" where
  "need s = (if s \<le> BITVEC_NBIT then 1 else 2 + need ((s + BITVEC_NPTR - 1) div BITVEC_NPTR))"

declare need.simps [simp del]

definition need_bv :: "bitvec \<Rightarrow> nat" where
  "need_bv p = need (iSize p) - (if iDivisor p \<noteq> 0 then 1 else 0)"

lemma need_le_9: "s < 2 ^ 32 \<Longrightarrow> need s \<le> 9"
proof -
  have step: "need s \<le> k" if "\<And>s. s \<le> m \<Longrightarrow> need s \<le> n" "s \<le> 62 * m" "n + 2 \<le> k" "1 \<le> k" for s n m k
  proof -
    have "(s + BITVEC_NPTR - 1) div BITVEC_NPTR \<le> m" using that(2) by linarith
    then have "need ((s + BITVEC_NPTR - 1) div BITVEC_NPTR) \<le> n" by (rule that(1))
    with that(3,4) show ?thesis by (subst need.simps) auto
  qed
  have "need s \<le> 1" if "s \<le> 3968" for s using that by (simp add: need.simps)
  then have "need s \<le> 3" if "s \<le> 62 * 3968" for s using that by (rule step) auto
  then have "need s \<le> 5" if "s \<le> 62 * (62 * 3968)" for s using that by (rule step) auto
  then have "need s \<le> 7" if "s \<le> 62 * (62 * (62 * 3968))" for s using that by (rule step) auto
  then have "need s \<le> 9" if "s \<le> 62 * (62 * (62 * (62 * 3968)))" for s using that by (rule step) auto
  then show "s < 2 ^ 32 \<Longrightarrow> ?thesis" by simp
qed

text \<open>What one call of set promises.\<close>

definition set_post ::
  "bitvec \<Rightarrow> nat \<Rightarrow> bool list \<Rightarrow> (result_code \<times> bitvec \<times> bool list) option \<Rightarrow> bool" where
  "set_post p i ms r \<longleftrightarrow>
     (case r of None \<Rightarrow> False
      | Some (rc, p', ms') \<Rightarrow>
          bv_wf p' \<and> iSize p' = iSize p \<and> (iDivisor p \<noteq> 0 \<longrightarrow> iDivisor p' \<noteq> 0) \<and>
          (rc = SQLITE_OK \<and> bits p' = insert i (bits p) \<or>
           rc = SQLITE_NOMEM \<and> bits p' \<subseteq> insert i (bits p) \<and> \<not> malloc_succeeds ms) \<and>
          (malloc_succeeds ms \<longrightarrow> malloc_succeeds ms'))"

lemma set_postI:
  assumes "r = Some (SQLITE_OK, p', ms')" "bv_wf p'" "iSize p' = iSize p" "iDivisor p \<noteq> 0 \<longrightarrow> iDivisor p' \<noteq> 0"
    "bits p' = insert i (bits p)" "malloc_succeeds ms \<Longrightarrow> malloc_succeeds ms'"
  shows "set_post p i ms r"
  using assms by (simp add: set_post_def)

lemma BitvecCreate_wf:
  assumes "sqlite3BitvecCreate ms n = (Some q, ms')"
  shows "bv_wf q \<and> iSize q = n \<and> iDivisor q = 0 \<and> bits q = {}"
proof (cases "n \<le> BITVEC_NBIT")
  case True
  then have q: "q = Bitvec n 0 0 (aBitmap (replicate BITVEC_NELEM 0))"
    using assms by (auto simp: sqlite3BitvecCreate_def split: prod.splits if_splits)
  moreover have "\<not> bit_test (replicate BITVEC_NELEM 0) (i - 1)" if "i \<le> n" for i
  proof -
    have "(i - 1) div 8 < BITVEC_NELEM" using that True by (simp add: less_mult_imp_div_less)
    then show ?thesis by (simp add: bit_test_def)
  qed
  ultimately show ?thesis using True by (auto simp: bits_bitmap)
next
  case False
  then have q: "q = Bitvec n 0 0 (aHash (replicate BITVEC_NINT 0))"
    using assms by (auto simp: sqlite3BitvecCreate_def split: prod.splits if_splits)
  have wf: "bv_wf q" using False hash_ok_empty unfolding q by simp
  with bits_hash [of n 0 0 "replicate BITVEC_NINT 0"] hash_ok_empty(2) show ?thesis
    unfolding q by simp
qed

lemma set_bitmap:
  assumes "bv_wf (Bitvec sz n d (aBitmap b))" "0 < i" "i \<le> sz"
  shows "set_post (Bitvec sz n d (aBitmap b)) i ms (bitvec_set (Suc fuel) ms (Bitvec sz n d (aBitmap b)) i)"
proof -
  let ?b = "b[(i - 1) div 8 := b ! ((i - 1) div 8) OR push_bit ((i - 1) mod 8) 1]"
  have wf: "bv_wf (Bitvec sz n d (aBitmap ?b))" and len: "(i - 1) div 8 < length b"
    using assms by (auto simp: less_mult_imp_div_less)
  have "bits (Bitvec sz n d (aBitmap ?b)) = insert i (bits (Bitvec sz n d (aBitmap b)))"
    unfolding bits_bitmap [OF wf] bits_bitmap [OF assms(1)] bit_test_set [OF len] using assms(2,3) by auto
  then show ?thesis using assms wf by (intro set_postI) auto
qed

lemma fold_set_correct:
  assumes step: "\<And>ms p v. bv_wf p \<Longrightarrow> iSize p = sz \<Longrightarrow> iDivisor p \<noteq> 0 \<Longrightarrow> 0 < v \<Longrightarrow> v \<le> sz \<Longrightarrow> set_post p v ms (f ms p v)"
    and "bv_wf p" "iSize p = sz" "iDivisor p \<noteq> 0" "\<forall>v\<in>set vs. v \<le> sz" "rc \<in> {SQLITE_OK, SQLITE_NOMEM}"
  shows "\<exists>rc' p' ms'. fold_set f vs (rc, p, ms) = Some (rc', p', ms') \<and> bv_wf p' \<and> iSize p' = sz \<and>
    iDivisor p' \<noteq> 0 \<and> rc' \<in> {SQLITE_OK, SQLITE_NOMEM} \<and>
    (rc' = SQLITE_OK \<longrightarrow> rc = SQLITE_OK \<and> bits p' = vals vs \<union> bits p) \<and> bits p' \<subseteq> vals vs \<union> bits p \<and>
    (malloc_succeeds ms \<longrightarrow> malloc_succeeds ms' \<and> rc' = rc)"
  using assms(2-)
proof (induction vs arbitrary: rc p ms)
  case Nil
  then show ?case by (auto simp: vals_def)
next
  case (Cons v vs)
  show ?case
  proof (cases "v = 0")
    case True
    with Cons.IH [OF Cons.prems(1-3) _ Cons.prems(5), of ms] Cons.prems(4) show ?thesis
      by (simp add: vals_def)
  next
    case False
    with Cons.prems have "set_post p v ms (f ms p v)" by (intro step) auto
    then obtain rc1 p1 ms1 where f: "f ms p v = Some (rc1, p1, ms1)" and wf: "bv_wf p1" "iSize p1 = sz"
        "iDivisor p1 \<noteq> 0"
      and bits1: "rc1 = SQLITE_OK \<and> bits p1 = insert v (bits p) \<or>
        rc1 = SQLITE_NOMEM \<and> bits p1 \<subseteq> insert v (bits p) \<and> \<not> malloc_succeeds ms"
      and ms1: "malloc_succeeds ms \<longrightarrow> malloc_succeeds ms1"
      using Cons.prems by (auto simp: set_post_def split: option.splits)
    have "rc_or rc rc1 \<in> {SQLITE_OK, SQLITE_NOMEM}" using bits1 Cons.prems(5) by (auto simp: rc_or_def)
    from Cons.IH [OF wf _ this, of ms1] Cons.prems(4)
    obtain rc' p' ms' where "fold_set f vs (rc_or rc rc1, p1, ms1) = Some (rc', p', ms')" "bv_wf p'" "iSize p' = sz"
      "iDivisor p' \<noteq> 0" "rc' \<in> {SQLITE_OK, SQLITE_NOMEM}"
      "rc' = SQLITE_OK \<longrightarrow> rc_or rc rc1 = SQLITE_OK \<and> bits p' = vals vs \<union> bits p1" "bits p' \<subseteq> vals vs \<union> bits p1"
      "malloc_succeeds ms1 \<longrightarrow> malloc_succeeds ms' \<and> rc' = rc_or rc rc1"
      by auto
    moreover have "vals (v # vs) = insert v (vals vs)" using False by (auto simp: vals_def)
    ultimately show ?thesis
      using f False bits1 ms1 by (auto simp: rc_or_def split: if_splits)
  qed
qed

lemma rehashed_wf:
  assumes "bv_wf (Bitvec sz n 0 (aHash a))" and "sz \<le> 2 ^ 32 - 62"
  shows "bv_wf (rehashed (Bitvec sz n 0 (aHash a)))" "iDivisor (rehashed (Bitvec sz n 0 (aHash a))) \<noteq> 0"
    "bits (rehashed (Bitvec sz n 0 (aHash a))) = {}" "iSize (rehashed (Bitvec sz n 0 (aHash a))) = sz"
proof -
  define d where "d = (sz + 61) div 62"
  have "0 < d" "(sz + BITVEC_NPTR - 1) mod 2 ^ 32 div BITVEC_NPTR = d"
    using assms by (auto simp: d_def)
  then have r: "rehashed (Bitvec sz n 0 (aHash a)) = Bitvec sz n d (apSub (replicate BITVEC_NPTR None))"
    and d0: "d \<noteq> 0" by (simp_all add: rehashed_def)
  show "iDivisor (rehashed (Bitvec sz n 0 (aHash a))) \<noteq> 0" "iSize (rehashed (Bitvec sz n 0 (aHash a))) = sz"
    using r d0 by simp_all
  show wf: "bv_wf (rehashed (Bitvec sz n 0 (aHash a)))" unfolding r using assms by (simp add: d_def)
  have "i \<notin> bits (Bitvec sz n d (apSub (replicate BITVEC_NPTR None)))" for i
  proof
    assume "i \<in> bits (Bitvec sz n d (apSub (replicate BITVEC_NPTR None)))"
    then have "0 < i" "i \<le> sz" "replicate BITVEC_NPTR (None :: bitvec option) ! ((i - 1) div d) \<noteq> None"
      using bits_sub [OF wf [unfolded r], of i] by (auto split: option.splits)
    with bin_less [of i sz] show False by (simp add: d_def)
  qed
  then show "bits (rehashed (Bitvec sz n 0 (aHash a))) = {}" unfolding r by auto
qed

lemma set_hash:
  assumes wf: "bv_wf (Bitvec sz n 0 (aHash a))" and i: "0 < i" "i \<le> sz" and sz: "sz \<le> 2 ^ 32 - 62"
    and fuel: "need_bv (Bitvec sz n 0 (aHash a)) \<le> Suc fuel"
    and IH: "\<And>ms p v. bv_wf p \<Longrightarrow> iSize p = sz \<Longrightarrow> iDivisor p \<noteq> 0 \<Longrightarrow> 0 < v \<Longrightarrow> v \<le> sz \<Longrightarrow>
      set_post p v ms (bitvec_set fuel ms p v)"
  shows "set_post (Bitvec sz n 0 (aHash a)) i ms (bitvec_set (Suc fuel) ms (Bitvec sz n 0 (aHash a)) i)"
proof -
  let ?p = "Bitvec sz n 0 (aHash a)"
  have a: "hash_ok a" "n = occupied a" "\<forall>v\<in>set a. v \<le> sz" "BITVEC_NBIT < sz" using wf by auto
  have bp: "bits ?p = vals a" using wf by (rule bits_hash)
  obtain r found where probe: "hash_probe BITVEC_NINT a i (BITVEC_HASH (i - 1)) = Some (r, found)"
    using a(1) BITVEC_HASH_less by (rule hash_probe_returns)
  have found: "found \<longleftrightarrow> i \<in> set a" using a(1) i(1) probe by (intro hash_probe_found_iff) auto
  define ins where "ins = (\<lambda>h. Some (SQLITE_OK, Bitvec sz (n + 1) 0 (aHash (a[h := i])), ms))"
  define reh where "reh = (let (ok, ms) = malloc_next ms in
      if \<not> ok then Some (SQLITE_NOMEM, ?p, ms)
      else (case bitvec_set fuel ms (rehashed ?p) i of None \<Rightarrow> None
            | Some (rc, p', ms) \<Rightarrow> fold_set (bitvec_set fuel) a (rc, p', ms)))"
  have ins: "set_post ?p i ms (ins h)"
    if "hash_probe BITVEC_NINT a i (BITVEC_HASH (i - 1)) = Some (h, False)" "n < BITVEC_NINT - 1" for h
  proof -
    have "i \<notin> set a" using that(1) found probe by simp
    then have new: "hash_ok (a[h := i])" "vals (a[h := i]) = insert i (vals a)" "occupied (a[h := i]) = n + 1"
      using hash_ok_insert [OF a(1) _ _ _ that(1)] i(1) that(2) a(2) by auto
    have "set (a[h := i]) \<subseteq> insert i (set a)" by (rule set_update_subset_insert)
    then have wf': "bv_wf (Bitvec sz (n + 1) 0 (aHash (a[h := i])))" using new a i by auto
    have "bits (Bitvec sz (n + 1) 0 (aHash (a[h := i]))) = insert i (bits ?p)"
      unfolding bits_hash [OF wf'] bp by (rule new(2))
    then show ?thesis by (intro set_postI [OF _ wf', of _ ms]) (simp_all add: ins_def)
  qed
  have reh: "set_post ?p i ms reh"
  proof -
    obtain ok ms1 where ml: "malloc_next ms = (ok, ms1)" by fastforce
    show ?thesis
    proof (cases ok)
      case False
      then have "\<not> malloc_succeeds ms" using ml malloc_next_succeeds by blast
      with False wf ml show ?thesis by (auto simp: reh_def set_post_def)
    next
      case True
      note R = rehashed_wf [OF wf sz]
      have "set_post (rehashed ?p) i ms1 (bitvec_set fuel ms1 (rehashed ?p) i)"
        using R i by (intro IH) auto
      then obtain rc1 p1 ms2 where f: "bitvec_set fuel ms1 (rehashed ?p) i = Some (rc1, p1, ms2)"
        and p1: "bv_wf p1" "iSize p1 = sz" "iDivisor p1 \<noteq> 0"
        and b1: "rc1 = SQLITE_OK \<and> bits p1 = {i} \<or> rc1 = SQLITE_NOMEM \<and> bits p1 \<subseteq> {i} \<and> \<not> malloc_succeeds ms1"
        and m1: "malloc_succeeds ms1 \<longrightarrow> malloc_succeeds ms2"
        using R by (auto simp: set_post_def split: option.splits)
      have "rc1 \<in> {SQLITE_OK, SQLITE_NOMEM}" using b1 by auto
      from fold_set_correct [of sz "bitvec_set fuel", OF IH p1 a(3) this, of ms2]
      obtain rc' p' ms' where F: "fold_set (bitvec_set fuel) a (rc1, p1, ms2) = Some (rc', p', ms')"
        "bv_wf p'" "iSize p' = sz" "rc' \<in> {SQLITE_OK, SQLITE_NOMEM}"
        "rc' = SQLITE_OK \<longrightarrow> rc1 = SQLITE_OK \<and> bits p' = vals a \<union> bits p1" "bits p' \<subseteq> vals a \<union> bits p1"
        "malloc_succeeds ms2 \<longrightarrow> malloc_succeeds ms' \<and> rc' = rc1"
        by auto
      have "malloc_succeeds ms \<longrightarrow> malloc_succeeds ms1" using ml malloc_next_succeeds by blast
      with True ml f F b1 m1 show ?thesis
        unfolding reh_def set_post_def bp by auto
    qed
  qed
  have def: "bitvec_set (Suc fuel) ms ?p i =
     (if a ! BITVEC_HASH (i - 1) = 0 then
        (if n < BITVEC_NINT - 1 then ins (BITVEC_HASH (i - 1)) else if BITVEC_MXHASH \<le> n then reh else ins (BITVEC_HASH (i - 1)))
      else if found then Some (SQLITE_OK, ?p, ms)
      else if BITVEC_MXHASH \<le> n then reh else ins r)"
    using a(4) probe by (cases found) (simp_all add: ins_def reh_def Let_def)
  have free: "hash_probe BITVEC_NINT a i (BITVEC_HASH (i - 1)) = Some (BITVEC_HASH (i - 1), False)"
    if "a ! BITVEC_HASH (i - 1) = 0"
    using that by (simp add: hash_probe_free)
  show ?thesis
  proof (cases "a ! BITVEC_HASH (i - 1) = 0")
    case True
    then show ?thesis using def ins [OF free] reh by simp
  next
    case False
    have "set_post ?p i ms (Some (SQLITE_OK, ?p, ms))" if "i \<in> set a"
      using wf that i bp by (intro set_postI) (auto simp: vals_def)
    then show ?thesis using def False ins [of r] reh probe found by auto
  qed
qed

text \<open>A change of one sub-vector, seen from the whole.\<close>

lemma part_bits:
  fixes P P' Q Q' :: "nat set"
  assumes P': "\<And>x. x \<in> P' \<longleftrightarrow> 0 < x \<and> x \<le> sz \<and> (if b x then m x \<in> Q' else x \<in> P)"
    and P: "\<And>x. b x \<Longrightarrow> x \<in> P \<longleftrightarrow> 0 < x \<and> x \<le> sz \<and> m x \<in> Q"
    and i: "\<And>x. 0 < x \<Longrightarrow> x = i \<longleftrightarrow> b x \<and> m x = j" and "0 < i" "i \<le> sz"
    and sub: "\<And>x. x \<in> P \<Longrightarrow> 0 < x \<and> x \<le> sz"
  shows "Q' = insert j Q \<Longrightarrow> P' = insert i P" and "Q' \<subseteq> insert j Q \<Longrightarrow> P' \<subseteq> insert i P"
    and "Q' = Q - {j} \<Longrightarrow> P' = P - {i}"
proof -
  have i': "b i \<and> m i = j" using i [of i] assms(4) by simp
  have P'x: "x \<in> P' \<longleftrightarrow> 0 < x \<and> x \<le> sz \<and> (if b x then x \<in> insert i P else x \<in> P)"
    if "Q' = insert j Q" for x
    using that P' [of x] P [of x] i [of x] by (cases "b x") auto
  show "P' = insert i P" if "Q' = insert j Q"
  proof (rule set_eqI)
    fix x
    show "x \<in> P' \<longleftrightarrow> x \<in> insert i P"
      using P'x [OF that, of x] sub [of x] assms(4,5) i' by (cases "x = i"; cases "b x") auto
  qed
  show "P' \<subseteq> insert i P" if "Q' \<subseteq> insert j Q"
  proof
    fix x assume x: "x \<in> P'"
    show "x \<in> insert i P"
    proof (cases "b x")
      case True
      with x P' [of x] that have "m x \<in> insert j Q" "0 < x" "x \<le> sz" by auto
      with True P [of x] i [of x] show ?thesis by auto
    next
      case False
      with x P' [of x] show ?thesis by simp
    qed
  qed
  show "P' = P - {i}" if "Q' = Q - {j}"
  proof (rule set_eqI)
    fix x
    show "x \<in> P' \<longleftrightarrow> x \<in> P - {i}"
    proof (cases "b x")
      case True
      then show ?thesis using P' [of x] P [OF True] i [of x] that by auto
    next
      case False
      with i' have "x \<noteq> i" by auto
      with False P' [of x] sub [of x] show ?thesis by auto
    qed
  qed
qed

text \<open>Set returns, keeps the vector well formed and adds exactly the one bit.\<close>

lemma bitvec_set_correct:
  "bv_wf p \<Longrightarrow> 0 < i \<Longrightarrow> i \<le> iSize p \<Longrightarrow> iSize p \<le> 2 ^ 32 - 62 \<Longrightarrow> need_bv p \<le> fuel \<Longrightarrow>
     set_post p i ms (bitvec_set fuel ms p i)"
proof (induction fuel arbitrary: p i ms)
  case 0
  have "1 \<le> need (iSize p)" and "BITVEC_NBIT < iSize p \<Longrightarrow> 2 \<le> need (iSize p)"
    by (subst need.simps; simp)+
  with 0 have False by (cases p) (auto simp: need_bv_def split: if_splits bitvec_u.splits)
  then show ?case ..
next
  case (Suc fuel)
  obtain sz n d un where p: "p = Bitvec sz n d un" by (cases p)
  show ?case
  proof (cases un)
    case (aBitmap b)
    with Suc.prems p show ?thesis using set_bitmap by auto
  next
    case (aHash a)
    have "need sz \<le> Suc fuel" using Suc.prems p aHash by (simp add: need_bv_def)
    then have "set_post q v ms (bitvec_set fuel ms q v)"
      if "bv_wf q" "iSize q = sz" "iDivisor q \<noteq> 0" "0 < v" "v \<le> sz" for q v ms
      using Suc.prems p that by (intro Suc.IH) (auto simp: need_bv_def)
    with Suc.prems p aHash show ?thesis using set_hash [of sz n a i fuel ms] by auto
  next
    case (apSub subs)
    have wf: "BITVEC_NBIT < sz" "d = (sz + 61) div 62" "0 < d" "length subs = 62"
      and subs: "\<forall>s\<in>set subs. case s of None \<Rightarrow> True | Some q \<Rightarrow> iSize q = d \<and> bv_wf q"
      using Suc.prems(1) p apSub by auto
    let ?bin = "(i - 1) div d" and ?j = "(i - 1) mod d + 1"
    have bin: "?bin < 62" using bin_less [of i sz] Suc.prems p wf(2) by simp
    have need: "1 + need d \<le> Suc fuel"
      using Suc.prems(5) p wf(1,2,3) by (simp add: need_bv_def need.simps [of sz] add.commute)
    have j: "0 < ?j" "?j \<le> d" using wf(3) by (simp_all add: Suc_leI)
    have dle: "d \<le> 2 ^ 32 - 62" using wf(2) Suc.prems(4) p by auto
    have down: "set_post p i ms0 (case bitvec_set fuel ms q ?j of None \<Rightarrow> None | Some (rc, q', ms) \<Rightarrow>
        Some (rc, Bitvec sz n d (apSub (subs[?bin := Some q'])), ms))"
      if q: "bv_wf q" "iSize q = d" "need_bv q \<le> need d"
        and same: "\<And>x. (case subs ! ?bin of None \<Rightarrow> False | Some q \<Rightarrow> x \<in> bits q) \<longleftrightarrow> x \<in> bits q"
        and m: "malloc_succeeds ms0 \<Longrightarrow> malloc_succeeds ms" for q ms ms0
    proof -
      have "set_post q ?j ms (bitvec_set fuel ms q ?j)" using q j dle need by (intro Suc.IH) auto
      then obtain rc q' ms' where f: "bitvec_set fuel ms q ?j = Some (rc, q', ms')"
        and q': "bv_wf q'" "iSize q' = d"
        and b: "rc = SQLITE_OK \<and> bits q' = insert ?j (bits q) \<or>
          rc = SQLITE_NOMEM \<and> bits q' \<subseteq> insert ?j (bits q) \<and> \<not> malloc_succeeds ms"
        and m': "malloc_succeeds ms \<longrightarrow> malloc_succeeds ms'"
        using q by (auto simp: set_post_def split: option.splits)
      let ?p' = "Bitvec sz n d (apSub (subs[?bin := Some q']))"
      have wf': "bv_wf ?p'" using wf subs q' by (auto dest!: subsetD [OF set_update_subset_insert])
      have eq: "x = i \<longleftrightarrow> (x - 1) div d = ?bin \<and> (x - 1) mod d + 1 = ?j" if "0 < x" for x
        using that Suc.prems(2) by (metis Suc_diff_1 Suc_eq_plus1 div_mult_mod_eq nat.inject)
      have bits': "x \<in> bits ?p' \<longleftrightarrow> 0 < x \<and> x \<le> sz \<and>
          (if (x - 1) div d = ?bin then (x - 1) mod d + 1 \<in> bits q' else x \<in> bits p)" for x
        using bits_sub [OF wf', of x] bits_sub [of sz n d subs x] Suc.prems(1) p apSub bin wf(4)
        by (auto simp: nth_list_update split: if_splits)
      have bitsp: "x \<in> bits p \<longleftrightarrow> 0 < x \<and> x \<le> sz \<and> (x - 1) mod d + 1 \<in> bits q" if "(x - 1) div d = ?bin" for x
        using bits_sub [of sz n d subs x] Suc.prems(1) p apSub that same by simp
      have i: "0 < i" "i \<le> sz" using Suc.prems p by auto
      have sub: "x \<in> bits p \<Longrightarrow> 0 < x \<and> x \<le> sz" for x using p by (auto simp: bits_def)
      note part = part_bits [where b = "\<lambda>x. (x - 1) div d = ?bin" and m = "\<lambda>x. (x - 1) mod d + 1" and j = "?j"
          and P = "bits p" and P' = "bits ?p'" and sz = sz and i = i]
      have "bits ?p' = insert i (bits p)" if "bits q' = insert ?j (bits q)"
        by (rule part(1)) (rule bits' | erule bitsp | erule eq | rule i | erule sub | rule that)+
      moreover have "bits ?p' \<subseteq> insert i (bits p)" if "bits q' \<subseteq> insert ?j (bits q)"
        by (rule part(2)) (rule bits' | erule bitsp | erule eq | rule i | erule sub | rule that)+
      ultimately show ?thesis
        using f b m m' wf' wf(3) p unfolding set_post_def by auto
    qed
    have def: "bitvec_set (Suc fuel) ms p i =
       (let (q, ms) = (case subs ! ?bin of None \<Rightarrow> sqlite3BitvecCreate ms d | Some q \<Rightarrow> (Some q, ms)) in
        case q of None \<Rightarrow> Some (SQLITE_NOMEM, p, ms)
        | Some q \<Rightarrow> (case bitvec_set fuel ms q ?j of None \<Rightarrow> None | Some (rc, q', ms) \<Rightarrow>
            Some (rc, Bitvec sz n d (apSub (subs[?bin := Some q'])), ms)))"
      unfolding p apSub using wf(1,3,4) bin
      by (simp add: Let_def cong del: option.case_cong_weak prod.case_cong_weak)
    show ?thesis
    proof (cases "subs ! ?bin")
      case (Some q)
      then have "Some q \<in> set subs" using bin wf(4) by (metis nth_mem)
      then have "iSize q = d" "bv_wf q" using subs by auto
      then show ?thesis using def Some down [of q ms ms] by (simp add: need_bv_def)
    next
      case None
      obtain r ms1 where c: "sqlite3BitvecCreate ms d = (r, ms1)" by fastforce
      then have m: "malloc_succeeds ms \<Longrightarrow> r \<noteq> None \<and> malloc_succeeds ms1"
        by (auto simp: sqlite3BitvecCreate_def split: prod.splits if_splits)
      show ?thesis
      proof (cases r)
        case None': None
        then show ?thesis using def None c m Suc.prems(1) by (auto simp: set_post_def)
      next
        case (Some q)
        from BitvecCreate_wf [OF c [unfolded Some]] have q: "bv_wf q" "iSize q = d" "iDivisor q = 0" "bits q = {}"
          by auto
        with down [of q ms ms1] None Some c m def show ?thesis by (simp add: need_bv_def)
      qed
    qed
  qed
qed


section \<open>Clearing a bit\<close>

lemma bitvec_clear_correct:
  "bv_wf p \<Longrightarrow> i < iSize p \<Longrightarrow>
     \<exists>p'. bitvec_clear p i = Some p' \<and> bv_wf p' \<and> iSize p' = iSize p \<and> bits p' = bits p - {i + 1}"
proof (induction p i rule: bitvec_clear.induct)
  case (1 sz n d un i)
  show ?case
  proof (cases un)
    case (aBitmap b)
    then have len: "i div 8 < length b" and wf: "bv_wf (Bitvec sz n d (aBitmap b))"
      using 1 by (auto simp: less_mult_imp_div_less)
    let ?b = "b[i div 8 := b ! (i div 8) AND NOT (push_bit (i mod 8) 1)]"
    have wf': "bv_wf (Bitvec sz n d (aBitmap ?b))" using wf by simp
    have "bits (Bitvec sz n d (aBitmap ?b)) = bits (Bitvec sz n d (aBitmap b)) - {i + 1}"
      unfolding bits_bitmap [OF wf'] bits_bitmap [OF wf] bit_test_clear [OF len] by auto
    then show ?thesis using wf wf' aBitmap by auto
  next
    case (aHash a)
    then have a: "hash_ok a" "n = occupied a" "\<forall>v\<in>set a. v \<le> sz" "BITVEC_NBIT < sz" "d = 0"
      and wf: "bv_wf (Bitvec sz n d (aHash a))"
      using 1 by auto
    have "set a \<inter> vals (replicate BITVEC_NINT 0) = {}" "length (filter (\<lambda>v. v \<noteq> 0) a) < BITVEC_NINT"
      using a(1) hash_ok_empty by (auto simp: hash_ok_def occupied_def)
    then obtain a' n' where r: "rebuild a (i + 1) (replicate BITVEC_NINT 0, 0) = Some (a', n')"
      "hash_ok a'" "n' = occupied a'" "vals a' = vals a - {i + 1}"
      using rebuild_correct [of a "replicate BITVEC_NINT 0" "i + 1"] a(1) hash_ok_empty
      by (auto simp: hash_ok_def)
    have "v \<le> sz" if "v \<in> set a'" for v
      using that r(4) a(3) by (cases "v = 0") (auto simp: vals_def)
    then have wf': "bv_wf (Bitvec sz n' 0 (aHash a'))" using r a by auto
    have "bits (Bitvec sz n' 0 (aHash a')) = bits (Bitvec sz n d (aHash a)) - {i + 1}"
      unfolding bits_hash [OF wf'] bits_hash [OF wf] by (rule r(4))
    then show ?thesis using wf' r a aHash by auto
  next
    case (apSub subs)
    have wf: "BITVEC_NBIT < sz" "d = (sz + 61) div 62" "0 < d" "length subs = 62"
      and subs: "\<forall>s\<in>set subs. case s of None \<Rightarrow> True | Some q \<Rightarrow> iSize q = d \<and> bv_wf q"
      and wfp: "bv_wf (Bitvec sz n d (apSub subs))"
      using 1 apSub by auto
    have bin: "i div d < 62" using bin_less [of "i + 1" sz] 1 wf(2) by simp
    show ?thesis
    proof (cases "subs ! (i div d)")
      case None
      have "i + 1 \<notin> bits (Bitvec sz n d (apSub subs))" using bits_sub [OF wfp, of "i + 1"] None by simp
      moreover have "bitvec_clear (Bitvec sz n d un) i = Some (Bitvec sz n d un)"
        using None bin wf(3,4) apSub by simp
      ultimately show ?thesis using apSub wfp by (simp del: bitvec_clear.simps bv_wf.simps)
    next
      case (Some q)
      then have "Some q \<in> set subs" using bin wf(4) by (metis nth_mem)
      then have q: "iSize q = d" "bv_wf q" using subs by auto
      then obtain q' where q': "bitvec_clear q (i mod d) = Some q'" "bv_wf q'" "iSize q' = d"
        "bits q' = bits q - {i mod d + 1}"
        using "1.IH" [of subs q] apSub wf bin Some by auto
      let ?p' = "Bitvec sz n d (apSub (subs[i div d := Some q']))"
      have wf': "bv_wf ?p'" using wf subs q' by (auto dest!: subsetD [OF set_update_subset_insert])
      let ?p = "Bitvec sz n d (apSub subs)" and ?bin = "i div d" and ?j = "i mod d + 1"
      have bits': "x \<in> bits ?p' \<longleftrightarrow> 0 < x \<and> x \<le> sz \<and>
          (if (x - 1) div d = ?bin then (x - 1) mod d + 1 \<in> bits q' else x \<in> bits ?p)" for x
        using bits_sub [OF wf', of x] bits_sub [OF wfp, of x] bin wf(4)
        by (auto simp: nth_list_update split: if_splits)
      have bitsp: "x \<in> bits ?p \<longleftrightarrow> 0 < x \<and> x \<le> sz \<and> (x - 1) mod d + 1 \<in> bits q" if "(x - 1) div d = ?bin" for x
        using bits_sub [OF wfp, of x] that Some by simp
      have eq: "x = i + 1 \<longleftrightarrow> (x - 1) div d = ?bin \<and> (x - 1) mod d + 1 = ?j" if "0 < x" for x
        using that by (metis Suc_diff_1 Suc_eq_plus1 div_mult_mod_eq nat.inject)
      have j: "0 < i + 1" "i + 1 \<le> sz" using 1 by auto
      have sub: "x \<in> bits ?p \<Longrightarrow> 0 < x \<and> x \<le> sz" for x by (auto simp: bits_def)
      have "bits ?p' = bits ?p - {i + 1}"
        by (rule part_bits(3) [where b = "\<lambda>x. (x - 1) div d = ?bin" and m = "\<lambda>x. (x - 1) mod d + 1"
            and j = "?j" and P = "bits ?p" and P' = "bits ?p'" and sz = sz and i = "i + 1"])
          (rule bits' | erule bitsp | erule eq | rule j | erule sub | rule q'(4))+
      moreover have "bitvec_clear (Bitvec sz n d un) i = Some ?p'"
        using wf(3,4) bin q'(1) Some apSub by simp
      ultimately show ?thesis using wf' apSub by (simp del: bitvec_clear.simps bv_wf.simps)
    qed
  qed
qed

section \<open>The interface of a page set\<close>

text \<open>
  What the pager and the b-tree layer rely on: a page set of a fixed size to which pages are
  added (an addition can fail for want of memory) and from which they are removed.  The
  lemma of the interface is about any sequence of these operations.
\<close>

datatype page_op = Add nat | Remove nat

fun reference :: "nat set \<Rightarrow> page_op list \<Rightarrow> nat set" where
  "reference S [] = S"
| "reference S (Add i # ops) = reference (insert i S) ops"
| "reference S (Remove i # ops) = reference (S - {i}) ops"

fun page_of :: "page_op \<Rightarrow> nat" where
  "page_of (Add i) = i"
| "page_of (Remove i) = i"

locale page_set =
  fixes ok :: "'v \<Rightarrow> bool" and size_of :: "'v \<Rightarrow> nat" and has :: "'v \<Rightarrow> nat \<Rightarrow> bool"
    and add :: "bool list \<Rightarrow> 'v \<Rightarrow> nat \<Rightarrow> (result_code \<times> 'v \<times> bool list) option"
    and remove :: "'v \<Rightarrow> nat \<Rightarrow> 'v option"
  assumes add_law: "ok p \<Longrightarrow> 0 < i \<Longrightarrow> i \<le> size_of p \<Longrightarrow> malloc_succeeds ms \<Longrightarrow>
      \<exists>p' ms'. add ms p i = Some (SQLITE_OK, p', ms') \<and> malloc_succeeds ms' \<and> ok p' \<and>
        size_of p' = size_of p \<and> (\<forall>j. has p' j \<longleftrightarrow> j = i \<or> has p j)"
    and remove_law: "ok p \<Longrightarrow> 0 < i \<Longrightarrow> i \<le> size_of p \<Longrightarrow>
      \<exists>p'. remove p i = Some p' \<and> ok p' \<and> size_of p' = size_of p \<and> (\<forall>j. has p' j \<longleftrightarrow> j \<noteq> i \<and> has p j)"
begin

fun run :: "bool list \<Rightarrow> 'v \<Rightarrow> page_op list \<Rightarrow> ('v \<times> bool list) option" where
  "run ms p [] = Some (p, ms)"
| "run ms p (Add i # ops) =
     (case add ms p i of Some (SQLITE_OK, p', ms') \<Rightarrow> run ms' p' ops | _ \<Rightarrow> None)"
| "run ms p (Remove i # ops) = (case remove p i of Some p' \<Rightarrow> run ms p' ops | None \<Rightarrow> None)"

lemma run_reference:
  assumes "ok p" "\<forall>op\<in>set ops. 0 < page_of op \<and> page_of op \<le> size_of p" "malloc_succeeds ms"
  shows "\<exists>p' ms'. run ms p ops = Some (p', ms') \<and> ok p' \<and> size_of p' = size_of p \<and>
    {i. has p' i} = reference {i. has p i} ops"
  using assms
proof (induction ops arbitrary: p ms)
  case Nil
  then show ?case by auto
next
  case (Cons op ops)
  show ?case
  proof (cases op)
    case (Add i)
    with Cons.prems obtain p1 ms1 where a: "add ms p i = Some (SQLITE_OK, p1, ms1)" "malloc_succeeds ms1"
      "ok p1" "size_of p1 = size_of p" "\<forall>j. has p1 j \<longleftrightarrow> j = i \<or> has p j"
      using add_law [of p i ms] by auto
    then have "{j. has p1 j} = insert i {j. has p j}" by auto
    with Cons.IH [OF a(3) _ a(2)] Cons.prems a Add show ?thesis by simp
  next
    case (Remove i)
    with Cons.prems obtain p1 where r: "remove p i = Some p1" "ok p1" "size_of p1 = size_of p"
      "\<forall>j. has p1 j \<longleftrightarrow> j \<noteq> i \<and> has p j"
      using remove_law [of p i] by auto
    then have "{j. has p1 j} = {j. has p j} - {i}" by auto
    with Cons.IH [OF r(2) _ Cons.prems(3)] Cons.prems r Remove show ?thesis by simp
  qed
qed

end

definition bv_ok :: "bitvec \<Rightarrow> bool" where
  "bv_ok p \<longleftrightarrow> bv_wf p \<and> iSize p \<le> 2 ^ 32 - 62"

lemma BitvecSet_post:
  assumes "bv_ok p" "0 < i" "i \<le> iSize p"
  shows "set_post p i ms (bitvec_set 9 ms p i)"
proof -
  have "need_bv p \<le> 9" using need_le_9 [of "iSize p"] assms by (auto simp: need_bv_def bv_ok_def)
  with assms show ?thesis by (intro bitvec_set_correct) (auto simp: bv_ok_def)
qed

interpretation bv: page_set bv_ok iSize "\<lambda>p. sqlite3BitvecTest (Some p)" "bitvec_set 9" "\<lambda>p i. bitvec_clear p (i - 1)"
proof
  fix p i ms
  assume "bv_ok p" "0 < i" "i \<le> iSize p" "malloc_succeeds ms"
  with BitvecSet_post [of p i ms] show "\<exists>p' ms'. bitvec_set 9 ms p i = Some (SQLITE_OK, p', ms') \<and>
      malloc_succeeds ms' \<and> bv_ok p' \<and> iSize p' = iSize p \<and>
      (\<forall>j. sqlite3BitvecTest (Some p') j \<longleftrightarrow> j = i \<or> sqlite3BitvecTest (Some p) j)"
    by (auto simp: set_post_def test_bits bv_ok_def split: option.splits)
next
  fix p i
  assume p: "bv_ok p" "0 < i" "i \<le> iSize p"
  with bitvec_clear_correct [of p "i - 1"] obtain p' where "bitvec_clear p (i - 1) = Some p'" "bv_wf p'"
    "iSize p' = iSize p" "bits p' = bits p - {i}" unfolding bv_ok_def by (auto simp: less_eq_Suc_le)
  with p show "\<exists>p'. bitvec_clear p (i - 1) = Some p' \<and> bv_ok p' \<and> iSize p' = iSize p \<and>
      (\<forall>j. sqlite3BitvecTest (Some p') j \<longleftrightarrow> j \<noteq> i \<and> sqlite3BitvecTest (Some p) j)"
    by (auto simp: test_bits bv_ok_def)
qed

section \<open>The pages of the free list that had content\<close>

text \<open>
  btree.c keeps in BtShared.pHasContent the pages that became free-list leaves in this
  transaction: the vector is made on first use, with the size the database has then.
\<close>

record BtContent =
  nPage :: nat
  pHasContent :: "bitvec option"

definition btreeSetHasContent :: "bool list \<Rightarrow> BtContent \<Rightarrow> nat \<Rightarrow> (result_code \<times> BtContent \<times> bool list) option" where
  "btreeSetHasContent ms pBt pgno =
     (let (v, ms) = (case pHasContent pBt of
                       None \<Rightarrow> sqlite3BitvecCreate ms (nPage pBt)
                     | Some p \<Rightarrow> (Some p, ms));
          pBt = pBt\<lparr>pHasContent := v\<rparr>
      in case v of
           None \<Rightarrow> Some (SQLITE_NOMEM, pBt, ms)
         | Some p \<Rightarrow>
             if pgno \<le> sqlite3BitvecSize p then
               (case sqlite3BitvecSet ms (Some p) pgno of
                  None \<Rightarrow> None
                | Some (rc, p', ms) \<Rightarrow> Some (rc, pBt\<lparr>pHasContent := p'\<rparr>, ms))
             else Some (SQLITE_OK, pBt, ms))"

definition btreeGetHasContent :: "BtContent \<Rightarrow> nat \<Rightarrow> bool" where
  "btreeGetHasContent pBt pgno =
     (case pHasContent pBt of None \<Rightarrow> False
      | Some p \<Rightarrow> sqlite3BitvecSize p < pgno \<or> sqlite3BitvecTest (Some p) pgno)"

definition btreeClearHasContent :: "BtContent \<Rightarrow> BtContent" where
  "btreeClearHasContent pBt = pBt\<lparr>pHasContent := None\<rparr>"

definition content_ok :: "BtContent \<Rightarrow> bool" where
  "content_ok pBt \<longleftrightarrow> nPage pBt \<le> 2 ^ 32 - 62 \<and> (case pHasContent pBt of None \<Rightarrow> True | Some p \<Rightarrow> bv_ok p)"

lemma SetHasContent_step:
  assumes "content_ok pBt" and "0 < pgno"
    and "btreeSetHasContent ms pBt pgno = Some (SQLITE_OK, pBt', ms')"
  shows "content_ok pBt' \<and> pHasContent pBt' \<noteq> None \<and> nPage pBt' = nPage pBt \<and>
    (btreeGetHasContent pBt' q \<longleftrightarrow> q = pgno \<or>
      (if pHasContent pBt = None then nPage pBt < q else btreeGetHasContent pBt q))"
proof -
  obtain v ms1 where v: "(case pHasContent pBt of None \<Rightarrow> sqlite3BitvecCreate ms (nPage pBt)
      | Some p \<Rightarrow> (Some p, ms)) = (v, ms1)" by fastforce
  then obtain p where p: "v = Some p" using assms(3) by (cases v) (auto simp: btreeSetHasContent_def)
  have ok: "bv_ok p" and old: "(if pHasContent pBt = None then nPage pBt < q else btreeGetHasContent pBt q)
      \<longleftrightarrow> iSize p < q \<or> q \<in> bits p"
    using v p assms(1) BitvecCreate_wf [of ms "nPage pBt" p ms1]
    by (auto simp: content_ok_def bv_ok_def btreeGetHasContent_def sqlite3BitvecSize_def test_bits split: option.splits)
  show ?thesis
  proof (cases "pgno \<le> iSize p")
    case True
    with BitvecSet_post [OF ok assms(2)] have post: "set_post p pgno ms1 (bitvec_set 9 ms1 p pgno)" by simp
    then obtain p' where "pHasContent pBt' = Some p'" "bv_ok p'" "iSize p' = iSize p" "bits p' = insert pgno (bits p)"
      "nPage pBt' = nPage pBt"
      using assms(3) v p True ok
      by (auto simp: btreeSetHasContent_def sqlite3BitvecSize_def sqlite3BitvecSet_def set_post_def bv_ok_def
          split: option.splits)
    with old assms(1) show ?thesis
      by (auto simp: content_ok_def btreeGetHasContent_def sqlite3BitvecSize_def test_bits)
  next
    case False
    then have "pBt' = pBt\<lparr>pHasContent := Some p\<rparr>"
      using assms(3) v p by (auto simp: btreeSetHasContent_def sqlite3BitvecSize_def)
    with False ok old assms(1) show ?thesis
      by (auto simp: content_ok_def btreeGetHasContent_def sqlite3BitvecSize_def test_bits)
  qed
qed

section \<open>Properties\<close>

text \<open>
  C13: On a well-formed vector sqlite3BitvecSet always returns, keeps the vector well formed
  and adds exactly the one bit; NOMEM is only returned when an allocation fails, and then no
  other bit has been added.
\<close>

theorem BitvecSet_spec:
  assumes "bv_ok p" and "0 < i" and "i \<le> iSize p"
  shows "case sqlite3BitvecSet ms (Some p) i of
      Some (rc, Some p', ms') \<Rightarrow> bv_ok p' \<and> iSize p' = iSize p \<and>
        (rc = SQLITE_OK \<and> (\<forall>j. sqlite3BitvecTest (Some p') j \<longleftrightarrow> j = i \<or> sqlite3BitvecTest (Some p) j) \<or>
         rc = SQLITE_NOMEM \<and> \<not> malloc_succeeds ms \<and>
           (\<forall>j. sqlite3BitvecTest (Some p') j \<longrightarrow> j = i \<or> sqlite3BitvecTest (Some p) j))
    | _ \<Rightarrow> False"
  using BitvecSet_post [OF assms, of ms] assms(1)
  by (auto simp: sqlite3BitvecSet_def set_post_def test_bits bv_ok_def split: option.splits)

definition vector_5000 :: bitvec where
  "vector_5000 = Bitvec 5000 1 0 (aHash ((replicate 124 0)[6 := 7]))"

lemma vector_5000_ok: "bv_ok vector_5000"
proof -
  let ?a = "(replicate 124 0)[6 := 7::nat]"
  have "hash_probe 124 (replicate 124 0) 7 (BITVEC_HASH (7 - 1)) = Some (6, False)"
    by (simp add: BITVEC_HASH_def hash_probe_free)
  from hash_ok_insert [OF hash_ok_empty(1) _ _ _ this] have "hash_ok ?a" "occupied ?a = 1"
    by (auto simp: hash_ok_empty)
  moreover have "set ?a \<subseteq> {0, 7}" using set_update_subset_insert [of "replicate 124 0" 6 "7::nat"] by auto
  ultimately show ?thesis by (auto simp: vector_5000_def bv_ok_def)
qed

theorem BitvecSet_spec_witness:
  "case sqlite3BitvecSet [] (Some vector_5000) 131 of
      Some (rc, Some p', ms') \<Rightarrow> bv_ok p' \<and> iSize p' = 5000 \<and>
        (rc = SQLITE_OK \<and> (\<forall>j. sqlite3BitvecTest (Some p') j \<longleftrightarrow> j = 131 \<or> sqlite3BitvecTest (Some vector_5000) j) \<or>
         rc = SQLITE_NOMEM \<and> \<not> malloc_succeeds [] \<and>
           (\<forall>j. sqlite3BitvecTest (Some p') j \<longrightarrow> j = 131 \<or> sqlite3BitvecTest (Some vector_5000) j))
    | _ \<Rightarrow> False"
proof -
  have size: "iSize vector_5000 = 5000" by (simp add: vector_5000_def)
  show ?thesis using BitvecSet_spec [OF vector_5000_ok, of 131 "[]", unfolded size] by simp
qed

text \<open>
  C10: A Bitvec of any size up to 2^32-62 behaves like a set under every sequence of sets and
  clears of valid indices, through all changes of representation, as long as memory can be
  allocated.
\<close>

theorem Bitvec_history:
  assumes "n \<le> 2 ^ 32 - 62" and "malloc_succeeds ms"
    and "\<forall>op\<in>set ops. 0 < page_of op \<and> page_of op \<le> n"
  shows "\<exists>p ms0 p' ms'. sqlite3BitvecCreate ms n = (Some p, ms0) \<and>
    bv.run ms0 p ops = Some (p', ms') \<and> {i. sqlite3BitvecTest (Some p') i} = reference {} ops"
proof -
  obtain p ms0 where c: "sqlite3BitvecCreate ms n = (Some p, ms0)" "malloc_succeeds ms0"
    using assms(2) by (cases "malloc_next ms") (auto simp: sqlite3BitvecCreate_def)
  from BitvecCreate_wf [OF c(1)] assms(1) have p: "bv_ok p" "iSize p = n" "bits p = {}"
    by (auto simp: bv_ok_def)
  then have "{i. sqlite3BitvecTest (Some p) i} = {}" by (simp add: test_bits)
  with bv.run_reference [OF p(1) _ c(2), of ops] assms(3) p(2) c(1) show ?thesis by auto
qed

theorem Bitvec_history_witness:
  "\<exists>p ms0 p' ms'. sqlite3BitvecCreate [] 100000 = (Some p, ms0) \<and>
    bv.run ms0 p [Add 7, Add 99999, Remove 7] = Some (p', ms') \<and>
    {i. sqlite3BitvecTest (Some p') i} = {99999}"
proof -
  have "reference {} [Add 7, Add 99999, Remove 7] = {99999}" by auto
  with Bitvec_history [of 100000 "[]" "[Add 7, Add 99999, Remove 7]"] show ?thesis
    by (simp add: malloc_succeeds_def del: reference.simps)
qed








text \<open>Recording a list of pages, until a call fails.\<close>

fun set_pages :: "bool list \<Rightarrow> BtContent \<Rightarrow> nat list \<Rightarrow> BtContent option" where
  "set_pages ms pBt [] = Some pBt"
| "set_pages ms pBt (pg # pgs) =
     (case btreeSetHasContent ms pBt pg of
        Some (rc, pBt', ms') \<Rightarrow> if rc = SQLITE_OK then set_pages ms' pBt' pgs else None
      | None \<Rightarrow> None)"

lemma set_pages_content:
  assumes "content_ok pBt" "\<forall>pg\<in>set pgs. 0 < pg" "set_pages ms pBt pgs = Some pBt'"
  shows "btreeGetHasContent pBt' q \<longleftrightarrow> q \<in> set pgs \<or>
    (if pHasContent pBt = None then pgs \<noteq> [] \<and> nPage pBt < q else btreeGetHasContent pBt q)"
  using assms
proof (induction pgs arbitrary: ms pBt)
  case Nil
  then show ?case by (auto simp: btreeGetHasContent_def)
next
  case (Cons pg pgs)
  then obtain pBt1 ms1 where s: "btreeSetHasContent ms pBt pg = Some (SQLITE_OK, pBt1, ms1)"
    and r: "set_pages ms1 pBt1 pgs = Some pBt'"
    by (auto split: option.splits prod.splits if_splits)
  have step: "content_ok pBt1 \<and> pHasContent pBt1 \<noteq> None \<and> nPage pBt1 = nPage pBt \<and>
    (btreeGetHasContent pBt1 q \<longleftrightarrow> q = pg \<or>
      (if pHasContent pBt = None then nPage pBt < q else btreeGetHasContent pBt q))"
    using Cons.prems s by (intro SetHasContent_step) auto
  with Cons.IH [OF _ _ r] Cons.prems show ?case by auto
qed

text \<open>
  C34: After successful calls of btreeSetHasContent in a transaction, btreeGetHasContent
  answers true for exactly the pages recorded and the pages past the size the database had at
  the first call.
\<close>

theorem HasContent_exact:
  assumes "n \<le> 2 ^ 32 - 62" and "pgs \<noteq> []" and "\<forall>pg\<in>set pgs. 0 < pg"
    and "set_pages ms \<lparr>nPage = n, pHasContent = None\<rparr> pgs = Some pBt"
  shows "btreeGetHasContent pBt q \<longleftrightarrow> q \<in> set pgs \<or> n < q"
  using set_pages_content [OF _ assms(3,4)] assms(1,2) by (simp add: content_ok_def)

theorem HasContent_exact_witness:
  "\<exists>pBt. set_pages [] \<lparr>nPage = 20, pHasContent = None\<rparr> [3, 8] = Some pBt \<and>
    btreeGetHasContent pBt 8 \<and> \<not> btreeGetHasContent pBt 9"
proof -
  have "set_pages [] \<lparr>nPage = 20, pHasContent = None\<rparr> [3, 8] \<noteq> None" by code_simp
  then obtain pBt where r: "set_pages [] \<lparr>nPage = 20, pHasContent = None\<rparr> [3, 8] = Some pBt" by auto
  from HasContent_exact [OF _ _ _ r, of 8] HasContent_exact [OF _ _ _ r, of 9] r show ?thesis by auto
qed

end
