(* ===== verification/Vdbe_Record.thy ===== *)
theory Vdbe_Record
  imports Varint_Roundtrip
begin

text \<open>
  The record format of tables and indices: serial types, the opcode MakeRecord that builds a
  record from registers, and the routines of vdbeaux.c that take one apart and compare it
  with a key.  An IEEE number is its 64-bit pattern; the arithmetic on such numbers and the
  collating functions are arguments of the comparison.
\<close>

section \<open>Registers\<close>

record Mem =
  flags :: u16
  u_i :: i64         \<comment> \<open>u.i\<close>
  u_nZero :: nat     \<comment> \<open>u.nZero\<close>
  r :: u64           \<comment> \<open>the bits of the double r\<close>
  n :: nat
  z :: bytes

abbreviation "MEM_Null \<equiv> (0x0001::u16)"
abbreviation "MEM_Str \<equiv> (0x0002::u16)"
abbreviation "MEM_Int \<equiv> (0x0004::u16)"
abbreviation "MEM_Real \<equiv> (0x0008::u16)"
abbreviation "MEM_Blob \<equiv> (0x0010::u16)"
abbreviation "MEM_Term \<equiv> (0x0200::u16)"
abbreviation "MEM_Dyn \<equiv> (0x0400::u16)"
abbreviation "MEM_Static \<equiv> (0x0800::u16)"
abbreviation "MEM_Ephem \<equiv> (0x1000::u16)"
abbreviation "MEM_Zero \<equiv> (0x4000::u16)"

definition has :: "Mem \<Rightarrow> u16 \<Rightarrow> bool" where
  "has m f \<longleftrightarrow> flags m AND f \<noteq> 0"

definition blank :: Mem where
  "blank = \<lparr>flags = 0, u_i = 0, u_nZero = 0, r = 0, n = 0, z = []\<rparr>"



section \<open>Serial types\<close>

definition MAX_6BYTE :: i64 where
  "MAX_6BYTE = push_bit 32 0x8000 - 1"

definition sqlite3VdbeSerialType :: "Mem \<Rightarrow> nat \<Rightarrow> u32" where
  "sqlite3VdbeSerialType m file_format =
     (if has m MEM_Null then 0
      else if has m MEM_Int then
        (let i = u_i m in
         if 4 \<le> file_format \<and> i AND 1 = i then 8 + ucast i
         else if i <s 0 \<and> i <s - MAX_6BYTE then 6
         else
           (let u = (if i <s 0 then - i else i) in
            if u \<le> 127 then 1
            else if u \<le> 32767 then 2
            else if u \<le> 8388607 then 3
            else if u \<le> 2147483647 then 4
            else if u \<le> MAX_6BYTE then 5
            else 6))
      else if has m MEM_Real then 7
      else
        (let n = (if has m MEM_Zero then n m + u_nZero m else n m)
         in of_nat (n * 2) + 12 + (if has m MEM_Str then 1 else 0)))"

definition sqlite3VdbeSerialTypeLen :: "u32 \<Rightarrow> nat" where
  "sqlite3VdbeSerialTypeLen serial_type =
     (if 12 \<le> serial_type then unat ((serial_type - 12) div 2)
      else [0, 1, 2, 3, 4, 6, 8, 8, 0, 0, 0, 0] ! unat serial_type)"

text \<open>The while loop of sqlite3VdbeSerialPut: the low byte goes last.\<close>

fun put_be :: "nat \<Rightarrow> u64 \<Rightarrow> bytes" where
  "put_be 0 v = []"
| "put_be (Suc i) v = put_be i (drop_bit 8 v) @ [ucast (v AND 0xff)]"

definition sqlite3VdbeSerialPut :: "nat \<Rightarrow> Mem \<Rightarrow> nat \<Rightarrow> nat \<times> bytes" where
  "sqlite3VdbeSerialPut nBuf m file_format =
     (let serial_type = sqlite3VdbeSerialType m file_format in
      if serial_type \<le> 7 \<and> 0 < serial_type then
        (let v = (if serial_type = 7 then r m else u_i m);
             len = sqlite3VdbeSerialTypeLen serial_type
         in (len, put_be len v))
      else if 12 \<le> serial_type then
        (if has m MEM_Zero
         then (let len = min (n m + u_nZero m) nBuf
               in (len, take (n m) (z m) @ replicate (len - n m) 0))
         else (n m, take (n m) (z m)))
      else (0, []))"

text \<open>A NaN has all exponent bits set and a fraction; it is the only value not equal to itself.\<close>

definition sqlite3IsNaN :: "u64 \<Rightarrow> bool" where
  "sqlite3IsNaN x \<longleftrightarrow> drop_bit 52 x AND 0x7ff = 0x7ff \<and> take_bit 52 x \<noteq> 0"

text \<open>(signed char)b, widened to an int of 32 bits.\<close>

definition schar :: "u8 \<Rightarrow> u32" where "schar b = signed_take_bit 7 (ucast b)"

definition int_to_i64 :: "u32 \<Rightarrow> i64" where "int_to_i64 x = signed_take_bit 31 (ucast x)"

definition sqlite3VdbeSerialGet :: "bytes \<Rightarrow> u32 \<Rightarrow> (nat \<times> Mem) option" where
  "sqlite3VdbeSerialGet buf serial_type =
     (if serial_type = 10 \<or> serial_type = 11 \<or> serial_type = 0 then
        Some (0, blank\<lparr>flags := MEM_Null\<rparr>)
      else if serial_type = 1 then do {
        b0 \<leftarrow> rd buf 0;
        Some (1, blank\<lparr>u_i := int_to_i64 (schar b0), flags := MEM_Int\<rparr>) }
      else if serial_type = 2 then do {
        b0 \<leftarrow> rd buf 0; b1 \<leftarrow> rd buf 1;
        Some (2, blank\<lparr>u_i := int_to_i64 (push_bit 8 (schar b0) OR ucast b1), flags := MEM_Int\<rparr>) }
      else if serial_type = 3 then do {
        b0 \<leftarrow> rd buf 0; b1 \<leftarrow> rd buf 1; b2 \<leftarrow> rd buf 2;
        Some (3, blank\<lparr>u_i := int_to_i64 (push_bit 16 (schar b0) OR push_bit 8 (ucast b1) OR ucast b2),
                       flags := MEM_Int\<rparr>) }
      else if serial_type = 4 then do {
        b0 \<leftarrow> rd buf 0; b1 \<leftarrow> rd buf 1; b2 \<leftarrow> rd buf 2; b3 \<leftarrow> rd buf 3;
        Some (4, blank\<lparr>u_i := int_to_i64 (push_bit 24 (ucast b0) OR push_bit 16 (ucast b1)
                         OR push_bit 8 (ucast b2) OR ucast b3), flags := MEM_Int\<rparr>) }
      else if serial_type = 5 then do {
        b0 \<leftarrow> rd buf 0; b1 \<leftarrow> rd buf 1; b2 \<leftarrow> rd buf 2; b3 \<leftarrow> rd buf 3; b4 \<leftarrow> rd buf 4; b5 \<leftarrow> rd buf 5;
        let x = int_to_i64 (push_bit 8 (schar b0) OR ucast b1);
        let y = (push_bit 24 (ucast b2) OR push_bit 16 (ucast b3) OR push_bit 8 (ucast b4) OR ucast b5 :: u32);
        Some (6, blank\<lparr>u_i := push_bit 32 x OR ucast y, flags := MEM_Int\<rparr>) }
      else if serial_type = 6 \<or> serial_type = 7 then do {
        b0 \<leftarrow> rd buf 0; b1 \<leftarrow> rd buf 1; b2 \<leftarrow> rd buf 2; b3 \<leftarrow> rd buf 3;
        b4 \<leftarrow> rd buf 4; b5 \<leftarrow> rd buf 5; b6 \<leftarrow> rd buf 6; b7 \<leftarrow> rd buf 7;
        let x = int_to_i64 (push_bit 24 (ucast b0) OR push_bit 16 (ucast b1) OR push_bit 8 (ucast b2) OR ucast b3);
        let y = (push_bit 24 (ucast b4) OR push_bit 16 (ucast b5) OR push_bit 8 (ucast b6) OR ucast b7 :: u32);
        let x = push_bit 32 x OR ucast y;
        if serial_type = 6 then Some (8, blank\<lparr>u_i := x, flags := MEM_Int\<rparr>)
        else Some (8, blank\<lparr>r := x, flags := (if sqlite3IsNaN x then MEM_Null else MEM_Real)\<rparr>) }
      else if serial_type = 8 \<or> serial_type = 9 then
        Some (0, blank\<lparr>u_i := ucast (serial_type - 8), flags := MEM_Int\<rparr>)
      else
        (let len = unat ((serial_type - 12) div 2) in
         Some (len, blank\<lparr>z := take len buf, n := len,
           flags := (if serial_type AND 1 \<noteq> 0 then MEM_Str OR MEM_Ephem else MEM_Blob OR MEM_Ephem)\<rparr>)))"

section \<open>Building a record\<close>






section \<open>Taking a record apart\<close>



section \<open>Comparing\<close>






abbreviation "UNPACKED_INCRKEY \<equiv> (0x01::u8)"
abbreviation "UNPACKED_PREFIX_MATCH \<equiv> (0x02::u8)"
abbreviation "UNPACKED_PREFIX_SEARCH \<equiv> (0x04::u8)"




section \<open>Integers survive\<close>

lemma signed_take_bit_fits:
  fixes v :: i64
  assumes "- (2 ^ k) \<le> sint v" and "sint v < 2 ^ k" and "k < 64"
  shows "signed_take_bit k v = v"
proof (rule bit_word_eqI)
  fix j assume j: "j < LENGTH(64)"
  have "signed_take_bit k (sint v) = sint v" using assms(1,2) by (rule signed_take_bit_int_eq_self)
  then have "bit (sint v) j = bit (signed_take_bit k (sint v)) j" by simp
  then have "bit (sint v) j = bit (sint v) (min j k)" by (simp add: bit_signed_take_bit_iff min.commute)
  moreover have "bit (sint v) x = bit v x" if "x < 64" for x
    using bit_sint_iff [of v x] that by simp
  ultimately have "bit v j = bit v (min j k)" using j assms(3) by simp
  then show "bit (signed_take_bit k v) j = bit v j"
    using j by (simp add: bit_signed_take_bit_iff possible_bit_def min.commute)
qed

lemma magnitude_bound:
  fixes i b :: i64
  assumes "(if i <s 0 then - i else i) \<le> b" and "\<not> bit b 63"
  shows "- sint b \<le> sint i" and "sint i \<le> sint b"
proof -
  have sint: "sint x = uint x - (if bit x 63 then 2 ^ 64 else 0)" for x :: i64
  proof -
    have "take_bit 64 (uint x) = uint x" using unsigned_less [of x, where ?'a = int] by (simp add: take_bit_int_eq_self)
    then show ?thesis by (simp add: sint_uint signed_take_bit_eq_take_bit_minus bit_uint_iff)
  qed
  have b: "sint b = uint b" using assms(2) by (simp add: sint)
  note s = sint [of i]
  have neg: "i <s 0 \<longleftrightarrow> bit i 63"
    by (simp add: word_sless_alt s) (use unsigned_less [of i, where ?'a = int] in auto)
  have "uint (- i) = (if i = 0 then 0 else 2 ^ 64 - uint i)"
  proof (cases "i = 0")
    case False
    then have "uint i \<noteq> 0" by (simp add: uint_0_iff)
    moreover have "uint i < 2 ^ 64" using unsigned_less [of i, where ?'a = int] by simp
    ultimately have "0 < uint i" "uint i < 2 ^ 64" by (simp_all add: order_less_le)
    moreover have "uint (- i) = (2 ^ 64 - uint i) mod 2 ^ 64"
      by (simp only: uint_word_ariths minus_mod_self1 len_bit0 len_num1) simp
    ultimately have "uint (- i) = 2 ^ 64 - uint i" by (simp only: mod_pos_pos_trivial diff_ge_0_iff_ge less_imp_le)
    then show ?thesis using False by simp
  qed simp
  moreover have "- uint b \<le> uint i"
    using unsigned_greater_eq [of i, where ?'a = int] unsigned_greater_eq [of b, where ?'a = int] by linarith
  ultimately show "- sint b \<le> sint i" "sint i \<le> sint b"
    using assms(1) neg s b unsigned_less [of i, where ?'a = int] unsigned_less [of b, where ?'a = int]
    by (auto simp: word_le_def split: if_splits)
qed

lemma mask_0xff [bitvec_simps]: "(0xff::'a::len word) = mask 8"
  by (simp add: mask_eq_exp_minus_1)

lemma put_be_alt:
  "put_be 1 v = [ucast v]"
  "put_be 2 v = [ucast (drop_bit 8 v), ucast v]"
  "put_be 3 v = [ucast (drop_bit 16 v), ucast (drop_bit 8 v), ucast v]"
  "put_be 4 v = [ucast (drop_bit 24 v), ucast (drop_bit 16 v), ucast (drop_bit 8 v), ucast v]"
  "put_be 6 v = [ucast (drop_bit 40 v), ucast (drop_bit 32 v), ucast (drop_bit 24 v),
     ucast (drop_bit 16 v), ucast (drop_bit 8 v), ucast v]"
  "put_be 8 v = [ucast (drop_bit 56 v), ucast (drop_bit 48 v), ucast (drop_bit 40 v), ucast (drop_bit 32 v),
     ucast (drop_bit 24 v), ucast (drop_bit 16 v), ucast (drop_bit 8 v), ucast v]"
proof -
  have byte: "ucast (v AND 0xff) = (ucast v :: u8)" for v :: u64
    by (rule bit_word_eqI) (auto simp: bit_simps mask_0xff)
  have num: "put_be (numeral k) v = put_be (pred_numeral k) (drop_bit 8 v) @ [ucast v]" for k v
    by (simp add: numeral_eq_Suc byte)
  show "put_be 1 v = [ucast v]"
  "put_be 2 v = [ucast (drop_bit 8 v), ucast v]"
  "put_be 3 v = [ucast (drop_bit 16 v), ucast (drop_bit 8 v), ucast v]"
  "put_be 4 v = [ucast (drop_bit 24 v), ucast (drop_bit 16 v), ucast (drop_bit 8 v), ucast v]"
  "put_be 6 v = [ucast (drop_bit 40 v), ucast (drop_bit 32 v), ucast (drop_bit 24 v),
     ucast (drop_bit 16 v), ucast (drop_bit 8 v), ucast v]"
  "put_be 8 v = [ucast (drop_bit 56 v), ucast (drop_bit 48 v), ucast (drop_bit 40 v), ucast (drop_bit 32 v),
     ucast (drop_bit 24 v), ucast (drop_bit 16 v), ucast (drop_bit 8 v), ucast v]"
    by (simp_all add: num byte)
qed

lemma length_put_be [simp]: "length (put_be k v) = k"
  by (induction k arbitrary: v) auto

lemma int_bytes:
  fixes v :: i64
  shows "int_to_i64 (schar (ucast v)) = signed_take_bit 7 v"
    and "int_to_i64 (push_bit 8 (schar (ucast (drop_bit 8 v))) OR ucast (ucast v :: u8)) = signed_take_bit 15 v"
    and "int_to_i64 (push_bit 16 (schar (ucast (drop_bit 16 v))) OR push_bit 8 (ucast (ucast (drop_bit 8 v) :: u8)) OR
       ucast (ucast v :: u8)) = signed_take_bit 23 v"
    and "int_to_i64 (push_bit 24 (ucast (ucast (drop_bit 24 v) :: u8)) OR push_bit 16 (ucast (ucast (drop_bit 16 v) :: u8)) OR
       push_bit 8 (ucast (ucast (drop_bit 8 v) :: u8)) OR ucast (ucast v :: u8)) = signed_take_bit 31 v"
  unfolding int_to_i64_def schar_def
  apply (simp_all only: bits_u64 bitvec_simps)
  apply (simp_all add: bit_simps bitvec_simps)
  apply (simp_all add: upt64 bitvec_simps)
  done

lemma long_bytes:
  fixes v :: i64 and w :: u32
  shows "(push_bit 24 (ucast (ucast (drop_bit 24 v) :: u8)) OR push_bit 16 (ucast (ucast (drop_bit 16 v) :: u8)) OR
       push_bit 8 (ucast (ucast (drop_bit 8 v) :: u8)) OR ucast (ucast v :: u8) :: u32) = ucast v"
    and "push_bit 32 (signed_take_bit 15 (drop_bit 32 v)) OR ucast (ucast v :: u32) = signed_take_bit 47 v"
    and "push_bit 32 (signed_take_bit 31 (drop_bit 32 v)) OR ucast (ucast v :: u32) = v"
  apply (simp_all only: bits_u64 bits_u32 bitvec_simps)
  apply (simp_all add: bit_simps bitvec_simps)
  apply (simp_all add: upt64 upt32 bitvec_simps)
  done

lemma SerialGet_int:
  "sqlite3VdbeSerialGet (put_be 1 v @ rest) 1 = Some (1, blank\<lparr>u_i := signed_take_bit 7 v, flags := MEM_Int\<rparr>)"
  "sqlite3VdbeSerialGet (put_be 2 v @ rest) 2 = Some (2, blank\<lparr>u_i := signed_take_bit 15 v, flags := MEM_Int\<rparr>)"
  "sqlite3VdbeSerialGet (put_be 3 v @ rest) 3 = Some (3, blank\<lparr>u_i := signed_take_bit 23 v, flags := MEM_Int\<rparr>)"
  "sqlite3VdbeSerialGet (put_be 4 v @ rest) 4 = Some (4, blank\<lparr>u_i := signed_take_bit 31 v, flags := MEM_Int\<rparr>)"
  "sqlite3VdbeSerialGet (put_be 6 v @ rest) 5 = Some (6, blank\<lparr>u_i := signed_take_bit 47 v, flags := MEM_Int\<rparr>)"
  "sqlite3VdbeSerialGet (put_be 8 v @ rest) 6 = Some (8, blank\<lparr>u_i := v, flags := MEM_Int\<rparr>)"
  "sqlite3VdbeSerialGet (put_be 8 v @ rest) 7 =
     Some (8, blank\<lparr>r := v, flags := (if sqlite3IsNaN v then MEM_Null else MEM_Real)\<rparr>)"
proof -
  have dd: "drop_bit 40 v = drop_bit 8 (drop_bit 32 v)" "drop_bit 48 v = drop_bit 16 (drop_bit 32 v)"
    "drop_bit 56 v = drop_bit 24 (drop_bit 32 v)" by simp_all
  show "sqlite3VdbeSerialGet (put_be 1 v @ rest) 1 = Some (1, blank\<lparr>u_i := signed_take_bit 7 v, flags := MEM_Int\<rparr>)"
    "sqlite3VdbeSerialGet (put_be 2 v @ rest) 2 = Some (2, blank\<lparr>u_i := signed_take_bit 15 v, flags := MEM_Int\<rparr>)"
    "sqlite3VdbeSerialGet (put_be 3 v @ rest) 3 = Some (3, blank\<lparr>u_i := signed_take_bit 23 v, flags := MEM_Int\<rparr>)"
    "sqlite3VdbeSerialGet (put_be 4 v @ rest) 4 = Some (4, blank\<lparr>u_i := signed_take_bit 31 v, flags := MEM_Int\<rparr>)"
    by (simp_all only: put_be_alt) (simp_all add: sqlite3VdbeSerialGet_def int_bytes)
  have y: "(push_bit 24 (ucast (ucast (drop_bit 24 v) :: u8)) OR push_bit 16 (ucast (ucast (drop_bit 16 v) :: u8)) OR
       push_bit 8 (ucast (ucast (drop_bit 8 v) :: u8)) OR ucast (ucast v :: u8) :: u32) = ucast v"
    by (rule long_bytes)
  show "sqlite3VdbeSerialGet (put_be 6 v @ rest) 5 = Some (6, blank\<lparr>u_i := signed_take_bit 47 v, flags := MEM_Int\<rparr>)"
    using int_bytes(2) [of "drop_bit 32 v"] long_bytes(2) [of v]
    unfolding put_be_alt dd by (simp add: sqlite3VdbeSerialGet_def y)
  show "sqlite3VdbeSerialGet (put_be 8 v @ rest) 6 = Some (8, blank\<lparr>u_i := v, flags := MEM_Int\<rparr>)"
    "sqlite3VdbeSerialGet (put_be 8 v @ rest) 7 =
     Some (8, blank\<lparr>r := v, flags := (if sqlite3IsNaN v then MEM_Null else MEM_Real)\<rparr>)"
    using int_bytes(4) [of "drop_bit 32 v"] long_bytes(3) [of v]
    unfolding put_be_alt dd by (simp_all add: sqlite3VdbeSerialGet_def y)
qed


section \<open>One field\<close>

text \<open>What a stored register reads back as, and its bytes.\<close>

definition canon :: "Mem \<Rightarrow> Mem" where
  "canon m =
     (if has m MEM_Null then blank\<lparr>flags := MEM_Null\<rparr>
      else if has m MEM_Int then blank\<lparr>u_i := u_i m, flags := MEM_Int\<rparr>
      else if has m MEM_Real then blank\<lparr>r := r m, flags := (if sqlite3IsNaN (r m) then MEM_Null else MEM_Real)\<rparr>
      else (let bs = take (n m) (z m) @ (if has m MEM_Zero then replicate (u_nZero m) 0 else [])
            in blank\<lparr>z := bs, n := length bs,
                 flags := (if has m MEM_Str then MEM_Str OR MEM_Ephem else MEM_Blob OR MEM_Ephem)\<rparr>))"

definition mem_ok :: "Mem \<Rightarrow> bool" where
  "mem_ok m \<longleftrightarrow> n m = length (z m) \<and> n m + (if has m MEM_Zero then u_nZero m else 0) < 2 ^ 30"

abbreviation "stype m ff \<equiv> sqlite3VdbeSerialType m ff"
abbreviation "slen m ff \<equiv> sqlite3VdbeSerialTypeLen (stype m ff)"

lemma int_serial_cases:
  assumes "\<not> has m MEM_Null" and "has m MEM_Int"
  obtains (const) "u_i m AND 1 = u_i m" "stype m ff = 8 + ucast (u_i m)"
  | (width) t L k where "(t, L, k) \<in> {(1, 1, 7), (2, 2, 15), (3, 3, 23), (4, 4, 31), (5, 6, 47), (6, 8, 63)}"
      "stype m ff = t" "signed_take_bit k (u_i m) = u_i m"
proof -
  let ?i = "u_i m"
  have st: "stype m ff = (if 4 \<le> ff \<and> ?i AND 1 = ?i then 8 + ucast ?i
         else if ?i <s 0 \<and> ?i <s - MAX_6BYTE then 6
         else (let u = (if ?i <s 0 then - ?i else ?i) in
            if u \<le> 127 then 1 else if u \<le> 32767 then 2 else if u \<le> 8388607 then 3
            else if u \<le> 2147483647 then 4 else if u \<le> MAX_6BYTE then 5 else 6))"
    using assms by (simp add: sqlite3VdbeSerialType_def Let_def)
  have fits: "signed_take_bit k ?i = ?i" if "(if ?i <s 0 then - ?i else ?i) \<le> b" "\<not> bit b 63" "sint b < 2 ^ k" "k < 64"
    for b k
    using magnitude_bound [OF that(1,2)] that(3,4) by (intro signed_take_bit_fits) auto
  have max: "MAX_6BYTE = 0x7fffffffffff" by (simp add: MAX_6BYTE_def)
  have full: "signed_take_bit 63 ?i = ?i"
    using sint_greater_eq [of ?i] sint_less [of ?i] by (intro signed_take_bit_fits) simp_all
  show ?thesis
  proof (cases "4 \<le> ff \<and> ?i AND 1 = ?i")
    case True
    then show ?thesis using st by (intro const) auto
  next
    case False
    let ?u = "if ?i <s 0 then - ?i else ?i"
    consider "stype m ff = 6" | "stype m ff = 1" "?u \<le> 127" | "stype m ff = 2" "?u \<le> 32767" | "stype m ff = 3" "?u \<le> 8388607"
      | "stype m ff = 4" "?u \<le> 2147483647" | "stype m ff = 5" "?u \<le> MAX_6BYTE"
      using st False by (auto simp: Let_def split: if_splits)
    then show ?thesis
    proof cases
      case 1
      then show ?thesis using full by (intro width) auto
    next
      case 2
      then show ?thesis using fits [of 127 7] by (intro width [of 1 1 7]) auto
    next
      case 3
      then show ?thesis using fits [of 32767 15] by (intro width [of 2 2 15]) auto
    next
      case 4
      then show ?thesis using fits [of 8388607 23] by (intro width [of 3 3 23]) auto
    next
      case 5
      then show ?thesis using fits [of 2147483647 31] by (intro width [of 4 4 31]) auto
    next
      case 6
      then show ?thesis using fits [of MAX_6BYTE 47] unfolding max by (intro width [of 5 6 47]) auto
    qed
  qed
qed


text \<open>The type and the bytes of a text or blob of length l.\<close>

lemma blob_type:
  assumes "l < 2 ^ 30" and "b \<le> (1::nat)"
  defines "t \<equiv> of_nat (l * 2) + 12 + of_nat b :: u32"
  shows "unat t = l * 2 + 12 + b" and "12 \<le> t" and "sqlite3VdbeSerialTypeLen t = l"
    and "t AND 1 \<noteq> 0 \<longleftrightarrow> b = 1" and "t \<notin> {0, 1, 2, 3, 4, 5, 6, 7, 8, 9, 10, 11}"
proof -
  have t: "t = of_nat (l * 2 + 12 + b)" by (simp add: t_def)
  show u: "unat t = l * 2 + 12 + b" unfolding t using assms(1,2) by (simp only: unsigned_of_nat take_bit_eq_mod) simp
  then show le: "12 \<le> t" by (simp add: word_le_nat_alt)
  have "unat ((t - 12) div 2) = unat (t - 12) div 2" by (simp add: unat_div)
  also have "unat (t - 12) = l * 2 + b" using u le by (simp add: unat_sub)
  finally have "unat ((t - 12) div 2) = l" using assms(2) by simp
  then show "sqlite3VdbeSerialTypeLen t = l" using le by (simp add: sqlite3VdbeSerialTypeLen_def)
  have "t AND 1 \<noteq> 0 \<longleftrightarrow> odd (unat t)"
    using bit_unsigned_iff [of t 0, where ?'a = nat] by (simp add: and_one_eq mod_2_eq_odd bit_0)
  then show "t AND 1 \<noteq> 0 \<longleftrightarrow> b = 1" using u assms(2) by (auto simp: le_Suc_eq)
  show "t \<notin> {0, 1, 2, 3, 4, 5, 6, 7, 8, 9, 10, 11}"
    using u by (auto dest: arg_cong [of _ _ unat])
qed

lemma SerialGet_blob:
  assumes "l < 2 ^ 30" and "b \<le> (1::nat)" and "t = of_nat (l * 2) + 12 + of_nat b" and "length bs = l"
  shows "sqlite3VdbeSerialGet (bs @ rest) t =
    Some (l, blank\<lparr>z := bs, n := l, flags := (if b = 1 then MEM_Str OR MEM_Ephem else MEM_Blob OR MEM_Ephem)\<rparr>)"
proof -
  note bt = blob_type [OF assms(1,2), folded assms(3)]
  have "unat ((t - 12) div 2) = l" using bt(2,3) by (simp add: sqlite3VdbeSerialTypeLen_def)
  with bt(4,5) assms(4) show ?thesis by (simp add: sqlite3VdbeSerialGet_def)
qed

lemma SerialPut_Get:
  assumes ok: "mem_ok m" and room: "has m MEM_Zero \<longrightarrow> slen m ff \<le> nBuf"
  shows "\<exists>bs. sqlite3VdbeSerialPut nBuf m ff = (slen m ff, bs) \<and> length bs = slen m ff \<and>
    sqlite3VdbeSerialGet (bs @ rest) (stype m ff) = Some (slen m ff, canon m)"
proof -
  consider (null) "has m MEM_Null" | (int) "\<not> has m MEM_Null" "has m MEM_Int"
    | (real) "\<not> has m MEM_Null" "\<not> has m MEM_Int" "has m MEM_Real"
    | (blob) "\<not> has m MEM_Null" "\<not> has m MEM_Int" "\<not> has m MEM_Real" by blast
  then show ?thesis
  proof cases
    case null
    then have "stype m ff = 0" by (simp add: sqlite3VdbeSerialType_def)
    with null show ?thesis
      by (simp add: sqlite3VdbeSerialPut_def sqlite3VdbeSerialTypeLen_def sqlite3VdbeSerialGet_def canon_def)
  next
    case int
    show ?thesis
    proof (rule int_serial_cases [OF int, where ff = ff])
      assume const: "u_i m AND 1 = u_i m" "stype m ff = 8 + ucast (u_i m)"
      obtain b where b: "u_i m = of_bool b" using const(1) by (metis and_one_eq mod_2_eq_odd)
      have "stype m ff = (if b then 9 else 8)" unfolding const(2) b by simp
      with int b show ?thesis
        by (cases b) (simp_all add: sqlite3VdbeSerialPut_def sqlite3VdbeSerialTypeLen_def sqlite3VdbeSerialGet_def canon_def)
    next
      fix t :: u32 and L k :: nat
      assume width: "(t, L, k) \<in> {(1, 1, 7), (2, 2, 15), (3, 3, 23), (4, 4, 31), (5, 6, 47), (6, 8, 63)}"
        "stype m ff = t" "signed_take_bit k (u_i m) = u_i m"
      have len: "slen m ff = L" using width by (auto simp: sqlite3VdbeSerialTypeLen_def word_le_nat_alt)
      have put: "sqlite3VdbeSerialPut nBuf m ff = (L, put_be L (u_i m))"
        using width len by (auto simp: sqlite3VdbeSerialPut_def Let_def word_le_nat_alt word_less_nat_alt)
      have "sqlite3VdbeSerialGet (put_be L (u_i m) @ rest) t = Some (L, blank\<lparr>u_i := u_i m, flags := MEM_Int\<rparr>)"
        using width(1,3) SerialGet_int [of "u_i m" rest] by auto
      with put len width(2) int show ?thesis by (simp add: canon_def)
    qed
  next
    case real
    then have "stype m ff = 7" by (simp add: sqlite3VdbeSerialType_def)
    with real SerialGet_int(7) [of "r m" rest] show ?thesis
      by (simp add: sqlite3VdbeSerialPut_def sqlite3VdbeSerialTypeLen_def canon_def Let_def)
  next
    case blob
    let ?b = "if has m MEM_Str then 1 else 0 :: nat"
    let ?l = "n m + (if has m MEM_Zero then u_nZero m else 0)"
    let ?bs = "take (n m) (z m) @ (if has m MEM_Zero then replicate (u_nZero m) 0 else [])"
    have l: "?l < 2 ^ 30" "length ?bs = ?l" using ok by (auto simp: mem_ok_def)
    have t: "stype m ff = of_nat (?l * 2) + 12 + of_nat ?b"
      using blob by (simp add: sqlite3VdbeSerialType_def Let_def)
    note bt = blob_type [OF l(1), of ?b, folded t]
    have len: "slen m ff = ?l" using bt(3) by simp
    have "sqlite3VdbeSerialPut nBuf m ff = (?l, ?bs)"
      using bt(1,2) room len by (auto simp: sqlite3VdbeSerialPut_def Let_def word_le_nat_alt min_def)
    moreover have "sqlite3VdbeSerialGet (?bs @ rest) (stype m ff) = Some (?l, canon m)"
      using SerialGet_blob [OF l(1) _ t l(2), of rest] blob l(2) by (simp add: canon_def Let_def)
    ultimately show ?thesis using len l(2) by auto
  qed
qed

section \<open>A whole record\<close>



definition data_size :: "nat \<Rightarrow> Mem list \<Rightarrow> nat" where
  "data_size ff recs = (\<Sum>m\<leftarrow>recs. slen m ff)"










lemma data_size_simps [simp]:
  "data_size ff [] = 0" "data_size ff (m # ms) = slen m ff + data_size ff ms"
  "data_size ff (xs @ ys) = data_size ff xs + data_size ff ys"
  by (simp_all add: data_size_def)



















section \<open>Comparing a record with a key\<close>



















text \<open>
  C14: sqlite3VdbeSerialPut writes exactly the number of bytes that sqlite3VdbeSerialTypeLen
  announces for the serial type of the register, and sqlite3VdbeSerialGet reads the value back
  from them.
\<close>

theorem Serial_roundtrip:
  assumes "mem_ok m" and "has m MEM_Zero \<longrightarrow> sqlite3VdbeSerialTypeLen (sqlite3VdbeSerialType m ff) \<le> nBuf"
  shows "\<exists>bs. sqlite3VdbeSerialPut nBuf m ff = (length bs, bs) \<and>
    length bs = sqlite3VdbeSerialTypeLen (sqlite3VdbeSerialType m ff) \<and>
    sqlite3VdbeSerialGet (bs @ rest) (sqlite3VdbeSerialType m ff) = Some (length bs, canon m)"
  using SerialPut_Get [OF assms, of rest] by auto

theorem Serial_roundtrip_witness:
  "\<exists>bs. length bs = 6 \<and> sqlite3VdbeSerialGet (bs @ [1]) 5 =
     Some (6, blank\<lparr>flags := MEM_Int, u_i := -0x123456789\<rparr>)"
proof -
  define m where "m = blank\<lparr>flags := MEM_Int, u_i := -0x123456789\<rparr>"
  have "mem_ok m" "\<not> has m MEM_Zero" "canon m = m"
    by (simp_all add: m_def mem_ok_def canon_def has_def blank_def)
  moreover have "sqlite3VdbeSerialType m 4 = 5" unfolding m_def by code_simp
  ultimately show ?thesis using Serial_roundtrip [of m 4 0 "[1]"]
    by (auto simp: m_def sqlite3VdbeSerialTypeLen_def)
qed

end
