(* ===== verification/Unix_Locks.thy ===== *)
theory Unix_Locks
  imports Sqlite_Prelude
begin

text \<open>
  The locks of a database file in os_unix.c: unixLock, unixUnlock and unixClose on top of the
  advisory byte-range locks of the operating system, which are arguments of the model.  A call is
  a program whose system calls are visible, so that processes interleave at every fcntl.
\<close>

section \<open>Lock levels and system calls\<close>

datatype lock = NO_LOCK | SHARED_LOCK | RESERVED_LOCK | PENDING_LOCK | EXCLUSIVE_LOCK

primrec level :: "lock \<Rightarrow> nat" where
  "level NO_LOCK = 0"
| "level SHARED_LOCK = 1"
| "level RESERVED_LOCK = 2"
| "level PENDING_LOCK = 3"
| "level EXCLUSIVE_LOCK = 4"

lemma level_inject: "level a = level b \<longleftrightarrow> a = b"
  by (cases a; cases b) simp_all

instantiation lock :: linorder
begin

definition less_eq_lock :: "lock \<Rightarrow> lock \<Rightarrow> bool" where "less_eq_lock a b \<longleftrightarrow> level a \<le> level b"
definition less_lock :: "lock \<Rightarrow> lock \<Rightarrow> bool" where "less_lock a b \<longleftrightarrow> level a < level b"

instance
  by standard (auto simp: less_eq_lock_def less_lock_def level_inject)

end

lemmas level_order = less_eq_lock_def less_lock_def

definition PENDING_BYTE :: nat where "PENDING_BYTE = 0x40000000"
definition RESERVED_BYTE :: nat where "RESERVED_BYTE = PENDING_BYTE + 1"
definition SHARED_FIRST :: nat where "SHARED_FIRST = PENDING_BYTE + 2"
definition SHARED_SIZE :: nat where "SHARED_SIZE = 510"

datatype errno = EAGAIN | ETIMEDOUT | EBUSY | EINTR | ENOLCK | EACCES | EPERM | Other_errno nat

definition sqliteErrorFromPosixError :: "errno \<Rightarrow> result_code \<Rightarrow> result_code" where
  "sqliteErrorFromPosixError posixError sqliteIOErr =
     (case posixError of
        EAGAIN \<Rightarrow> SQLITE_BUSY | ETIMEDOUT \<Rightarrow> SQLITE_BUSY | EBUSY \<Rightarrow> SQLITE_BUSY
      | EINTR \<Rightarrow> SQLITE_BUSY | ENOLCK \<Rightarrow> SQLITE_BUSY
      | EACCES \<Rightarrow> if sqliteIOErr = SQLITE_IOERR_LOCK \<or> sqliteIOErr = SQLITE_IOERR_UNLOCK \<or>
                    sqliteIOErr = SQLITE_IOERR_RDLOCK \<or> sqliteIOErr = SQLITE_IOERR_CHECKRESERVEDLOCK
                 then SQLITE_BUSY else SQLITE_PERM
      | EPERM \<Rightarrow> SQLITE_PERM
      | Other_errno _ \<Rightarrow> sqliteIOErr)"

datatype flock_type = F_RDLCK | F_WRLCK | F_UNLCK

record flock =
  l_type :: flock_type
  l_start :: nat
  l_len :: nat      \<comment> \<open>0 reaches to the end of the file\<close>

definition covers :: "flock \<Rightarrow> nat \<Rightarrow> bool" where
  "covers l b \<longleftrightarrow> l_start l \<le> b \<and> (l_len l = 0 \<or> b < l_start l + l_len l)"

text \<open>A program: its result, or a system call and how it goes on with the answer.\<close>

datatype 'a prog =
    Ret 'a
  | Setlk flock "errno option \<Rightarrow> 'a prog"       \<comment> \<open>fcntl(F_SETLK)\<close>
  | Getlk flock "errno + flock_type \<Rightarrow> 'a prog"  \<comment> \<open>fcntl(F_GETLK)\<close>
  | Close nat "'a prog"                        \<comment> \<open>close\<close>

primrec bind_prog :: "'a prog \<Rightarrow> ('a \<Rightarrow> 'b prog) \<Rightarrow> 'b prog" where
  "bind_prog (Ret a) k = k a"
| "bind_prog (Setlk l c) k = Setlk l (\<lambda>e. bind_prog (c e) k)"
| "bind_prog (Getlk l c) k = Getlk l (\<lambda>e. bind_prog (c e) k)"
| "bind_prog (Close fd c) k = Close fd (bind_prog c k)"

section \<open>Files\<close>

record unixInodeInfo =
  nShared :: int
  eFileLock :: lock
  bProcessLock :: bool
  nRef :: int
  nLock :: int
  pUnused :: "nat list"

record unixFile =
  h :: "nat option"        \<comment> \<open>None for -1\<close>
  fileLock :: lock         \<comment> \<open>eFileLock\<close>
  ctrl_excl :: bool        \<comment> \<open>UNIXFILE_EXCL in ctrlFlags\<close>
  ctrl_rdonly :: bool      \<comment> \<open>UNIXFILE_RDONLY in ctrlFlags\<close>
  lastErrno :: "errno option"

text \<open>The parts of the code after a call of unixFileLock are its continuation.\<close>

definition unixFileLock ::
  "unixFile \<Rightarrow> unixInodeInfo \<Rightarrow> flock \<Rightarrow> (errno option \<Rightarrow> unixInodeInfo \<Rightarrow> 'a prog) \<Rightarrow> 'a prog" where
  "unixFileLock pFile pInode lk k =
     (if (ctrl_excl pFile \<or> bProcessLock pInode) \<and> \<not> ctrl_rdonly pFile then
        (if \<not> bProcessLock pInode then
           Setlk \<lparr>l_type = F_WRLCK, l_start = SHARED_FIRST, l_len = SHARED_SIZE\<rparr>
             (\<lambda>rc. case rc of
                 Some e \<Rightarrow> k (Some e) pInode
               | None \<Rightarrow> k None (pInode\<lparr>bProcessLock := True, nLock := nLock pInode + 1\<rparr>))
         else k None pInode)
      else Setlk lk (\<lambda>rc. k rc pInode))"

primrec close_fds :: "nat list \<Rightarrow> 'a prog \<Rightarrow> 'a prog" where
  "close_fds [] c = c"
| "close_fds (fd # fds) c = Close fd (close_fds fds c)"

definition closePendingFds :: "unixInodeInfo \<Rightarrow> (unixInodeInfo \<Rightarrow> 'a prog) \<Rightarrow> 'a prog" where
  "closePendingFds pInode k = close_fds (pUnused pInode) (k (pInode\<lparr>pUnused := []\<rparr>))"

type_synonym call_result = "result_code \<times> unixFile \<times> unixInodeInfo"

section \<open>unixLock\<close>

definition note_errno :: "result_code \<Rightarrow> errno \<Rightarrow> unixFile \<Rightarrow> unixFile" where
  "note_errno rc e pFile = (if rc \<noteq> SQLITE_BUSY then pFile\<lparr>lastErrno := Some e\<rparr> else pFile)"

text \<open>The assignments before end_lock.\<close>

definition lock_done :: "result_code \<Rightarrow> unixFile \<Rightarrow> unixInodeInfo \<Rightarrow> lock \<Rightarrow> call_result prog" where
  "lock_done rc pFile pInode eLock =
     (if rc = SQLITE_OK then Ret (rc, pFile\<lparr>fileLock := eLock\<rparr>, pInode\<lparr>eFileLock := eLock\<rparr>)
      else if eLock = EXCLUSIVE_LOCK
      then Ret (rc, pFile\<lparr>fileLock := PENDING_LOCK\<rparr>, pInode\<lparr>eFileLock := PENDING_LOCK\<rparr>)
      else Ret (rc, pFile, pInode))"

definition lock_shared :: "unixFile \<Rightarrow> unixInodeInfo \<Rightarrow> call_result prog" where
  "lock_shared pFile pInode =
     unixFileLock pFile pInode \<lparr>l_type = F_RDLCK, l_start = SHARED_FIRST, l_len = SHARED_SIZE\<rparr> (\<lambda>e1 pInode.
     unixFileLock pFile pInode \<lparr>l_type = F_UNLCK, l_start = PENDING_BYTE, l_len = 1\<rparr> (\<lambda>e2 pInode.
       (case e1 of
          Some e \<Rightarrow> (let rc = sqliteErrorFromPosixError e SQLITE_IOERR_LOCK
                     in Ret (rc, note_errno rc e pFile, pInode))
        | None \<Rightarrow>
            (case e2 of
               Some e \<Rightarrow> Ret (SQLITE_IOERR_UNLOCK, note_errno SQLITE_IOERR_UNLOCK e pFile, pInode)
             | None \<Rightarrow> lock_done SQLITE_OK (pFile\<lparr>fileLock := SHARED_LOCK\<rparr>)
                         (pInode\<lparr>nLock := nLock pInode + 1, nShared := 1\<rparr>) SHARED_LOCK))))"

definition lock_main :: "unixFile \<Rightarrow> unixInodeInfo \<Rightarrow> lock \<Rightarrow> call_result prog" where
  "lock_main pFile pInode eLock =
     (if eLock = SHARED_LOCK then lock_shared pFile pInode
      else if eLock = EXCLUSIVE_LOCK \<and> 1 < nShared pInode then lock_done SQLITE_BUSY pFile pInode eLock
      else
        unixFileLock pFile pInode
          (if eLock = RESERVED_LOCK then \<lparr>l_type = F_WRLCK, l_start = RESERVED_BYTE, l_len = 1\<rparr>
           else \<lparr>l_type = F_WRLCK, l_start = SHARED_FIRST, l_len = SHARED_SIZE\<rparr>) (\<lambda>e pInode.
          (case e of
             None \<Rightarrow> lock_done SQLITE_OK pFile pInode eLock
           | Some e \<Rightarrow> (let rc = sqliteErrorFromPosixError e SQLITE_IOERR_LOCK
                        in lock_done rc (note_errno rc e pFile) pInode eLock))))"

definition unixLock :: "unixFile \<Rightarrow> unixInodeInfo \<Rightarrow> lock \<Rightarrow> call_result prog" where
  "unixLock pFile pInode eLock =
     (if eLock \<le> fileLock pFile then Ret (SQLITE_OK, pFile, pInode)
      else if fileLock pFile \<noteq> eFileLock pInode \<and> (PENDING_LOCK \<le> eFileLock pInode \<or> SHARED_LOCK < eLock)
      then Ret (SQLITE_BUSY, pFile, pInode)
      else if eLock = SHARED_LOCK \<and> (eFileLock pInode = SHARED_LOCK \<or> eFileLock pInode = RESERVED_LOCK)
      then Ret (SQLITE_OK, pFile\<lparr>fileLock := SHARED_LOCK\<rparr>,
                pInode\<lparr>nShared := nShared pInode + 1, nLock := nLock pInode + 1\<rparr>)
      else if eLock = SHARED_LOCK \<or> eLock = EXCLUSIVE_LOCK \<and> fileLock pFile < PENDING_LOCK then
        unixFileLock pFile pInode
          \<lparr>l_type = (if eLock = SHARED_LOCK then F_RDLCK else F_WRLCK), l_start = PENDING_BYTE, l_len = 1\<rparr>
          (\<lambda>e pInode.
            (case e of
               Some e \<Rightarrow> (let rc = sqliteErrorFromPosixError e SQLITE_IOERR_LOCK
                          in Ret (rc, note_errno rc e pFile, pInode))
             | None \<Rightarrow> lock_main pFile pInode eLock))
      else lock_main pFile pInode eLock)"

section \<open>unixUnlock and unixClose\<close>

definition unlock_done :: "unixFile \<Rightarrow> unixInodeInfo \<Rightarrow> lock \<Rightarrow> call_result prog" where
  "unlock_done pFile pInode eLock = Ret (SQLITE_OK, pFile\<lparr>fileLock := eLock\<rparr>, pInode)"

definition unlock_count :: "result_code \<Rightarrow> unixFile \<Rightarrow> unixInodeInfo \<Rightarrow> call_result prog" where
  "unlock_count rc pFile pInode =
     (let pInode = pInode\<lparr>nLock := nLock pInode - 1\<rparr>;
          finish = (\<lambda>pInode. if rc = SQLITE_OK then unlock_done pFile pInode NO_LOCK else Ret (rc, pFile, pInode))
      in if nLock pInode = 0 then closePendingFds pInode finish else finish pInode)"

definition unlock_shared :: "unixFile \<Rightarrow> unixInodeInfo \<Rightarrow> lock \<Rightarrow> call_result prog" where
  "unlock_shared pFile pInode eLock =
     (if eLock = NO_LOCK then
        (let pInode = pInode\<lparr>nShared := nShared pInode - 1\<rparr> in
         if nShared pInode = 0 then
           unixFileLock pFile pInode \<lparr>l_type = F_UNLCK, l_start = 0, l_len = 0\<rparr> (\<lambda>e pInode.
             (case e of
                None \<Rightarrow> unlock_count SQLITE_OK pFile (pInode\<lparr>eFileLock := NO_LOCK\<rparr>)
              | Some e \<Rightarrow> unlock_count SQLITE_IOERR_UNLOCK (pFile\<lparr>lastErrno := Some e, fileLock := NO_LOCK\<rparr>)
                           (pInode\<lparr>eFileLock := NO_LOCK\<rparr>)))
         else unlock_count SQLITE_OK pFile pInode)
      else unlock_done pFile pInode eLock)"

definition unlock_pending :: "unixFile \<Rightarrow> unixInodeInfo \<Rightarrow> lock \<Rightarrow> call_result prog" where
  "unlock_pending pFile pInode eLock =
     unixFileLock pFile pInode \<lparr>l_type = F_UNLCK, l_start = PENDING_BYTE, l_len = 2\<rparr> (\<lambda>e pInode.
       (case e of
          None \<Rightarrow> unlock_shared pFile (pInode\<lparr>eFileLock := SHARED_LOCK\<rparr>) eLock
        | Some e \<Rightarrow> Ret (SQLITE_IOERR_UNLOCK, pFile\<lparr>lastErrno := Some e\<rparr>, pInode)))"

definition posixUnlock :: "unixFile \<Rightarrow> unixInodeInfo \<Rightarrow> lock \<Rightarrow> call_result prog" where
  "posixUnlock pFile pInode eLock =
     (if fileLock pFile \<le> eLock then Ret (SQLITE_OK, pFile, pInode)
      else if SHARED_LOCK < fileLock pFile then
        (if eLock = SHARED_LOCK then
           unixFileLock pFile pInode \<lparr>l_type = F_RDLCK, l_start = SHARED_FIRST, l_len = SHARED_SIZE\<rparr> (\<lambda>e pInode.
             (case e of
                None \<Rightarrow> unlock_pending pFile pInode eLock
              | Some e \<Rightarrow> Ret (SQLITE_IOERR_RDLOCK, pFile\<lparr>lastErrno := Some e\<rparr>, pInode)))
         else unlock_pending pFile pInode eLock)
      else unlock_shared pFile pInode eLock)"

definition unixUnlock :: "unixFile \<Rightarrow> unixInodeInfo \<Rightarrow> lock \<Rightarrow> call_result prog" where
  "unixUnlock = posixUnlock"

definition setPendingFd :: "unixFile \<Rightarrow> unixInodeInfo \<Rightarrow> unixFile \<times> unixInodeInfo" where
  "setPendingFd pFile pInode =
     (case h pFile of
        None \<Rightarrow> (pFile, pInode)
      | Some fd \<Rightarrow> (pFile\<lparr>h := None\<rparr>, pInode\<lparr>pUnused := fd # pUnused pInode\<rparr>))"

text \<open>The inode object is freed with its last file; a later open starts from zeros.\<close>

definition new_inode :: unixInodeInfo where
  "new_inode = \<lparr>nShared = 0, eFileLock = NO_LOCK, bProcessLock = False, nRef = 0, nLock = 0, pUnused = []\<rparr>"

definition releaseInodeInfo :: "unixInodeInfo \<Rightarrow> (unixInodeInfo \<Rightarrow> 'a prog) \<Rightarrow> 'a prog" where
  "releaseInodeInfo pInode k =
     (let pInode = pInode\<lparr>nRef := nRef pInode - 1\<rparr> in
      if nRef pInode = 0 then closePendingFds pInode (\<lambda>pInode. k new_inode) else k pInode)"

definition closeUnixFile :: "unixFile \<Rightarrow> 'a prog \<Rightarrow> 'a prog" where
  "closeUnixFile pFile c = (case h pFile of Some fd \<Rightarrow> Close fd c | None \<Rightarrow> c)"

definition unixClose :: "unixFile \<Rightarrow> unixInodeInfo \<Rightarrow> unixInodeInfo prog" where
  "unixClose pFile pInode =
     bind_prog (unixUnlock pFile pInode NO_LOCK) (\<lambda>(_, pFile, pInode).
       (let (pFile, pInode) = (if nLock pInode \<noteq> 0 then setPendingFd pFile pInode else (pFile, pInode))
        in releaseInodeInfo pInode (\<lambda>pInode. closeUnixFile pFile (Ret pInode))))"


section \<open>The system\<close>

text \<open>What a process holds on a byte.  The laws are those of POSIX advisory locks.\<close>

datatype mode = Unlocked | Rd | Wr

primrec mode_of :: "flock_type \<Rightarrow> mode" where
  "mode_of F_RDLCK = Rd"
| "mode_of F_WRLCK = Wr"
| "mode_of F_UNLCK = Unlocked"

primrec compatible :: "flock_type \<Rightarrow> mode \<Rightarrow> bool" where
  "compatible F_RDLCK m = (m \<noteq> Wr)"
| "compatible F_WRLCK m = (m = Unlocked)"
| "compatible F_UNLCK m = True"

locale advisory_locks =
  fixes held :: "'os \<Rightarrow> nat \<Rightarrow> nat \<Rightarrow> mode"
    and setlk :: "'os \<Rightarrow> nat \<Rightarrow> flock \<Rightarrow> errno option \<times> 'os"
    and getlk :: "'os \<Rightarrow> nat \<Rightarrow> flock \<Rightarrow> errno + flock_type"
    and closefd :: "'os \<Rightarrow> nat \<Rightarrow> nat \<Rightarrow> 'os"
  assumes setlk_done: "setlk os p l = (None, os') \<Longrightarrow>
      held os' q b = (if q = p \<and> covers l b then mode_of (l_type l) else held os q b)"
    and setlk_free: "setlk os p l = (None, os') \<Longrightarrow> covers l b \<Longrightarrow> q \<noteq> p \<Longrightarrow> compatible (l_type l) (held os q b)"
    and setlk_failed: "setlk os p l = (Some e, os') \<Longrightarrow> held os' = held os"
    and getlk_reports: "getlk os p l = Inr t \<Longrightarrow>
      t \<noteq> F_UNLCK \<longleftrightarrow> (\<exists>q b. q \<noteq> p \<and> covers l b \<and> \<not> compatible (l_type l) (held os q b))"
    and close_drops: "held (closefd os p fd) q b = (if q = p then Unlocked else held os q b)"

text \<open>
  Any number of processes on one database file.  A process runs one call at a time, under the
  mutex of unixEnterMutex; what a call computes is stored when it returns.
\<close>

datatype call = Lock lock | Unlock lock | Close_file

record 'os sys =
  os :: 'os
  files :: "nat \<Rightarrow> nat \<Rightarrow> unixFile option"
  inode :: "nat \<Rightarrow> unixInodeInfo"
  running :: "nat \<Rightarrow> (nat \<times> (unixFile option \<times> unixInodeInfo) prog) option"

definition call_prog :: "unixFile \<Rightarrow> unixInodeInfo \<Rightarrow> call \<Rightarrow> (unixFile option \<times> unixInodeInfo) prog" where
  "call_prog pFile pInode c =
     (case c of
        Lock e \<Rightarrow> bind_prog (unixLock pFile pInode e) (\<lambda>(rc, f, i). Ret (Some f, i))
      | Unlock e \<Rightarrow> bind_prog (unixUnlock pFile pInode e) (\<lambda>(rc, f, i). Ret (Some f, i))
      | Close_file \<Rightarrow> bind_prog (unixClose pFile pInode) (\<lambda>i. Ret (None, i)))"

text \<open>The assertions at the top of unixLock and posixUnlock: what a caller may ask for.\<close>

definition call_ok :: "unixFile \<Rightarrow> call \<Rightarrow> bool" where
  "call_ok pFile c =
     (case c of
        Lock e \<Rightarrow> (fileLock pFile \<noteq> NO_LOCK \<or> e = SHARED_LOCK) \<and> e \<noteq> PENDING_LOCK \<and>
                  (e \<noteq> RESERVED_LOCK \<or> fileLock pFile = SHARED_LOCK) \<or> e \<le> fileLock pFile
      | Unlock e \<Rightarrow> e \<le> SHARED_LOCK
      | Close_file \<Rightarrow> True)"

definition new_file :: "nat \<Rightarrow> unixFile" where
  "new_file fd = \<lparr>h = Some fd, fileLock = NO_LOCK, ctrl_excl = False, ctrl_rdonly = False, lastErrno = None\<rparr>"

inductive step ::
  "('os \<Rightarrow> nat \<Rightarrow> flock \<Rightarrow> errno option \<times> 'os) \<Rightarrow> ('os \<Rightarrow> nat \<Rightarrow> flock \<Rightarrow> errno + flock_type) \<Rightarrow>
   ('os \<Rightarrow> nat \<Rightarrow> nat \<Rightarrow> 'os) \<Rightarrow> 'os sys \<Rightarrow> 'os sys \<Rightarrow> bool"
  for setlk getlk closefd where
  step_open: "running s p = None \<Longrightarrow> files s p n = None \<Longrightarrow>
    step setlk getlk closefd s
      (s\<lparr>files := (files s)(p := (files s p)(n \<mapsto> new_file fd)),
         inode := (inode s)(p := (inode s p)\<lparr>nRef := nRef (inode s p) + 1\<rparr>)\<rparr>)"
| step_call: "running s p = None \<Longrightarrow> files s p n = Some f \<Longrightarrow> call_ok f c \<Longrightarrow>
    step setlk getlk closefd s (s\<lparr>running := (running s)(p \<mapsto> (n, call_prog f (inode s p) c))\<rparr>)"
| step_setlk: "running s p = Some (n, Setlk l k) \<Longrightarrow> setlk (os s) p l = (r, os') \<Longrightarrow>
    step setlk getlk closefd s (s\<lparr>os := os', running := (running s)(p \<mapsto> (n, k r))\<rparr>)"
| step_getlk: "running s p = Some (n, Getlk l k) \<Longrightarrow>
    step setlk getlk closefd s (s\<lparr>running := (running s)(p \<mapsto> (n, k (getlk (os s) p l)))\<rparr>)"
| step_close: "running s p = Some (n, Close fd k) \<Longrightarrow>
    step setlk getlk closefd s (s\<lparr>os := closefd (os s) p fd, running := (running s)(p \<mapsto> (n, k))\<rparr>)"
| step_return: "running s p = Some (n, Ret (f, i)) \<Longrightarrow>
    step setlk getlk closefd s
      (s\<lparr>files := (files s)(p := (files s p)(n := f)), inode := (inode s)(p := i), running := (running s)(p := None)\<rparr>)"

definition start :: "'os \<Rightarrow> 'os sys" where
  "start os0 = \<lparr>os = os0, files = \<lambda>_ _. None, inode = \<lambda>_. new_inode, running = \<lambda>_. None\<rparr>"

section \<open>Invariants\<close>

text \<open>Facts about the bytes that one process holds.\<close>

abbreviation shared_bytes :: "nat set" where "shared_bytes \<equiv> {SHARED_FIRST..<SHARED_FIRST + SHARED_SIZE}"

definition reading :: "(nat \<Rightarrow> mode) \<Rightarrow> bool" where "reading own \<longleftrightarrow> (\<forall>b\<in>shared_bytes. own b \<noteq> Unlocked)"
definition writing :: "(nat \<Rightarrow> mode) \<Rightarrow> bool" where "writing own \<longleftrightarrow> (\<forall>b\<in>shared_bytes. own b = Wr)"

text \<open>What a lock level requires; alone says that no other process holds a shared byte.\<close>

primrec hold_lv :: "lock \<Rightarrow> (nat \<Rightarrow> mode) \<Rightarrow> bool \<Rightarrow> bool" where
  "hold_lv NO_LOCK own alone = True"
| "hold_lv SHARED_LOCK own alone = reading own"
| "hold_lv RESERVED_LOCK own alone = (reading own \<and> own RESERVED_BYTE = Wr)"
| "hold_lv PENDING_LOCK own alone = (reading own \<and> own PENDING_BYTE = Wr)"
| "hold_lv EXCLUSIVE_LOCK own alone = (reading own \<and> own PENDING_BYTE = Wr \<and> alone)"

definition lv :: "(nat \<Rightarrow> unixFile option) \<Rightarrow> nat \<Rightarrow> lock" where
  "lv fs n = (case fs n of None \<Rightarrow> NO_LOCK | Some f \<Rightarrow> fileLock f)"

definition locked :: "(nat \<Rightarrow> unixFile option) \<Rightarrow> nat set" where
  "locked fs = {n. SHARED_LOCK \<le> lv fs n}"

definition inode_ok :: "(nat \<Rightarrow> unixFile option) \<Rightarrow> unixInodeInfo \<Rightarrow> bool" where
  "inode_ok fs i \<longleftrightarrow>
     finite (dom fs) \<and> nRef i = int (card (dom fs)) \<and> int (card (locked fs)) \<le> nShared i \<and> nLock i = nShared i \<and> \<not> bProcessLock i \<and>
     (eFileLock i = NO_LOCK \<longleftrightarrow> nShared i = 0) \<and> (eFileLock i = EXCLUSIVE_LOCK \<longrightarrow> nShared i = 1) \<and>
     (\<forall>n. SHARED_LOCK < lv fs n \<longrightarrow> lv fs n = eFileLock i) \<and>
     (\<forall>n m. SHARED_LOCK < lv fs n \<and> SHARED_LOCK < lv fs m \<longrightarrow> n = m) \<and>
     (\<forall>n f. fs n = Some f \<longrightarrow> \<not> ctrl_excl f)"

text \<open>A request for a shared byte comes with a lock on the pending byte, or with one on that byte.\<close>

definition polite :: "flock \<Rightarrow> (nat \<Rightarrow> mode) \<Rightarrow> bool" where
  "polite l own \<longleftrightarrow> l_type l = F_UNLCK \<or> own PENDING_BYTE \<noteq> Unlocked \<or>
     (\<forall>b\<in>shared_bytes. covers l b \<longrightarrow> own b \<noteq> Unlocked)"

definition upd :: "flock \<Rightarrow> (nat \<Rightarrow> mode) \<Rightarrow> nat \<Rightarrow> mode" where
  "upd l own = (\<lambda>b. if covers l b then mode_of (l_type l) else own b)"

primrec wp :: "((nat \<Rightarrow> mode) \<Rightarrow> bool \<Rightarrow> bool) \<Rightarrow> ((nat \<Rightarrow> mode) \<Rightarrow> bool \<Rightarrow> 'a \<Rightarrow> bool) \<Rightarrow> 'a prog \<Rightarrow>
    (nat \<Rightarrow> mode) \<Rightarrow> bool \<Rightarrow> bool" where
  "wp M Q (Ret a) own x = (M own x \<and> Q own x a)"
| "wp M Q (Setlk l k) own x =
     (M own x \<and> polite l own \<and> (\<forall>e. wp M Q (k (Some e)) own x) \<and>
      wp M Q (k None) (upd l own) (upd l own PENDING_BYTE = Wr \<and> (x \<or> writing (upd l own))))"
| "wp M Q (Getlk l k) own x = (M own x \<and> (\<forall>r. wp M Q (k r) own x))"
| "wp M Q (Close fd c) own x = (M own x \<and> wp M Q c (\<lambda>_. Unlocked) False)"

lemma wp_M: "wp M Q c own x \<Longrightarrow> M own x"
  by (cases c) simp_all

lemma wp_bind: "wp M (\<lambda>own x a. wp M Q (k a) own x) c own x \<Longrightarrow> wp M Q (bind_prog c k) own x"
  by (induction c arbitrary: own x) auto

lemma wp_mono: "wp M Q c own x \<Longrightarrow> (\<And>own x a. Q own x a \<Longrightarrow> M own x \<Longrightarrow> Q' own x a) \<Longrightarrow> wp M Q' c own x"
  by (induction c arbitrary: own x) auto

subsection \<open>Ranges\<close>

declare One_nat_def [simp del]

lemmas lock_bytes = PENDING_BYTE_def RESERVED_BYTE_def SHARED_FIRST_def SHARED_SIZE_def

abbreviation "shared_range t \<equiv> \<lparr>l_type = t, l_start = SHARED_FIRST, l_len = SHARED_SIZE\<rparr>"
abbreviation "pending_range t \<equiv> \<lparr>l_type = t, l_start = PENDING_BYTE, l_len = 1\<rparr>"
abbreviation "reserved_range t \<equiv> \<lparr>l_type = t, l_start = RESERVED_BYTE, l_len = 1\<rparr>"
abbreviation "pending_reserved t \<equiv> \<lparr>l_type = t, l_start = PENDING_BYTE, l_len = 2\<rparr>"

lemma upd_simps [simp]:
  "upd (shared_range t) own PENDING_BYTE = own PENDING_BYTE" "upd (shared_range t) own RESERVED_BYTE = own RESERVED_BYTE"
  "upd (pending_range t) own PENDING_BYTE = mode_of t" "upd (pending_range t) own RESERVED_BYTE = own RESERVED_BYTE"
  "upd (reserved_range t) own PENDING_BYTE = own PENDING_BYTE" "upd (reserved_range t) own RESERVED_BYTE = mode_of t"
  "reading (upd (shared_range t) own) = (t \<noteq> F_UNLCK)" "writing (upd (shared_range t) own) = (t = F_WRLCK)"
  "reading (upd (pending_range t) own) = reading own" "reading (upd (reserved_range t) own) = reading own"
  "reading (upd (pending_reserved t) own) = reading own"
  "writing (upd (pending_range t) own) = writing own" "writing (upd (reserved_range t) own) = writing own"
  "writing (upd (pending_reserved t) own) = writing own"
  by (cases t; force simp: upd_def covers_def lock_bytes reading_def writing_def)+

lemma covers_simps:
  "covers (pending_range t) b = (b = PENDING_BYTE)" "covers (reserved_range t) b = (b = RESERVED_BYTE)"
  "covers (shared_range t) b = (b \<in> shared_bytes)"
  by (auto simp: covers_def SHARED_SIZE_def)

lemma lock_bytes_apart: "PENDING_BYTE \<notin> shared_bytes" "RESERVED_BYTE \<notin> shared_bytes"
  by (simp_all add: lock_bytes)

lemma polite_simps [simp]:
  "polite (pending_range t) own" "polite (reserved_range t) own"
  "polite (shared_range t) own = (t = F_UNLCK \<or> own PENDING_BYTE \<noteq> Unlocked \<or> reading own)"
  "polite \<lparr>l_type = F_UNLCK, l_start = a, l_len = k\<rparr> own"
  unfolding polite_def covers_simps reading_def flock.simps using lock_bytes_apart by blast+

subsection \<open>The counters of an inode\<close>

lemma SHARED_le: "SHARED_LOCK \<le> e \<longleftrightarrow> e \<noteq> NO_LOCK"
  by (cases e) (simp_all add: level_order)

lemma lv_upd [simp]:
  "lv (fs(n \<mapsto> f)) = (lv fs)(n := fileLock f)" "lv (fs(n := None)) = (lv fs)(n := NO_LOCK)"
  by (auto simp: lv_def)

lemma locked_upd:
  "locked (fs(n \<mapsto> f)) = (if fileLock f = NO_LOCK then locked fs - {n} else insert n (locked fs))"
  "locked (fs(n := None)) = locked fs - {n}"
  by (auto simp: locked_def SHARED_le)

lemma locked_dom: "locked fs \<subseteq> dom fs"
  by (auto simp: locked_def lv_def SHARED_le split: option.splits)

lemma inode_okI:
  assumes "finite (dom fs)" "nRef i = int (card (dom fs))" "int (card (locked fs)) \<le> nShared i" "nLock i = nShared i"
    "\<not> bProcessLock i" "eFileLock i = NO_LOCK \<longleftrightarrow> nShared i = 0" "eFileLock i = EXCLUSIVE_LOCK \<Longrightarrow> nShared i = 1"
    "\<And>n. SHARED_LOCK < lv fs n \<Longrightarrow> lv fs n = eFileLock i"
    "\<And>n m. SHARED_LOCK < lv fs n \<Longrightarrow> SHARED_LOCK < lv fs m \<Longrightarrow> n = m"
    "\<And>n f. fs n = Some f \<Longrightarrow> \<not> ctrl_excl f"
  shows "inode_ok fs i"
  unfolding inode_ok_def using assms by blast

lemma inode_okD:
  assumes "inode_ok fs i"
  shows "finite (dom fs)" "nRef i = int (card (dom fs))" "int (card (locked fs)) \<le> nShared i" "nLock i = nShared i"
    "\<not> bProcessLock i" "eFileLock i = NO_LOCK \<longleftrightarrow> nShared i = 0" "eFileLock i = EXCLUSIVE_LOCK \<Longrightarrow> nShared i = 1"
    "SHARED_LOCK < lv fs n \<Longrightarrow> lv fs n = eFileLock i"
    "SHARED_LOCK < lv fs n \<Longrightarrow> SHARED_LOCK < lv fs m \<Longrightarrow> n = m"
    "fs n = Some f \<Longrightarrow> \<not> ctrl_excl f"
  using assms unfolding inode_ok_def by blast+

lemma inode_ok_finite: "inode_ok fs i \<Longrightarrow> finite (locked fs)"
  using locked_dom [of fs] by (auto simp: inode_ok_def intro: finite_subset)

lemma inode_unlocked:
  assumes "inode_ok fs i" and "nShared i = 0"
  shows "lv fs m = NO_LOCK"
  using assms inode_ok_finite [OF assms(1)] by (auto simp: inode_ok_def locked_def SHARED_le)

lemma inode_single:
  assumes "inode_ok fs i" and "nShared i = 1" and "lv fs n \<noteq> NO_LOCK" and "m \<noteq> n"
  shows "lv fs m = NO_LOCK"
proof (rule ccontr)
  assume "lv fs m \<noteq> NO_LOCK"
  then have "{m, n} \<subseteq> locked fs" using assms(3) by (simp add: locked_def SHARED_le)
  then have "2 \<le> card (locked fs)" using inode_ok_finite [OF assms(1)] card_mono [of "locked fs" "{m, n}"] assms(4) by simp
  then show False using assms(1,2) by (simp add: inode_ok_def)
qed

lemma inode_ok_lv: "inode_ok fs i \<Longrightarrow> lv fs m \<noteq> NO_LOCK \<Longrightarrow> eFileLock i \<noteq> NO_LOCK"
  using inode_okD(6) inode_unlocked by metis

lemma others_hold:
  assumes "inode_ok fs i" and "hold_lv (eFileLock i) own x"
  shows "hold_lv (lv fs m) own x"
proof (cases "SHARED_LOCK < lv fs m")
  case True
  then show ?thesis using assms by (simp add: inode_ok_def)
next
  case False
  then have "lv fs m \<in> {NO_LOCK, SHARED_LOCK}" by (cases "lv fs m") (simp_all add: level_order)
  moreover have "reading own" if "eFileLock i \<noteq> NO_LOCK"
    using assms(2) that by (cases "eFileLock i") simp_all
  ultimately show ?thesis using inode_ok_lv [OF assms(1), of m] by auto
qed

lemma inode_file [simp]:
  assumes "inode_ok fs i" and "fs n = Some f" and "fileLock f' = fileLock f" and "\<not> ctrl_excl f'"
  shows "inode_ok (fs(n \<mapsto> f')) i"
proof -
  have "lv (fs(n \<mapsto> f')) = lv fs" using assms(2,3) by (auto simp: lv_def)
  moreover have "dom (fs(n \<mapsto> f')) = dom fs" using assms(2) by auto
  ultimately show ?thesis using assms(1,4) by (auto simp: inode_ok_def locked_def)
qed

lemma inode_lock_more:
  assumes ok: "inode_ok fs i" and f: "fs n = Some f" "fileLock f = NO_LOCK" and e: "eFileLock i \<in> {SHARED_LOCK, RESERVED_LOCK}"
  shows "inode_ok (fs(n \<mapsto> f\<lparr>fileLock := SHARED_LOCK\<rparr>)) (i\<lparr>nShared := nShared i + 1, nLock := nLock i + 1\<rparr>)"
proof -
  have "n \<notin> locked fs" using f by (simp add: locked_def lv_def SHARED_le)
  then have "card (locked (fs(n \<mapsto> f\<lparr>fileLock := SHARED_LOCK\<rparr>))) = Suc (card (locked fs))"
    using inode_ok_finite [OF ok] by (simp add: locked_upd)
  moreover have "0 \<le> nShared i" using ok by (simp add: inode_ok_def)
  ultimately show ?thesis using ok e f by (auto simp: inode_ok_def insert_absorb domI level_order)
qed

lemma inode_lock_first:
  assumes ok: "inode_ok fs i" and f: "fs n = Some f" and e: "eFileLock i = NO_LOCK" and f': "f' = f\<lparr>fileLock := SHARED_LOCK\<rparr>"
  shows "inode_ok (fs(n \<mapsto> f')) (i\<lparr>nLock := nLock i + 1, nShared := 1, eFileLock := SHARED_LOCK\<rparr>)"
proof -
  have 0: "nShared i = 0" using ok e by (simp add: inode_ok_def)
  then have "locked fs = {}" using inode_unlocked [OF ok] by (auto simp: locked_def SHARED_le)
  then show ?thesis using ok f f' 0 inode_unlocked [OF ok 0]
    by (auto simp: inode_ok_def locked_upd insert_absorb domI level_order)
qed

lemma inode_raise:
  assumes ok: "inode_ok fs i" and f: "fs n = Some f" "fileLock f = eFileLock i" "fileLock f \<noteq> NO_LOCK"
    and e: "SHARED_LOCK < e" "e = EXCLUSIVE_LOCK \<longrightarrow> nShared i = 1" and f': "fileLock f' = e" "\<not> ctrl_excl f'"
  shows "inode_ok (fs(n \<mapsto> f')) (i\<lparr>eFileLock := e\<rparr>)"
proof -
  note d = inode_okD [OF ok]
  have n: "lv fs n = fileLock f" using f by (simp add: lv_def)
  have low: "\<not> SHARED_LOCK < lv fs m" if "m \<noteq> n" for m
  proof
    assume m: "SHARED_LOCK < lv fs m"
    then have "SHARED_LOCK < lv fs n" using d(8) [of m] f n by simp
    with m that d(9) show False by blast
  qed
  have e0: "e \<noteq> NO_LOCK" using e(1) by (cases e) (simp_all add: level_order)
  have "n \<in> locked fs" using f n by (simp add: locked_def SHARED_le)
  then have lck: "locked (fs(n \<mapsto> f')) = locked fs" using f' e0 by (auto simp: locked_upd)
  have dom: "dom (fs(n \<mapsto> f')) = dom fs" using f by auto
  have at_n: "m = n" if "SHARED_LOCK < lv (fs(n \<mapsto> f')) m" for m
    using that low by (cases "m = n") simp_all
  have "nShared i \<noteq> 0" using inode_ok_lv [OF ok, of n] d(6) f n by simp
  then show ?thesis
  proof (intro inode_okI)
    fix m assume "SHARED_LOCK < lv (fs(n \<mapsto> f')) m"
    then have "m = n" by (rule at_n)
    then show "lv (fs(n \<mapsto> f')) m = eFileLock (i\<lparr>eFileLock := e\<rparr>)" using f'(1) by simp
  next
    fix m m' assume "SHARED_LOCK < lv (fs(n \<mapsto> f')) m" "SHARED_LOCK < lv (fs(n \<mapsto> f')) m'"
    then show "m = m'" using at_n by blast
  next
    fix m f1 assume "(fs(n \<mapsto> f')) m = Some f1"
    then show "\<not> ctrl_excl f1" using f'(2) d(10) by (auto split: if_splits)
  qed (use d(1-7) e e0 in \<open>simp_all only: lck dom\<close>, simp_all)
qed

lemma only_one_above:
  assumes ok: "inode_ok fs i" and "SHARED_LOCK < lv fs n" and "m \<noteq> n"
  shows "\<not> SHARED_LOCK < lv fs m"
  using inode_okD(9) [OF ok] assms(2,3) by blast

lemma inode_lower:
  assumes ok: "inode_ok fs i" and f: "fs n = Some f" "SHARED_LOCK < fileLock f"
    and f': "fileLock f' = SHARED_LOCK" "\<not> ctrl_excl f'"
  shows "inode_ok (fs(n \<mapsto> f')) (i\<lparr>eFileLock := SHARED_LOCK\<rparr>)"
proof -
  note d = inode_okD [OF ok]
  have n: "lv fs n = fileLock f" "fileLock f \<noteq> NO_LOCK" using f by (auto simp: lv_def level_order)
  have "n \<in> locked fs" using n by (simp add: locked_def SHARED_le)
  then have lck: "locked (fs(n \<mapsto> f')) = locked fs" using f' by (auto simp: locked_upd)
  have dom: "dom (fs(n \<mapsto> f')) = dom fs" using f by auto
  have none: "\<not> SHARED_LOCK < lv (fs(n \<mapsto> f')) m" for m
    using only_one_above [OF ok, of n m] n f f' by (cases "m = n") simp_all
  have "nShared i \<noteq> 0" using inode_ok_lv [OF ok, of n] d(6) n by simp
  then show ?thesis
  proof (intro inode_okI)
    fix m f1 assume "(fs(n \<mapsto> f')) m = Some f1"
    then show "\<not> ctrl_excl f1" using f'(2) d(10) by (auto split: if_splits)
  qed (use d(1-7) none in \<open>simp_all only: lck dom\<close>, simp_all)
qed

text \<open>The inode after one file gave up its lock.\<close>

definition released :: "unixFile \<Rightarrow> unixInodeInfo \<Rightarrow> unixInodeInfo" where
  "released f i = i\<lparr>nShared := nShared i - 1, nLock := nLock i - 1,
     eFileLock := (if nShared i = 1 then NO_LOCK else if SHARED_LOCK < fileLock f then SHARED_LOCK else eFileLock i)\<rparr>"

lemma inode_release:
  assumes ok: "inode_ok fs i" and f: "fs n = Some f" "fileLock f \<noteq> NO_LOCK"
    and f': "fileLock f' = NO_LOCK" "\<not> ctrl_excl f'"
  shows "inode_ok (fs(n \<mapsto> f')) (released f i)"
proof -
  note d = inode_okD [OF ok]
  have n: "lv fs n = fileLock f" using f by (simp add: lv_def)
  have "n \<in> locked fs" using n f by (simp add: locked_def SHARED_le)
  then have card: "int (card (locked (fs(n \<mapsto> f')))) \<le> nShared i - 1" "1 \<le> nShared i"
    using d(3) inode_ok_finite [OF ok] f'(1) card_gt_0_iff [of "locked fs"] by (auto simp: locked_upd)
  have dom: "dom (fs(n \<mapsto> f')) = dom fs" using f by auto
  have lvn: "lv (fs(n \<mapsto> f')) = (lv fs)(n := NO_LOCK)" using f' by simp
  have ef: "eFileLock i \<noteq> NO_LOCK" using inode_ok_lv [OF ok, of n] n f by simp
  show ?thesis
  proof (intro inode_okI)
    fix m f1 assume "(fs(n \<mapsto> f')) m = Some f1"
    then show "\<not> ctrl_excl f1" using f'(2) d(10) by (auto split: if_splits)
  next
    fix m assume "SHARED_LOCK < lv (fs(n \<mapsto> f')) m"
    then have m: "m \<noteq> n" "SHARED_LOCK < lv fs m" unfolding lvn by (auto simp: level_order split: if_splits)
    have "nShared i \<noteq> 1" using inode_single [OF ok, of n m] m n f by (auto simp: level_order)
    moreover have "\<not> SHARED_LOCK < fileLock f" using only_one_above [OF ok m(2), of n] m(1) n by simp
    ultimately show "lv (fs(n \<mapsto> f')) m = eFileLock (released f i)"
      using d(8) [OF m(2)] m(1) by (simp add: released_def lvn)
  next
    fix m m' assume "SHARED_LOCK < lv (fs(n \<mapsto> f')) m" "SHARED_LOCK < lv (fs(n \<mapsto> f')) m'"
    then have "SHARED_LOCK < lv fs m" "SHARED_LOCK < lv fs m'" unfolding lvn by (auto simp: level_order split: if_splits)
    then show "m = m'" using d(9) by blast
  next
    show "nShared (released f i) = 1" if "eFileLock (released f i) = EXCLUSIVE_LOCK"
      using that d(7) by (simp add: released_def split: if_splits)
  qed (use d(1,2,4,5) ef card in \<open>simp_all only: dom\<close>, simp_all add: released_def)
qed

lemma inode_congs:
  "inode_ok fs (i\<lparr>pUnused := u\<rparr>) = inode_ok fs i"
  "inode_ok fs (i\<lparr>pUnused := u, nRef := k\<rparr>) = inode_ok fs (i\<lparr>nRef := k\<rparr>)" "lv fs = lv fs' \<Longrightarrow> locked fs = locked fs'"
  by (simp_all add: inode_ok_def locked_def)

lemma inode_close:
  assumes ok: "inode_ok fs i" and f: "fs n = Some f" and r: "nRef i \<noteq> 1"
  shows "inode_ok (fs(n := None)) (i\<lparr>nRef := nRef i - 1\<rparr>)"
proof -
  note d = inode_okD [OF ok]
  have dom: "dom (fs(n := None)) = dom fs - {n}" by auto
  have "n \<in> dom fs" using f by auto
  then have card: "int (card (dom fs - {n})) = nRef i - 1" "finite (dom fs - {n})"
    using d(1,2) card_gt_0_iff [of "dom fs"] by (auto simp: of_nat_diff Suc_le_eq)
  have "card (locked (fs(n := None))) \<le> card (locked fs)"
    unfolding locked_upd by (intro card_mono inode_ok_finite [OF ok]) auto
  then show ?thesis
  proof (intro inode_okI)
    fix m f1 assume "(fs(n := None)) m = Some f1"
    then show "\<not> ctrl_excl f1" using d(10) by (auto split: if_splits)
  next
    fix m assume "SHARED_LOCK < lv (fs(n := None)) m"
    then have "SHARED_LOCK < lv fs m" "m \<noteq> n" by (auto simp: level_order split: if_splits)
    then show "lv (fs(n := None)) m = eFileLock (i\<lparr>nRef := nRef i - 1\<rparr>)" using d(8) by simp
  next
    fix m m' assume "SHARED_LOCK < lv (fs(n := None)) m" "SHARED_LOCK < lv (fs(n := None)) m'"
    then have "SHARED_LOCK < lv fs m" "SHARED_LOCK < lv fs m'" by (auto simp: level_order split: if_splits)
    then show "m = m'" using d(9) by blast
  qed (use d card in \<open>simp_all only: dom\<close>, simp_all)
qed

lemma inode_open:
  assumes ok: "inode_ok fs i" and f: "fs n = None"
  shows "inode_ok (fs(n \<mapsto> new_file fd)) (i\<lparr>nRef := nRef i + 1\<rparr>)"
proof -
  note d = inode_okD [OF ok]
  have lv: "lv (fs(n \<mapsto> new_file fd)) = lv fs" using f by (auto simp: lv_def new_file_def)
  then have lck: "locked (fs(n \<mapsto> new_file fd)) = locked fs" by (simp add: locked_def)
  have "n \<notin> dom fs" using f by auto
  then have dom: "finite (dom (fs(n \<mapsto> new_file fd)))" "card (dom (fs(n \<mapsto> new_file fd))) = Suc (card (dom fs))"
    using d(1) by simp_all
  show ?thesis
  proof (intro inode_okI)
    fix m f1 assume "(fs(n \<mapsto> new_file fd)) m = Some f1"
    then show "\<not> ctrl_excl f1" using d(10) by (auto simp: new_file_def split: if_splits)
  qed (use d dom in \<open>simp_all only: lv lck\<close>, simp_all)
qed

lemma inode_last:
  assumes ok: "inode_ok fs i" and f: "fs n = Some f" and r: "nRef i = 1"
  shows "inode_ok (fs(n := None)) new_inode" and "m \<noteq> n \<Longrightarrow> lv fs m = NO_LOCK"
proof -
  have "card (dom fs) = 1" using inode_okD(2) [OF ok] r by simp
  then have "dom fs = {n}" using f by (metis card_1_singletonE domI singletonD)
  then have e: "fs(n := None) = Map.empty" by (auto simp: dom_def fun_eq_iff)
  show "inode_ok (fs(n := None)) new_inode"
    unfolding e by (intro inode_okI) (auto simp: new_inode_def locked_def lv_def level_order)
  show "lv fs m = NO_LOCK" if "m \<noteq> n" using \<open>dom fs = {n}\<close> that by (auto simp: lv_def split: option.splits)
qed

section \<open>The calls\<close>

definition others :: "(nat \<Rightarrow> unixFile option) \<Rightarrow> nat \<Rightarrow> (nat \<Rightarrow> mode) \<Rightarrow> bool \<Rightarrow> bool" where
  "others fs n own x \<longleftrightarrow> (\<forall>m. m \<noteq> n \<longrightarrow> hold_lv (lv fs m) own x)"

definition stored :: "(nat \<Rightarrow> unixFile option) \<Rightarrow> nat \<Rightarrow> (nat \<Rightarrow> mode) \<Rightarrow> bool \<Rightarrow> unixFile option \<Rightarrow> unixInodeInfo \<Rightarrow> bool" where
  "stored fs n own x f i \<longleftrightarrow> inode_ok (fs(n := f)) i \<and> hold_lv (eFileLock i) own x"

lemma unixFileLock_plain [simp]:
  "\<not> ctrl_excl f \<Longrightarrow> \<not> bProcessLock i \<Longrightarrow> unixFileLock f i l k = Setlk l (\<lambda>rc. k rc i)"
  by (simp add: unixFileLock_def)

lemma note_errno_simps [simp]:
  "fileLock (note_errno rc e f) = fileLock f" "ctrl_excl (note_errno rc e f) = ctrl_excl f"
  by (simp_all add: note_errno_def)

lemma sqliteErrorFromPosixError_fails: "rc \<noteq> SQLITE_OK \<Longrightarrow> sqliteErrorFromPosixError e rc \<noteq> SQLITE_OK"
  by (cases e) (simp_all add: sqliteErrorFromPosixError_def)

lemma lock_error [simp]: "SQLITE_OK \<noteq> sqliteErrorFromPosixError e SQLITE_IOERR_LOCK"
  using sqliteErrorFromPosixError_fails [of SQLITE_IOERR_LOCK e] by simp

lemma hold_lv_reading: "hold_lv e own x \<Longrightarrow> e \<noteq> NO_LOCK \<Longrightarrow> reading own"
  by (cases e) simp_all

lemma others_reading:
  assumes ok: "inode_ok fs i" and "SHARED_LOCK < lv fs n \<or> eFileLock i \<in> {NO_LOCK, SHARED_LOCK}" and r: "reading own"
  shows "others fs n own x"
proof -
  have "lv fs m \<in> {NO_LOCK, SHARED_LOCK}" if "m \<noteq> n" for m
  proof -
    have "\<not> SHARED_LOCK < lv fs m"
      using assms(2) only_one_above [OF ok, of n m] inode_okD(8) [OF ok, of m] that by (auto simp: level_order)
    then show ?thesis by (cases "lv fs m") (simp_all add: level_order)
  qed
  then show ?thesis using r unfolding others_def by (metis empty_iff hold_lv.simps(1,2) insert_iff)
qed

lemma unixLock_wp:
  assumes ok: "inode_ok fs i" and f: "fs n = Some f" and held: "hold_lv (eFileLock i) own x" and call: "call_ok f (Lock e)"
  shows "wp (others fs n) (\<lambda>own x (rc, f', i'). stored fs n own x (Some f') i') (unixLock f i e) own x"
proof -
  note d = inode_okD [OF ok]
  have plain: "\<not> ctrl_excl f" "\<not> bProcessLock i" using d(5,10) f by blast+
  have n: "lv fs n = fileLock f" using f by (simp add: lv_def)
  have same: "stored fs n own x (Some f') i" if "fileLock f' = fileLock f" "\<not> ctrl_excl f'" "hold_lv (eFileLock i) own x" for f' own x
    using inode_file [OF ok f that(1,2)] that(3) by (simp add: stored_def)
  have others: "others fs n own x" using others_hold [OF ok held] by (simp add: others_def)
  consider (no) "e \<le> fileLock f" | (busy) "\<not> e \<le> fileLock f" "fileLock f \<noteq> eFileLock i" "PENDING_LOCK \<le> eFileLock i \<or> SHARED_LOCK < e"
    | (join) "fileLock f = NO_LOCK" "e = SHARED_LOCK" "eFileLock i \<in> {SHARED_LOCK, RESERVED_LOCK}"
    | (first) "fileLock f = NO_LOCK" "e = SHARED_LOCK" "eFileLock i = NO_LOCK"
    | (reserve) "fileLock f = SHARED_LOCK" "e = RESERVED_LOCK" "eFileLock i = SHARED_LOCK"
    | (exclusive) "fileLock f \<in> {SHARED_LOCK, RESERVED_LOCK, PENDING_LOCK}" "e = EXCLUSIVE_LOCK" "eFileLock i = fileLock f"
    using call by (cases e; cases "fileLock f"; cases "eFileLock i") (simp_all add: call_ok_def level_order)
  then show ?thesis
  proof cases
    case no
    then show ?thesis using same [OF _ plain(1) held] others by (simp add: unixLock_def)
  next
    case busy
    then show ?thesis using same [OF _ plain(1) held] others by (simp add: unixLock_def)
  next
    case join
    then show ?thesis using inode_lock_more [OF ok f join(1,3)] held others
      by (auto simp: unixLock_def stored_def level_order)
  next
    case first
    have others: "others fs n own x" for own x
      using inode_unlocked [OF ok] d(6) first(3) by (simp add: others_def)
    have "stored fs n own x (Some (f\<lparr>fileLock := SHARED_LOCK\<rparr>)) (i\<lparr>nLock := nLock i + 1, nShared := 1, eFileLock := SHARED_LOCK\<rparr>)"
      if "reading own" for own x
      using inode_lock_first [OF ok f first(3) refl] that by (simp add: stored_def)
    then show ?thesis
      using first plain others same by (simp add: unixLock_def lock_main_def lock_shared_def lock_done_def level_order Let_def)
  next
    case reserve
    have others: "others fs n own x" if "reading own" for own x
      using others_reading [OF ok _ that, of n] reserve(3) by simp
    have "stored fs n own x (Some (f\<lparr>fileLock := RESERVED_LOCK\<rparr>)) (i\<lparr>eFileLock := RESERVED_LOCK\<rparr>)"
      if "reading own" "own RESERVED_BYTE = Wr" for own x
      using inode_raise [OF ok f, of RESERVED_LOCK "f\<lparr>fileLock := RESERVED_LOCK\<rparr>"] reserve plain that
      by (simp add: stored_def level_order)
    then show ?thesis
      using reserve plain others same held
      by (simp add: unixLock_def lock_main_def lock_done_def level_order Let_def sqliteErrorFromPosixError_fails)
  next
    case exclusive
    have r: "reading own" using held hold_lv_reading exclusive(1,3) by auto
    have others: "others fs n own x" if "reading own" for own x
      using others_reading [OF ok _ that, of n] exclusive(1,3) n by (auto simp: level_order)
    have raise: "stored fs n own x (Some f') (i\<lparr>eFileLock := e'\<rparr>)"
      if "e' \<in> {PENDING_LOCK, EXCLUSIVE_LOCK}" "hold_lv e' own x" "e' = EXCLUSIVE_LOCK \<longrightarrow> nShared i = 1"
        "fileLock f' = e'" "\<not> ctrl_excl f'" for own x e' f'
    proof -
      have "SHARED_LOCK < e'" using that(1) by (auto simp: level_order)
      then show ?thesis using inode_raise [OF ok f, of e' f'] exclusive that by (auto simp: stored_def)
    qed
    have "nShared i \<noteq> 0" using d(6) exclusive(1,3) by auto
    moreover have "0 \<le> nShared i" using d(3) by simp
    ultimately have one: "\<not> 1 < nShared i \<Longrightarrow> nShared i = 1" by simp
    have main: "wp (others fs n) (\<lambda>own x (rc, f', i'). stored fs n own x (Some f') i') (lock_main f i EXCLUSIVE_LOCK) own x"
      if "reading own" "own PENDING_BYTE = Wr" for own x
      using that plain others one
      by (auto simp: lock_main_def lock_done_def Let_def sqliteErrorFromPosixError_fails intro!: raise)
    have pend: "own PENDING_BYTE = Wr" if "\<not> fileLock f < PENDING_LOCK"
      using held exclusive(1,3) that by (auto simp: level_order)
    show ?thesis using exclusive plain r others same held pend
      by (auto simp: unixLock_def level_order Let_def intro!: main)
  qed
qed

lemma wp_close_fds:
  assumes "\<And>own x. M own x" and "\<And>own x. wp M Q c own x"
  shows "wp M Q (close_fds fds c) own x"
  using assms by (induction fds arbitrary: own x) auto

lemma hold_lv_downgrade:
  "hold_lv e own x \<Longrightarrow>
   hold_lv e (upd (shared_range F_RDLCK) own)
     (upd (shared_range F_RDLCK) own PENDING_BYTE = Wr \<and> (x \<or> writing (upd (shared_range F_RDLCK) own)))"
  by (cases e) simp_all

lemma unlock_shared_wp:
  assumes ok: "inode_ok fs i" and f: "fs n = Some f" "fileLock f \<noteq> NO_LOCK"
    and i1: "i1 = i\<lparr>eFileLock := e1\<rparr>" "e1 = (if SHARED_LOCK < fileLock f then SHARED_LOCK else eFileLock i)"
    and held: "hold_lv e1 own x" and o: "others fs n own x"
  shows "wp (others fs n) (\<lambda>own x (rc, f', i'). stored fs n own x (Some f') i') (unlock_shared f i1 NO_LOCK) own x"
proof -
  note d = inode_okD [OF ok]
  have plain: "\<not> ctrl_excl f" "\<not> bProcessLock i" using d(5,10) f by blast+
  have n: "lv fs n = fileLock f" using f by (simp add: lv_def)
  have rel: "inode_ok (fs(n \<mapsto> f')) (released f i)" if "fileLock f' = NO_LOCK" "\<not> ctrl_excl f'" for f'
    using inode_release [OF ok f that] .
  show ?thesis
  proof (cases "nShared i = 1")
    case True
    have oth: "others fs n own x" for own x
      using inode_single [OF ok True, of n] n f by (auto simp: others_def)
    have "stored fs n own x (Some f') (released f i\<lparr>pUnused := []\<rparr>)" if "fileLock f' = NO_LOCK" "\<not> ctrl_excl f'" for f' own x
      using rel [OF that] True by (simp add: stored_def inode_congs) (simp add: released_def)
    moreover have "released f i\<lparr>pUnused := []\<rparr> = i\<lparr>nShared := 0, eFileLock := NO_LOCK, nLock := 0, pUnused := []\<rparr>"
      using True d(4) by (simp add: released_def)
    ultimately show ?thesis using True plain oth d(4)
      by (auto simp: unlock_shared_def unlock_count_def unlock_done_def closePendingFds_def i1 Let_def intro!: wp_close_fds)
  next
    case False
    have "stored fs n own x (Some (f\<lparr>fileLock := NO_LOCK\<rparr>)) (released f i)"
      using rel [of "f\<lparr>fileLock := NO_LOCK\<rparr>"] False plain held by (auto simp: stored_def released_def i1)
    moreover have "released f i = i1\<lparr>nShared := nShared i - 1, nLock := nLock i - 1\<rparr>"
      using False by (simp add: released_def i1)
    ultimately show ?thesis using False o d(4)
      by (simp add: unlock_shared_def unlock_count_def unlock_done_def i1 Let_def)
  qed
qed

lemma unlock_pending_wp:
  assumes ok: "inode_ok fs i" and f: "fs n = Some f" "SHARED_LOCK < fileLock f"
    and held: "hold_lv (eFileLock i) own x" and e: "e \<le> SHARED_LOCK"
  shows "wp (others fs n) (\<lambda>own x (rc, f', i'). stored fs n own x (Some f') i') (unlock_pending f i e) own x"
proof -
  note d = inode_okD [OF ok]
  have plain: "\<not> ctrl_excl f" "\<not> bProcessLock i" using d(5,10) f by blast+
  have n: "lv fs n = fileLock f" "fileLock f = eFileLock i" "fileLock f \<noteq> NO_LOCK"
    using f d(8) [of n] by (auto simp: lv_def level_order)
  then have r: "reading own" using held hold_lv_reading by auto
  have oth: "others fs n own x" if "reading own" for own x
    using others_reading [OF ok _ that, of n] f(2) n by simp
  have fail: "stored fs n own x (Some (f\<lparr>lastErrno := Some en\<rparr>)) i" for en
    using inode_file [OF ok f(1), of "f\<lparr>lastErrno := Some en\<rparr>"] plain held by (simp add: stored_def)
  have "wp (others fs n) (\<lambda>own x (rc, f', i'). stored fs n own x (Some f') i')
      (unlock_shared f (i\<lparr>eFileLock := SHARED_LOCK\<rparr>) e) own x" if "reading own" for own x
  proof (cases "e = NO_LOCK")
    case True
    then show ?thesis using unlock_shared_wp [OF ok f(1) n(3) refl refl _ oth] that f(2) by simp
  next
    case False
    then have e: "e = SHARED_LOCK" using e by (cases e) (simp_all add: level_order)
    have "stored fs n own x (Some (f\<lparr>fileLock := SHARED_LOCK\<rparr>)) (i\<lparr>eFileLock := SHARED_LOCK\<rparr>)"
      using inode_lower [OF ok f, of "f\<lparr>fileLock := SHARED_LOCK\<rparr>"] plain that by (simp add: stored_def)
    then show ?thesis using oth that by (simp add: unlock_shared_def unlock_done_def e)
  qed
  then show ?thesis using plain r oth fail by (simp add: unlock_pending_def)
qed

lemma posixUnlock_wp:
  assumes ok: "inode_ok fs i" and f: "fs n = Some f" and held: "hold_lv (eFileLock i) own x" and e: "e \<le> SHARED_LOCK"
  shows "wp (others fs n) (\<lambda>own x (rc, f', i'). stored fs n own x (Some f') i') (posixUnlock f i e) own x"
proof -
  note d = inode_okD [OF ok]
  have plain: "\<not> ctrl_excl f" "\<not> bProcessLock i" using d(5,10) f by blast+
  have n: "lv fs n = fileLock f" using f by (simp add: lv_def)
  have others: "others fs n own x" using others_hold [OF ok held] by (simp add: others_def)
  have same: "stored fs n own x (Some (f\<lparr>lastErrno := en\<rparr>)) i" if "hold_lv (eFileLock i) own x" for en own x
    using inode_file [OF ok f, of "f\<lparr>lastErrno := en\<rparr>"] plain that by (simp add: stored_def)
  consider (no) "fileLock f \<le> e" | (shared) "fileLock f = SHARED_LOCK" "e = NO_LOCK" | (high) "SHARED_LOCK < fileLock f"
    using e by (cases e; cases "fileLock f") (simp_all add: level_order)
  then show ?thesis
  proof cases
    case no
    then show ?thesis using same [OF held, of "lastErrno f"] others by (simp add: posixUnlock_def)
  next
    case shared
    then show ?thesis using unlock_shared_wp [OF ok f _ _ refl _ others, of i] held by (simp add: posixUnlock_def level_order)
  next
    case high
    have "\<not> fileLock f \<le> e" using high e by (auto simp: level_order)
    moreover have "fileLock f \<noteq> NO_LOCK" using high by (auto simp: level_order)
    then have "reading own" using hold_lv_reading [OF held] n inode_ok_lv [OF ok, of n] by simp
    ultimately show ?thesis
      using high plain others same [OF held] unlock_pending_wp [OF ok f high _ e] held hold_lv_downgrade [OF held]
      by (cases "e = SHARED_LOCK") (simp_all add: posixUnlock_def)
  qed
qed

lemma stored_pUnused [simp]: "stored fs n own x f (i\<lparr>pUnused := u\<rparr>) = stored fs n own x f i"
  by (simp add: stored_def inode_congs)

lemma unixClose_wp:
  assumes ok: "inode_ok fs i" and f: "fs n = Some f" and held: "hold_lv (eFileLock i) own x"
  shows "wp (others fs n) (\<lambda>own x i'. stored fs n own x None i') (unixClose f i) own x"
proof -
  have rest: "wp (others fs n) (\<lambda>own x i'. stored fs n own x None i')
      (let (pFile, pInode) = (if nLock i' \<noteq> 0 then setPendingFd f' i' else (f', i'))
        in releaseInodeInfo pInode (\<lambda>pInode. closeUnixFile pFile (Ret pInode))) own x"
    if st: "stored fs n own x (Some f') i'" and o: "others fs n own x" for own x f' i'
  proof -
    let ?fs = "fs(n \<mapsto> f')"
    have ok: "inode_ok ?fs i'" "hold_lv (eFileLock i') own x" using st by (simp_all add: stored_def)
    note d = inode_okD [OF ok(1)]
    have close: "inode_ok (fs(n := None)) (i'\<lparr>nRef := nRef i' - 1\<rparr>)" if "nRef i' \<noteq> 1"
      using inode_close [OF ok(1) _ that, of n f'] by simp
    have last: "inode_ok (fs(n := None)) new_inode" "\<And>own x. others fs n own x" if "nRef i' = 1"
      using inode_last [OF ok(1) _ that, of n f'] by (auto simp: others_def)
    have none: "others fs n own x" if "nLock i' = 0" for own x
    proof -
      have "lv fs m = NO_LOCK" if "m \<noteq> n" for m
        using inode_unlocked [OF ok(1), of m] d(4) \<open>nLock i' = 0\<close> that by simp
      then show ?thesis by (simp add: others_def)
    qed
    have held: "hold_lv (eFileLock i') own x" if "nLock i' = 0" for own x
      using d(4,6) that by simp
    show ?thesis
    proof (cases "nRef i' = 1")
      case True
      have "stored fs n own x None new_inode" for own x using last(1) [OF True] by (simp add: stored_def new_inode_def)
      then have fin: "wp (others fs n) (\<lambda>own x i'. stored fs n own x None i') (closeUnixFile f2 (Ret new_inode)) own x" for own x f2
        using last(2) [OF True] by (simp add: closeUnixFile_def split: option.split)
      obtain f2 i2 where fi: "(if nLock i' \<noteq> 0 then setPendingFd f' i' else (f', i')) = (f2, i2)" by fastforce
      have "nRef i2 = 1" using fi True by (auto simp: setPendingFd_def split: if_splits option.splits)
      moreover have "wp (others fs n) (\<lambda>own x i'. stored fs n own x None i')
          (close_fds (pUnused i2) (closeUnixFile f2 (Ret new_inode))) own x"
        using last(2) [OF True] fin by (rule wp_close_fds)
      ultimately show ?thesis by (simp add: fi releaseInodeInfo_def closePendingFds_def)
    next
      case False
      have st: "stored fs n own x None (i'\<lparr>nRef := nRef i' - 1\<rparr>)" if "hold_lv (eFileLock i') own x" for own x
        using close [OF False] that by (simp add: stored_def)
      have st': "stored fs n own x None (i'\<lparr>pUnused := u, nRef := nRef i' - 1\<rparr>)" if "hold_lv (eFileLock i') own x" for own x u
        using st [OF that] by (simp add: stored_def inode_congs)
      show ?thesis
      proof (cases "nLock i' = 0")
        case True
        then show ?thesis using False none held st
          by (auto simp: releaseInodeInfo_def closeUnixFile_def Let_def split: option.splits)
      next
        case l: False
        then show ?thesis using False o st [OF ok(2)] st' [OF ok(2)]
          by (auto simp: setPendingFd_def releaseInodeInfo_def closeUnixFile_def Let_def split: option.splits)
      qed
    qed
  qed
  show ?thesis
    unfolding unixClose_def unixUnlock_def
    by (intro wp_bind wp_mono [OF posixUnlock_wp [OF ok f held]])
      (simp_all only: split_paired_all prod.case rest, simp add: level_order)
qed

lemma call_wp:
  assumes ok: "inode_ok fs i" and f: "fs n = Some f" and held: "hold_lv (eFileLock i) own x" and call: "call_ok f c"
  shows "wp (others fs n) (\<lambda>own x (f', i'). stored fs n own x f' i') (call_prog f i c) own x"
proof (cases c)
  case (Lock e)
  have "call_ok f (Lock e)" using call Lock by simp
  from unixLock_wp [OF ok f held this] show ?thesis
    unfolding Lock call_prog_def call.case by (intro wp_bind) (erule wp_mono, auto)
next
  case (Unlock e)
  have "e \<le> SHARED_LOCK" using call Unlock by (simp add: call_ok_def)
  from posixUnlock_wp [OF ok f held this] show ?thesis
    unfolding Unlock call_prog_def call.case unixUnlock_def by (intro wp_bind) (erule wp_mono, auto)
next
  case Close_file
  from unixClose_wp [OF ok f held] show ?thesis
    unfolding Close_file call_prog_def call.case by (intro wp_bind) (erule wp_mono, auto)
qed

section \<open>Safety\<close>

definition alone :: "('os \<Rightarrow> nat \<Rightarrow> nat \<Rightarrow> mode) \<Rightarrow> 'os \<Rightarrow> nat \<Rightarrow> bool" where
  "alone held w p \<longleftrightarrow> held w p PENDING_BYTE = Wr \<and> (\<forall>q b. q \<noteq> p \<and> b \<in> shared_bytes \<longrightarrow> held w q b = Unlocked)"

definition mutex :: "('os \<Rightarrow> nat \<Rightarrow> nat \<Rightarrow> mode) \<Rightarrow> 'os \<Rightarrow> bool" where
  "mutex held w \<longleftrightarrow> (\<forall>p q b. p \<noteq> q \<and> held w p b = Wr \<longrightarrow> held w q b = Unlocked)"

definition process_ok :: "('os \<Rightarrow> nat \<Rightarrow> nat \<Rightarrow> mode) \<Rightarrow> 'os sys \<Rightarrow> nat \<Rightarrow> bool" where
  "process_ok held s p \<longleftrightarrow> inode_ok (files s p) (inode s p) \<and>
     (\<exists>x. (x \<longrightarrow> alone held (os s) p) \<and>
       (case running s p of
          None \<Rightarrow> hold_lv (eFileLock (inode s p)) (held (os s) p) x
        | Some (n, c) \<Rightarrow> wp (others (files s p) n) (\<lambda>own x (f, i). stored (files s p) n own x f i) c (held (os s) p) x))"

definition sys_ok :: "('os \<Rightarrow> nat \<Rightarrow> nat \<Rightarrow> mode) \<Rightarrow> 'os sys \<Rightarrow> bool" where
  "sys_ok held s \<longleftrightarrow> mutex held (os s) \<and> (\<forall>p. process_ok held s p)"

text \<open>The file is not the one that a call of its process is working on.\<close>

definition settled :: "'os sys \<Rightarrow> nat \<Rightarrow> nat \<Rightarrow> bool" where
  "settled s p n \<longleftrightarrow> (case running s p of Some (m, _) \<Rightarrow> m \<noteq> n | None \<Rightarrow> True)"

lemma mutexD: "mutex held w \<Longrightarrow> held w p b = Wr \<Longrightarrow> q \<noteq> p \<Longrightarrow> held w q b = Unlocked"
  by (metis mutex_def)

context advisory_locks
begin

lemma setlk_mutex:
  assumes "mutex held w" and "setlk w p l = (None, w1)"
  shows "mutex held w1"
proof -
  have "held w1 r b = Unlocked" if "q \<noteq> r" "held w1 q b = Wr" for q r b
    using assms(1) that setlk_done [OF assms(2)] setlk_free [OF assms(2)]
    by (cases "l_type l") (auto simp: mutex_def split: if_splits; metis compatible.simps)+
  then show ?thesis by (auto simp: mutex_def)
qed

lemma alone_own:
  assumes "mutex held w" and "setlk w p l = (None, w1)" and "x \<longrightarrow> alone held w p"
    and "upd l (held w p) PENDING_BYTE = Wr \<and> (x \<or> writing (upd l (held w p)))"
  shows "alone held w1 p"
proof -
  have own: "held w1 p = upd l (held w p)" using setlk_done [OF assms(2)] by (auto simp: upd_def)
  have "held w1 q b = Unlocked" if "q \<noteq> p" "b \<in> shared_bytes" for q b
  proof (cases x)
    case True
    then show ?thesis using assms(3) that setlk_done [OF assms(2)] by (auto simp: alone_def)
  next
    case False
    then have "held w1 p b = Wr" using assms(4) own that(2) by (auto simp: writing_def)
    then show ?thesis using mutexD [OF setlk_mutex [OF assms(1,2)]] that(1) by simp
  qed
  then show ?thesis using own assms(4) by (simp add: alone_def)
qed

lemma alone_other:
  assumes "mutex held w" and "setlk w q l = (None, w1)" and "alone held w p" and "p \<noteq> q" and "polite l (held w q)"
  shows "alone held w1 p"
proof -
  have "held w q PENDING_BYTE = Unlocked" using assms(1,3,4) by (auto simp: alone_def mutex_def)
  moreover have "held w q b = Unlocked" if "b \<in> shared_bytes" for b using assms(3,4) that by (auto simp: alone_def)
  ultimately have "l_type l = F_UNLCK \<or> (\<forall>b\<in>shared_bytes. \<not> covers l b)" using assms(5) by (auto simp: polite_def)
  then show ?thesis using assms(3,4) setlk_done [OF assms(2)] by (auto simp: alone_def)
qed

lemma process_frame:
  assumes "process_ok held s p" and "files s1 p = files s p" "inode s1 p = inode s p" "running s1 p = running s p"
    and "held (os s1) p = held (os s) p" and "alone held (os s) p \<Longrightarrow> alone held (os s1) p"
  shows "process_ok held s1 p"
  using assms(1,6) unfolding process_ok_def assms(2-5) by blast

lemma process_other:
  assumes "mutex held (os s)" and "process_ok held s p" and "setlk (os s) q l = (None, w1)" and "p \<noteq> q"
    and "polite l (held (os s) q)" and "files s1 p = files s p" "inode s1 p = inode s p" "running s1 p = running s p" "os s1 = w1"
  shows "process_ok held s1 p"
proof (rule process_frame [OF assms(2,6,7,8)])
  show "held (os s1) p = held (os s) p" using setlk_done [OF assms(3)] assms(4,9) by auto
  show "alone held (os s1) p" if "alone held (os s) p"
    using alone_other [OF assms(1,3) that assms(4,5)] assms(9) by simp
qed

lemma sys_okI:
  "mutex held (os t) \<Longrightarrow> process_ok held t p \<Longrightarrow> (\<And>q. q \<noteq> p \<Longrightarrow> process_ok held t q) \<Longrightarrow> sys_ok held t"
  unfolding sys_ok_def by metis

lemma sys_ok_step:
  assumes "step setlk getlk closefd s t" and "sys_ok held s"
  shows "sys_ok held t"
  using assms
proof (induction rule: step.induct)
  case (step_open s p n fd)
  then have s: "mutex held (os s)" "\<And>q. process_ok held s q" by (simp_all add: sys_ok_def)
  let ?t = "s\<lparr>files := (files s)(p := (files s p)(n \<mapsto> new_file fd)),
         inode := (inode s)(p := (inode s p)\<lparr>nRef := nRef (inode s p) + 1\<rparr>)\<rparr>"
  have "process_ok held ?t p"
    using s(2) [of p] inode_open [where fs = "files s p" and n = n, OF _ step_open.hyps(2), of "inode s p" fd] step_open.hyps(1) by (auto simp: process_ok_def)
  moreover have "process_ok held ?t q" if "q \<noteq> p" for q
    using that by (intro process_frame [OF s(2)]) auto
  ultimately show ?case using s(1) by (intro sys_okI [of ?t p]) simp_all
next
  case (step_call s p n f c)
  then have s: "mutex held (os s)" "\<And>q. process_ok held s q" by (simp_all add: sys_ok_def)
  let ?t = "s\<lparr>running := (running s)(p \<mapsto> (n, call_prog f (inode s p) c))\<rparr>"
  have "process_ok held ?t p"
    using s(2) [of p] call_wp [where fs = "files s p", OF _ step_call.hyps(2) _ step_call.hyps(3), of "inode s p"] step_call.hyps(1)
    by (auto simp: process_ok_def)
  moreover have "process_ok held ?t q" if "q \<noteq> p" for q
    using that by (intro process_frame [OF s(2)]) auto
  ultimately show ?case using s(1) by (intro sys_okI [of ?t p]) simp_all
next
  case (step_setlk s p n l k r w1)
  then have s: "mutex held (os s)" "\<And>q. process_ok held s q" by (simp_all add: sys_ok_def)
  let ?t = "s\<lparr>os := w1, running := (running s)(p \<mapsto> (n, k r))\<rparr>"
  let ?M = "others (files s p) n" and ?Q = "\<lambda>own x (f, i). stored (files s p) n own x f i"
  obtain x where x: "x \<longrightarrow> alone held (os s) p" "polite l (held (os s) p)"
      "\<And>e. wp ?M ?Q (k (Some e)) (held (os s) p) x"
      "wp ?M ?Q (k None) (upd l (held (os s) p))
        (upd l (held (os s) p) PENDING_BYTE = Wr \<and> (x \<or> writing (upd l (held (os s) p))))"
    using s(2) [of p] step_setlk.hyps(1) by (auto simp: process_ok_def)
  have ok: "inode_ok (files s p) (inode s p)" using s(2) [of p] by (simp add: process_ok_def)
  show ?case
  proof (cases r)
    case None
    have own: "held w1 p = upd l (held (os s) p)"
      using setlk_done [of "os s" p l w1] step_setlk.hyps(2) None by (auto simp: upd_def)
    have "process_ok held ?t p"
      using ok x(4) None alone_own [OF s(1) step_setlk.hyps(2) [unfolded None] x(1)] unfolding process_ok_def
      by (auto simp: own intro!: exI [of _ "upd l (held (os s) p) PENDING_BYTE = Wr \<and> (x \<or> writing (upd l (held (os s) p)))"])
    moreover have "process_ok held ?t q" if "q \<noteq> p" for q
      using that by (intro process_other [OF s(1,2) step_setlk.hyps(2) [unfolded None] _ x(2)]) auto
    moreover have "mutex held w1" using setlk_mutex [OF s(1)] step_setlk.hyps(2) None by simp
    ultimately show ?thesis by (intro sys_okI [of ?t p]) simp_all
  next
    case (Some e)
    have same: "held w1 = held (os s)" using setlk_failed step_setlk.hyps(2) Some by simp
    have "process_ok held ?t p" using ok x(1,3) Some same by (auto simp: process_ok_def alone_def)
    moreover have "process_ok held ?t q" if "q \<noteq> p" for q
      using that same by (intro process_frame [OF s(2)]) (auto simp: alone_def)
    ultimately show ?thesis using s(1) same by (intro sys_okI [of ?t p]) (simp_all add: mutex_def)
  qed
next
  case (step_getlk s p n l k)
  then have s: "mutex held (os s)" "\<And>q. process_ok held s q" by (simp_all add: sys_ok_def)
  let ?t = "s\<lparr>running := (running s)(p \<mapsto> (n, k (getlk (os s) p l)))\<rparr>"
  have "process_ok held ?t p" using s(2) [of p] step_getlk.hyps by (auto simp: process_ok_def)
  moreover have "process_ok held ?t q" if "q \<noteq> p" for q
    using that by (intro process_frame [OF s(2)]) auto
  ultimately show ?case using s(1) by (intro sys_okI [of ?t p]) simp_all
next
  case (step_close s p n fd k)
  then have s: "mutex held (os s)" "\<And>q. process_ok held s q" by (simp_all add: sys_ok_def)
  let ?t = "s\<lparr>os := closefd (os s) p fd, running := (running s)(p \<mapsto> (n, k))\<rparr>"
  have "held (closefd (os s) p fd) p = (\<lambda>_. Unlocked)" using close_drops by auto
  moreover have "wp (others (files s p) n) (\<lambda>own x (f, i). stored (files s p) n own x f i) k (\<lambda>_. Unlocked) False"
    "inode_ok (files s p) (inode s p)"
    using s(2) [of p] step_close.hyps by (auto simp: process_ok_def)
  ultimately have "process_ok held ?t p" unfolding process_ok_def by (intro conjI exI [of _ False]) simp_all
  moreover have "process_ok held ?t q" if "q \<noteq> p" for q
    using that close_drops by (intro process_frame [OF s(2)]) (auto simp: alone_def)
  moreover have "mutex held (closefd (os s) p fd)"
    using s(1) close_drops unfolding mutex_def by (metis mode.distinct(3))
  ultimately show ?case by (intro sys_okI [of ?t p]) simp_all
next
  case (step_return s p n f i)
  then have s: "mutex held (os s)" "\<And>q. process_ok held s q" by (simp_all add: sys_ok_def)
  let ?t = "s\<lparr>files := (files s)(p := (files s p)(n := f)), inode := (inode s)(p := i), running := (running s)(p := None)\<rparr>"
  have "process_ok held ?t p" using s(2) [of p] step_return.hyps by (auto simp: process_ok_def stored_def)
  moreover have "process_ok held ?t q" if "q \<noteq> p" for q
    using that by (intro process_frame [OF s(2)]) auto
  ultimately show ?case using s(1) by (intro sys_okI [of ?t p]) simp_all
qed

lemma sys_ok_start:
  assumes "\<And>p b. held os0 p b = Unlocked"
  shows "sys_ok held (start os0)"
proof -
  have "inode_ok (\<lambda>_. None) new_inode"
    by (intro inode_okI) (auto simp: new_inode_def locked_def lv_def level_order)
  then show ?thesis using assms by (auto simp: sys_ok_def mutex_def process_ok_def start_def new_inode_def)
qed

lemma sys_ok_reachable:
  assumes "(step setlk getlk closefd)\<^sup>*\<^sup>* (start os0) s" and "\<And>p b. held os0 p b = Unlocked"
  shows "sys_ok held s"
  using assms(1)
proof induction
  case base
  show ?case using assms(2) by (rule sys_ok_start)
next
  case (step t u)
  then show ?case by (blast intro: sys_ok_step)
qed

lemma settled_hold:
  assumes ok: "process_ok held s p" and st: "settled s p n"
  shows "hold_lv (lv (files s p) n) (held (os s) p) (alone held (os s) p)"
proof -
  obtain x where x: "x \<longrightarrow> alone held (os s) p" "inode_ok (files s p) (inode s p)"
      "case running s p of
          None \<Rightarrow> hold_lv (eFileLock (inode s p)) (held (os s) p) x
        | Some (n, c) \<Rightarrow> wp (others (files s p) n) (\<lambda>own x (f, i). stored (files s p) n own x f i) c (held (os s) p) x"
    using ok unfolding process_ok_def by blast
  have "hold_lv (lv (files s p) n) (held (os s) p) x"
  proof (cases "running s p")
    case None
    then show ?thesis using others_hold [OF x(2)] x(3) by simp
  next
    case (Some a)
    then obtain m c where run: "running s p = Some (m, c)" by (cases a) simp
    then have "others (files s p) m (held (os s) p) x" using x(3) wp_M by fastforce
    then show ?thesis using st run by (simp add: others_def settled_def)
  qed
  then show ?thesis using x(1) by (cases "lv (files s p) n") simp_all
qed

lemma exclusion:
  assumes ok: "sys_ok held s" and st: "settled s p n" "settled s q m" and ne: "(p, n) \<noteq> (q, m)"
  shows "lv (files s p) n = EXCLUSIVE_LOCK \<Longrightarrow> lv (files s q) m = NO_LOCK"
    and "lv (files s p) n = RESERVED_LOCK \<Longrightarrow> lv (files s q) m \<noteq> RESERVED_LOCK"
    and "PENDING_LOCK \<le> lv (files s p) n \<Longrightarrow> lv (files s q) m < PENDING_LOCK"
proof -
  have pq: "process_ok held s p" "process_ok held s q" "mutex held (os s)" using ok by (simp_all add: sys_ok_def)
  have i: "inode_ok (files s p) (inode s p)" using pq(1) by (simp add: process_ok_def)
  note hp = settled_hold [OF pq(1) st(1)] and hq = settled_hold [OF pq(2) st(2)]
  have "SHARED_FIRST \<in> shared_bytes" by (simp add: SHARED_SIZE_def)
  then have rd: "\<not> reading own" if "\<forall>b\<in>shared_bytes. own b = Unlocked" for own using that by (auto simp: reading_def)
  show "lv (files s q) m = NO_LOCK" if e: "lv (files s p) n = EXCLUSIVE_LOCK"
  proof (cases "p = q")
    case True
    have "nShared (inode s p) = 1" using inode_okD(7,8) [OF i] e by (metis less_lock_def level.simps(2,5) one_less_numeral_iff semiring_norm(76))
    then show ?thesis using inode_single [OF i _ _ ] e ne True by (metis lock.distinct(7))
  next
    case False
    have "\<forall>b\<in>shared_bytes. held (os s) q b = Unlocked" using hp e False by (auto simp: alone_def)
    then have "\<not> reading (held (os s) q)" by (rule rd)
    then show ?thesis using hold_lv_reading [OF hq] by blast
  qed
  show "lv (files s q) m \<noteq> RESERVED_LOCK" if e: "lv (files s p) n = RESERVED_LOCK"
  proof
    assume r: "lv (files s q) m = RESERVED_LOCK"
    have "held (os s) p RESERVED_BYTE = Wr" "held (os s) q RESERVED_BYTE = Wr" using hp hq e r by simp_all
    then have "p = q" using mutexD [OF pq(3)] by (metis mode.distinct(3))
    then show False using only_one_above [OF i, of n m] e r ne by (simp add: level_order)
  qed
  show "lv (files s q) m < PENDING_LOCK" if e: "PENDING_LOCK \<le> lv (files s p) n"
  proof (rule ccontr)
    assume r: "\<not> lv (files s q) m < PENDING_LOCK"
    have "held (os s) p PENDING_BYTE = Wr" using hp e by (cases "lv (files s p) n") (simp_all add: level_order)
    moreover have "held (os s) q PENDING_BYTE = Wr" using hq r by (cases "lv (files s q) m") (simp_all add: level_order)
    ultimately have "p = q" using mutexD [OF pq(3)] by (metis mode.distinct(3))
    then show False using only_one_above [OF i, of n m] e r ne by (simp add: level_order)
  qed
qed

end

section \<open>POSIX locks of a fixed number of processes\<close>

type_synonym lock_table = "nat \<times> (nat \<Rightarrow> nat \<Rightarrow> mode)"

definition posix_held :: "lock_table \<Rightarrow> nat \<Rightarrow> nat \<Rightarrow> mode" where
  "posix_held w p b = (if p < fst w then snd w p b else Unlocked)"

definition posix_conflict :: "lock_table \<Rightarrow> nat \<Rightarrow> flock \<Rightarrow> bool" where
  "posix_conflict w p l \<longleftrightarrow>
     list_ex (\<lambda>q. q \<noteq> p \<and> list_ex (\<lambda>b. \<not> compatible (l_type l) (snd w q b)) [l_start l..<l_start l + l_len l]) [0..<fst w]"

definition posix_setlk :: "lock_table \<Rightarrow> nat \<Rightarrow> flock \<Rightarrow> errno option \<times> lock_table" where
  "posix_setlk w p l =
     (if fst w \<le> p \<or> l_type l \<noteq> F_UNLCK \<and> l_len l = 0 then (Some (Other_errno 22), w)
      else if l_type l \<noteq> F_UNLCK \<and> posix_conflict w p l then (Some EAGAIN, w)
      else (None, (fst w, (snd w)(p := upd l (snd w p)))))"

definition posix_getlk :: "lock_table \<Rightarrow> nat \<Rightarrow> flock \<Rightarrow> errno + flock_type" where
  "posix_getlk w p l =
     (if l_type l = F_UNLCK \<or> l_len l = 0 then Inl (Other_errno 22)
      else Inr (if posix_conflict w p l then F_WRLCK else F_UNLCK))"

definition posix_closefd :: "lock_table \<Rightarrow> nat \<Rightarrow> nat \<Rightarrow> lock_table" where
  "posix_closefd w p fd = (fst w, (snd w)(p := \<lambda>_. Unlocked))"

lemma compatible_Unlocked [simp]: "compatible t Unlocked"
  by (cases t) simp_all

lemma posix_conflict_iff:
  "l_len l \<noteq> 0 \<Longrightarrow> posix_conflict w p l \<longleftrightarrow>
     (\<exists>q b. q \<noteq> p \<and> covers l b \<and> \<not> compatible (l_type l) (posix_held w q b))"
proof -
  assume l: "l_len l \<noteq> 0"
  have "posix_conflict w p l \<longleftrightarrow> (\<exists>q<fst w. q \<noteq> p \<and> (\<exists>b. l_start l \<le> b \<and> b < l_start l + l_len l \<and> \<not> compatible (l_type l) (snd w q b)))"
    by (simp add: posix_conflict_def list_ex_iff atLeastLessThan_iff Bex_def)
  also have "\<dots> \<longleftrightarrow> (\<exists>q b. q \<noteq> p \<and> covers l b \<and> \<not> compatible (l_type l) (posix_held w q b))"
  proof
    assume "\<exists>q b. q \<noteq> p \<and> covers l b \<and> \<not> compatible (l_type l) (posix_held w q b)"
    then obtain q b where qb: "q \<noteq> p" "covers l b" "\<not> compatible (l_type l) (posix_held w q b)" by blast
    then have "q < fst w" "posix_held w q b = snd w q b" by (auto simp: posix_held_def split: if_splits)
    with qb l show "\<exists>q<fst w. q \<noteq> p \<and> (\<exists>b. l_start l \<le> b \<and> b < l_start l + l_len l \<and> \<not> compatible (l_type l) (snd w q b))"
      unfolding covers_def by auto
  qed (use l in \<open>auto simp: covers_def posix_held_def\<close>)
  finally show ?thesis .
qed

interpretation posix: advisory_locks posix_held posix_setlk posix_getlk posix_closefd
proof
  fix w w1 p l q b
  assume *: "posix_setlk w p l = (None, w1)"
  then show "posix_held w1 q b = (if q = p \<and> covers l b then mode_of (l_type l) else posix_held w q b)"
    by (auto simp: posix_setlk_def posix_held_def upd_def split: if_splits)
  assume "covers l b" "q \<noteq> p"
  then show "compatible (l_type l) (posix_held w q b)"
    using * posix_conflict_iff [of l w p] by (cases "l_type l = F_UNLCK") (auto simp: posix_setlk_def split: if_splits)
qed (auto simp: posix_setlk_def posix_getlk_def posix_closefd_def posix_held_def fun_eq_iff posix_conflict_iff split: if_splits)

text \<open>A call that no other process interrupts.\<close>

primrec run_prog ::
  "('os \<Rightarrow> nat \<Rightarrow> flock \<Rightarrow> errno option \<times> 'os) \<Rightarrow> ('os \<Rightarrow> nat \<Rightarrow> flock \<Rightarrow> errno + flock_type) \<Rightarrow>
   ('os \<Rightarrow> nat \<Rightarrow> nat \<Rightarrow> 'os) \<Rightarrow> nat \<Rightarrow> 'a prog \<Rightarrow> 'os \<Rightarrow> 'a \<times> 'os" where
  "run_prog setlk getlk closefd p (Ret a) w = (a, w)"
| "run_prog setlk getlk closefd p (Setlk l k) w = (case setlk w p l of (r, w1) \<Rightarrow> run_prog setlk getlk closefd p (k r) w1)"
| "run_prog setlk getlk closefd p (Getlk l k) w = run_prog setlk getlk closefd p (k (getlk w p l)) w"
| "run_prog setlk getlk closefd p (Close fd c) w = run_prog setlk getlk closefd p c (closefd w p fd)"

lemma run_steps:
  assumes "running s p = Some (n, c)" and "run_prog setlk getlk closefd p c (os s) = ((f, i), w)"
  shows "(step setlk getlk closefd)\<^sup>*\<^sup>* s
    (s\<lparr>os := w, files := (files s)(p := (files s p)(n := f)), inode := (inode s)(p := i), running := (running s)(p := None)\<rparr>)"
  using assms
proof (induction c arbitrary: s)
  case (Ret a)
  then have a: "a = (f, i)" "w = os s" by simp_all
  have "running s p = Some (n, Ret (f, i))" using Ret.prems(1) a by simp
  from step_return [OF this, of setlk getlk closefd]
  have "(step setlk getlk closefd)\<^sup>*\<^sup>* s (s\<lparr>files := (files s)(p := (files s p)(n := f)),
      inode := (inode s)(p := i), running := (running s)(p := None)\<rparr>)" by (rule r_into_rtranclp)
  moreover have "s\<lparr>os := w, files := F, inode := I, running := R\<rparr> = s\<lparr>files := F, inode := I, running := R\<rparr>" for F I R
    using a(2) by simp
  ultimately show ?case by (simp only:)
next
  case (Setlk l k)
  obtain r w1 where r: "setlk (os s) p l = (r, w1)" by force
  let ?t = "s\<lparr>os := w1, running := (running s)(p \<mapsto> (n, k r))\<rparr>"
  have "step setlk getlk closefd s ?t" using Setlk.prems(1) r by (rule step_setlk)
  moreover have "(step setlk getlk closefd)\<^sup>*\<^sup>* ?t
    (?t\<lparr>os := w, files := (files ?t)(p := (files ?t p)(n := f)), inode := (inode ?t)(p := i), running := (running ?t)(p := None)\<rparr>)"
    using Setlk.prems(2) r by (intro Setlk.IH) simp_all
  ultimately show ?case by (auto intro: converse_rtranclp_into_rtranclp simp del: fun_upd_apply)
next
  case (Getlk l k)
  let ?t = "s\<lparr>running := (running s)(p \<mapsto> (n, k (getlk (os s) p l)))\<rparr>"
  have "step setlk getlk closefd s ?t" using Getlk.prems(1) by (rule step_getlk)
  moreover have "(step setlk getlk closefd)\<^sup>*\<^sup>* ?t
    (?t\<lparr>os := w, files := (files ?t)(p := (files ?t p)(n := f)), inode := (inode ?t)(p := i), running := (running ?t)(p := None)\<rparr>)"
    using Getlk.prems(2) by (intro Getlk.IH) simp_all
  ultimately show ?case by (auto intro: converse_rtranclp_into_rtranclp simp del: fun_upd_apply)
next
  case (Close fd c)
  let ?t = "s\<lparr>os := closefd (os s) p fd, running := (running s)(p \<mapsto> (n, c))\<rparr>"
  have "step setlk getlk closefd s ?t" using Close.prems(1) by (rule step_close)
  moreover have "(step setlk getlk closefd)\<^sup>*\<^sup>* ?t
    (?t\<lparr>os := w, files := (files ?t)(p := (files ?t p)(n := f)), inode := (inode ?t)(p := i), running := (running ?t)(p := None)\<rparr>)"
    using Close.prems(2) by (intro Close.IH) simp_all
  ultimately show ?case by (auto intro: converse_rtranclp_into_rtranclp simp del: fun_upd_apply)
qed

lemma run_call:
  assumes "running s p = None" and "files s p n = Some fl" and "call_ok fl c"
    and "run_prog setlk getlk closefd p (call_prog fl (inode s p) c) (os s) = ((f, i), w)"
  shows "(step setlk getlk closefd)\<^sup>*\<^sup>* s (s\<lparr>os := w, files := (files s)(p := (files s p)(n := f)), inode := (inode s)(p := i)\<rparr>)"
proof -
  let ?t = "s\<lparr>running := (running s)(p \<mapsto> (n, call_prog fl (inode s p) c))\<rparr>"
  have "step setlk getlk closefd s ?t" using assms(1-3) by (rule step_call)
  moreover have "(step setlk getlk closefd)\<^sup>*\<^sup>* ?t
    (?t\<lparr>os := w, files := (files ?t)(p := (files ?t p)(n := f)), inode := (inode ?t)(p := i), running := (running ?t)(p := None)\<rparr>)"
    using assms(4) by (intro run_steps) simp_all
  ultimately have "(step setlk getlk closefd)\<^sup>*\<^sup>* s
    (?t\<lparr>os := w, files := (files ?t)(p := (files ?t p)(n := f)), inode := (inode ?t)(p := i), running := (running ?t)(p := None)\<rparr>)"
    by (rule converse_rtranclp_into_rtranclp)
  moreover have "?t\<lparr>os := w, files := (files ?t)(p := (files ?t p)(n := f)), inode := (inode ?t)(p := i), running := (running ?t)(p := None)\<rparr> =
      s\<lparr>os := w, files := (files s)(p := (files s p)(n := f)), inode := (inode s)(p := i)\<rparr>"
    by (rule sys.equality) (use assms(1) in auto)
  ultimately show ?thesis by (simp only:)
qed

lemma run_setlk_alone:
  assumes "l_len l \<noteq> 0 \<or> l_type l = F_UNLCK" and "t 1 = (\<lambda>_. Unlocked)"
  shows "run_prog posix_setlk posix_getlk posix_closefd 0 (Setlk l k) (2, t) =
    run_prog posix_setlk posix_getlk posix_closefd 0 (k None) (2, t(0 := upd l (t 0)))"
proof -
  have "\<not> posix_conflict (2, t) 0 l" using assms(2) by (auto simp: posix_conflict_def list_ex_iff less_2_cases_iff One_nat_def)
  then show ?thesis using assms(1) by (auto simp: posix_setlk_def)
qed

lemma run_writer:
  assumes "t 1 = (\<lambda>_. Unlocked)" and "\<not> ctrl_excl f" and "\<not> bProcessLock i"
  shows "fileLock f = NO_LOCK \<Longrightarrow> eFileLock i = NO_LOCK \<Longrightarrow>
      \<exists>t'. t' 1 = (\<lambda>_. Unlocked) \<and> run_prog posix_setlk posix_getlk posix_closefd 0 (call_prog f i (Lock SHARED_LOCK)) (2, t) =
        ((Some (f\<lparr>fileLock := SHARED_LOCK\<rparr>), i\<lparr>nLock := nLock i + 1, nShared := 1, eFileLock := SHARED_LOCK\<rparr>), (2, t'))"
    and "fileLock f = SHARED_LOCK \<Longrightarrow> eFileLock i = SHARED_LOCK \<Longrightarrow> nShared i = 1 \<Longrightarrow>
      \<exists>t'. run_prog posix_setlk posix_getlk posix_closefd 0 (call_prog f i (Lock EXCLUSIVE_LOCK)) (2, t) =
        ((Some (f\<lparr>fileLock := EXCLUSIVE_LOCK\<rparr>), i\<lparr>eFileLock := EXCLUSIVE_LOCK\<rparr>), (2, t'))"
  using assms
  by (simp_all add: call_prog_def unixLock_def lock_main_def lock_shared_def lock_done_def level_order run_setlk_alone
    SHARED_SIZE_def del: run_prog.simps(2))

text \<open>Two processes open the file; the first one takes the locks of a writer.\<close>

lemma writer_run:
  "\<exists>s. (step posix_setlk posix_getlk posix_closefd)\<^sup>*\<^sup>* (start (2, \<lambda>_ _. Unlocked)) s \<and>
     settled s 0 0 \<and> settled s 1 0 \<and> lv (files s 0) 0 = EXCLUSIVE_LOCK \<and> files s 1 0 \<noteq> None"
proof -
  let ?step = "(step posix_setlk posix_getlk posix_closefd)\<^sup>*\<^sup>*"
  define s0 where "s0 = start ((2, \<lambda>_ _. Unlocked) :: lock_table)"
  define s1 where "s1 = s0\<lparr>files := (files s0)(0 := (files s0 0)(0 \<mapsto> new_file 5)),
         inode := (inode s0)(0 := (inode s0 0)\<lparr>nRef := nRef (inode s0 0) + 1\<rparr>)\<rparr>"
  define s2 where "s2 = s1\<lparr>files := (files s1)(1 := (files s1 1)(0 \<mapsto> new_file 5)),
         inode := (inode s1)(1 := (inode s1 1)\<lparr>nRef := nRef (inode s1 1) + 1\<rparr>)\<rparr>"
  note s = s2_def s1_def s0_def start_def
  have r1: "?step s0 s1" unfolding s1_def by (intro r_into_rtranclp step_open) (simp_all add: s0_def start_def)
  have r2: "?step s1 s2" unfolding s2_def
    by (intro r_into_rtranclp step_open) (simp_all add: s0_def s1_def start_def)
  have i: "\<not> bProcessLock (inode s2 0)" "eFileLock (inode s2 0) = NO_LOCK" "os s2 = (2, \<lambda>_ _. Unlocked)"
    by (simp_all add: s new_inode_def)
  have f: "\<not> ctrl_excl (new_file 5)" "fileLock (new_file 5) = NO_LOCK" by (simp_all add: new_file_def)
  define f3 i3 where "f3 = (new_file 5)\<lparr>fileLock := SHARED_LOCK\<rparr>"
    and "i3 = (inode s2 0)\<lparr>nLock := nLock (inode s2 0) + 1, nShared := 1, eFileLock := SHARED_LOCK\<rparr>"
  obtain t3 where t3: "t3 1 = (\<lambda>_. Unlocked)" and c3: "run_prog posix_setlk posix_getlk posix_closefd 0
      (call_prog (new_file 5) (inode s2 0) (Lock SHARED_LOCK)) (os s2) = ((Some f3, i3), (2, t3))"
    using run_writer(1) [OF _ f(1) i(1) f(2) i(2), of "\<lambda>_ _. Unlocked"] i(3) unfolding f3_def i3_def by auto
  define s3 where "s3 = s2\<lparr>os := (2, t3), files := (files s2)(0 := (files s2 0)(0 \<mapsto> f3)), inode := (inode s2)(0 := i3)\<rparr>"
  have r3: "?step s2 s3" unfolding s3_def
    by (rule run_call [OF _ _ _ c3]) (simp_all add: s call_ok_def new_file_def)
  have f3: "fileLock f3 = SHARED_LOCK" by (simp add: f3_def)
  obtain t4 f4 i4 where c4: "run_prog posix_setlk posix_getlk posix_closefd 0
      (call_prog f3 i3 (Lock EXCLUSIVE_LOCK)) (2, t3) = ((Some f4, i4), (2, t4))" and f4: "fileLock f4 = EXCLUSIVE_LOCK"
    using run_writer(2) [where t = t3, OF t3, of f3 i3] f(1) i(1) by (auto simp: f3_def i3_def)
  define s4 where "s4 = s3\<lparr>os := (2, t4), files := (files s3)(0 := (files s3 0)(0 \<mapsto> f4)), inode := (inode s3)(0 := i4)\<rparr>"
  have r4: "?step s3 s4" unfolding s4_def
    by (rule run_call [where c = "Lock EXCLUSIVE_LOCK" and fl = f3]) (simp_all add: s3_def s call_ok_def f3 c4)
  have "?step s0 s4" using r1 r2 r3 r4 by (meson rtranclp_trans)
  moreover have "settled s4 0 0" "settled s4 1 0" "lv (files s4 0) 0 = EXCLUSIVE_LOCK" "files s4 1 0 \<noteq> None"
    by (simp_all add: s4_def s3_def s settled_def lv_def f4)
  ultimately show ?thesis unfolding s0_def by blast
qed

section \<open>Properties\<close>

text \<open>
  C6: For any number of processes and connections that take, lower and drop locks on one
  database file, interleaved at every fcntl and with every system call free to fail: while a
  connection holds the EXCLUSIVE lock no other one holds any lock, and at most one holds the
  RESERVED lock and at most one a PENDING or higher lock.
\<close>

theorem locks_exclude:
  assumes "advisory_locks held setlk getlk closefd" and "\<forall>p b. held os0 p b = Unlocked"
    and "(step setlk getlk closefd)\<^sup>*\<^sup>* (start os0) s"
    and "settled s p n" and "settled s q m" and "(p, n) \<noteq> (q, m)"
  shows "(lv (files s p) n = EXCLUSIVE_LOCK \<longrightarrow> lv (files s q) m = NO_LOCK) \<and>
    (lv (files s p) n = RESERVED_LOCK \<longrightarrow> lv (files s q) m \<noteq> RESERVED_LOCK) \<and>
    (PENDING_LOCK \<le> lv (files s p) n \<longrightarrow> lv (files s q) m < PENDING_LOCK)"
proof -
  have "sys_ok held s" using advisory_locks.sys_ok_reachable [OF assms(1,3)] assms(2) by blast
  from advisory_locks.exclusion [OF assms(1) this assms(4-6)] show ?thesis by blast
qed

theorem locks_exclude_witness:
  "\<exists>s. (step posix_setlk posix_getlk posix_closefd)\<^sup>*\<^sup>* (start (2, \<lambda>_ _. Unlocked)) s \<and>
     lv (files s 0) 0 = EXCLUSIVE_LOCK \<and> files s 1 0 \<noteq> None \<and> lv (files s 1) 0 = NO_LOCK"
proof -
  obtain s where s: "(step posix_setlk posix_getlk posix_closefd)\<^sup>*\<^sup>* (start (2, \<lambda>_ _. Unlocked)) s"
     "settled s 0 0" "settled s 1 0" "lv (files s 0) 0 = EXCLUSIVE_LOCK" "files s 1 0 \<noteq> None"
    using writer_run by blast
  have "advisory_locks posix_held posix_setlk posix_getlk posix_closefd" by (rule posix.advisory_locks_axioms)
  moreover have "\<forall>p b. posix_held (2, \<lambda>_ _. Unlocked) p b = Unlocked" by (simp add: posix_held_def)
  ultimately have "lv (files s 1) 0 = NO_LOCK" using locks_exclude [OF _ _ s(1-3)] s(4) by simp
  with s show ?thesis by blast
qed

text \<open>The answers that a call can give, whatever the system calls return.\<close>

primrec possible :: "'a prog \<Rightarrow> 'a set" where
  "possible (Ret a) = {a}"
| "possible (Setlk l k) = (\<Union>e. possible (k e))"
| "possible (Getlk l k) = (\<Union>r. possible (k r))"
| "possible (Close fd c) = possible c"


lemma possible_close_fds [simp]: "possible (close_fds fds c) = possible c"
  by (induction fds) simp_all



text \<open>Whatever the system calls answer.\<close>





end
