(* ===== verification/Wal_Index.thy ===== *)
theory Wal_Index
  imports Sqlite_Prelude
begin

text \<open>
  The wal-index of wal.c: the hash tables that map a database page to the frames of the
  write-ahead log that hold it.  Frame numbers are natural numbers; the code keeps them in 32
  bits and a log has fewer than 2^32 - 33 frames.  A 32 kB page of the wal-index is the pair of
  its arrays, where aPgno is indexed from 1 as the shifted pointer of walHashGet is.
\<close>

section \<open>The model\<close>

definition HASHTABLE_NPAGE :: nat where "HASHTABLE_NPAGE = 4096"
definition HASHTABLE_HASH_1 :: u32 where "HASHTABLE_HASH_1 = 383"
definition HASHTABLE_NSLOT :: nat where "HASHTABLE_NSLOT = HASHTABLE_NPAGE * 2"
definition WALINDEX_HDR_SIZE :: nat where "WALINDEX_HDR_SIZE = 48 * 2 + 24 + 16"
definition HASHTABLE_NPAGE_ONE :: nat where "HASHTABLE_NPAGE_ONE = HASHTABLE_NPAGE - WALINDEX_HDR_SIZE div 4"

record WalIndexHdr =
  iVersion :: u32
  iChange :: u32
  isInit :: u8
  bigEndCksum :: u8
  szPage16 :: u16              \<comment> \<open>szPage of this struct\<close>
  mxFrame :: nat
  nPage :: u32
  aFrameCksum :: "u32 \<times> u32"
  aSalt :: bytes               \<comment> \<open>the eight bytes of aSalt[2]\<close>
  aCksum :: "u32 \<times> u32"

record wal_page =
  aPgno :: "nat \<Rightarrow> u32"
  aHash :: "nat \<Rightarrow> nat"

text \<open>
  A connection's Wal, with the shared memory it maps (aHdr, apWiData, nBackfill, aReadMark) and
  the log file.  What the operating system does with the coming file operations is the list
  faults: (SQLITE_OK, _) for success and (rc, k) for a failure after k bytes.
\<close>

record Wal =
  hdr :: WalIndexHdr
  aHdr :: "WalIndexHdr \<times> WalIndexHdr"
  apWiData :: "nat \<Rightarrow> wal_page"
  mapped :: "nat \<Rightarrow> bool"       \<comment> \<open>whether walIndexPage can obtain the page\<close>
  nBackfill :: nat
  aReadMark :: "nat list"
  szPage :: nat
  readLock :: int
  writeLock :: bool
  nCkpt :: u32
  truncateOnCommit :: bool
  syncHeader :: bool
  padToSectorBoundary :: bool
  mxWalSize :: int
  iCallback :: nat
  pWalFd :: bytes
  faults :: "(result_code \<times> nat) list"

section \<open>Checksums and the header in shared memory\<close>

text \<open>A 32-bit load on the little-endian host that SQLITE_BIGENDIAN = 0 stands for.\<close>

definition cpu32 :: "u8 \<Rightarrow> u8 \<Rightarrow> u8 \<Rightarrow> u8 \<Rightarrow> u32" where
  "cpu32 a b c d = ucast a OR push_bit 8 (ucast b) OR push_bit 16 (ucast c) OR push_bit 24 (ucast d)"

definition cpu32_bytes :: "u32 \<Rightarrow> bytes" where
  "cpu32_bytes x = [ucast x, ucast (drop_bit 8 x), ucast (drop_bit 16 x), ucast (drop_bit 24 x)]"

definition BYTESWAP32 :: "u32 \<Rightarrow> u32" where
  "BYTESWAP32 x =
     push_bit 24 (x AND 0x000000FF) + push_bit 8 (x AND 0x0000FF00) +
     drop_bit 8 (x AND 0x00FF0000) + drop_bit 24 (x AND 0xFF000000)"

fun walChecksumBytes :: "bool \<Rightarrow> bytes \<Rightarrow> u32 \<times> u32 \<Rightarrow> u32 \<times> u32" where
  "walChecksumBytes nativeCksum (a0 # a1 # a2 # a3 # b0 # b1 # b2 # b3 # a) (s1, s2) =
     (let x = cpu32 a0 a1 a2 a3; y = cpu32 b0 b1 b2 b3;
          s1 = s1 + ((if nativeCksum then x else BYTESWAP32 x) + s2);
          s2 = s2 + ((if nativeCksum then y else BYTESWAP32 y) + s1)
      in walChecksumBytes nativeCksum a (s1, s2))"
| "walChecksumBytes nativeCksum _ s = s"

definition hdr_bytes :: "WalIndexHdr \<Rightarrow> bytes" where
  "hdr_bytes h =
     cpu32_bytes (iVersion h) @ cpu32_bytes 0 @ cpu32_bytes (iChange h) @ [isInit h, bigEndCksum h] @
     [ucast (szPage16 h), ucast (drop_bit 8 (szPage16 h))] @ cpu32_bytes (of_nat (mxFrame h)) @
     cpu32_bytes (nPage h) @ cpu32_bytes (fst (aFrameCksum h)) @ cpu32_bytes (snd (aFrameCksum h)) @ aSalt h"

definition WALINDEX_MAX_VERSION :: u32 where "WALINDEX_MAX_VERSION = 3007000"

definition walIndexWriteHdr :: "Wal \<Rightarrow> Wal" where
  "walIndexWriteHdr pWal =
     (let h = (hdr pWal)\<lparr>isInit := 1, iVersion := WALINDEX_MAX_VERSION\<rparr>;
          h = h\<lparr>aCksum := walChecksumBytes True (hdr_bytes h) (0, 0)\<rparr>
      in pWal\<lparr>hdr := h, aHdr := (h, h)\<rparr>)"

text \<open>None: the header could not be read consistently.  The flag is *pChanged.\<close>

definition walIndexTryHdr :: "Wal \<Rightarrow> (bool \<times> Wal) option" where
  "walIndexTryHdr pWal =
     (let h1 = fst (aHdr pWal); h2 = snd (aHdr pWal) in
      if h1 \<noteq> h2 then None
      else if isInit h1 = 0 then None
      else if walChecksumBytes True (hdr_bytes h1) (0, 0) \<noteq> aCksum h1 then None
      else if hdr pWal \<noteq> h1
      then Some (True, pWal\<lparr>hdr := h1, szPage := unat ((ucast (szPage16 h1) AND 0xfe00) + push_bit 16 (ucast (szPage16 h1) AND 1 :: u32))\<rparr>)
      else Some (False, pWal))"

section \<open>The hash index\<close>

definition walHash :: "u32 \<Rightarrow> nat" where
  "walHash iPage = unat ((iPage * HASHTABLE_HASH_1) AND of_nat (HASHTABLE_NSLOT - 1))"

definition walNextHash :: "nat \<Rightarrow> nat" where
  "walNextHash iPriorHash = (iPriorHash + 1) AND (HASHTABLE_NSLOT - 1)"

text \<open>iZero of walHashGet.\<close>

definition wal_zero :: "nat \<Rightarrow> nat" where
  "wal_zero iHash = (if iHash = 0 then 0 else HASHTABLE_NPAGE_ONE + (iHash - 1) * HASHTABLE_NPAGE)"

definition walHashGet :: "Wal \<Rightarrow> nat \<Rightarrow> (wal_page \<times> nat) option" where
  "walHashGet pWal iHash = (if mapped pWal iHash then Some (apWiData pWal iHash, wal_zero iHash) else None)"

definition walFramePage :: "nat \<Rightarrow> nat" where
  "walFramePage iFrame = (iFrame + HASHTABLE_NPAGE - HASHTABLE_NPAGE_ONE - 1) div HASHTABLE_NPAGE"

definition walFramePgno :: "Wal \<Rightarrow> nat \<Rightarrow> u32" where
  "walFramePgno pWal iFrame =
     (let iHash = walFramePage iFrame in
      if iHash = 0 then aPgno (apWiData pWal 0) iFrame
      else aPgno (apWiData pWal iHash) ((iFrame - 1 - HASHTABLE_NPAGE_ONE) mod HASHTABLE_NPAGE + 1))"

definition set_page :: "Wal \<Rightarrow> nat \<Rightarrow> wal_page \<Rightarrow> Wal" where
  "set_page pWal iHash tb = pWal\<lparr>apWiData := (apWiData pWal)(iHash := tb)\<rparr>"

definition walCleanupHash :: "Wal \<Rightarrow> Wal" where
  "walCleanupHash pWal =
     (if mxFrame (hdr pWal) = 0 then pWal
      else
        (let iHash = walFramePage (mxFrame (hdr pWal));
             tb = apWiData pWal iHash;
             iLimit = mxFrame (hdr pWal) - wal_zero iHash
         in set_page pWal iHash
              \<lparr>aPgno = (\<lambda>i. if iLimit < i then 0 else aPgno tb i),
               aHash = (\<lambda>i. if iLimit < aHash tb i then 0 else aHash tb i)\<rparr>))"

text \<open>The probe loop of walIndexAppend; None is SQLITE_CORRUPT.\<close>

fun append_probe :: "(nat \<Rightarrow> nat) \<Rightarrow> nat \<Rightarrow> nat \<Rightarrow> nat option" where
  "append_probe slots iKey nCollide =
     (if slots iKey = 0 then Some iKey
      else (case nCollide of 0 \<Rightarrow> None | Suc nCollide \<Rightarrow> append_probe slots (walNextHash iKey) nCollide))"

definition walIndexAppend :: "Wal \<Rightarrow> nat \<Rightarrow> u32 \<Rightarrow> result_code \<times> Wal" where
  "walIndexAppend pWal iFrame iPage =
     (let iHash = walFramePage iFrame in
      case walHashGet pWal iHash of
        None \<Rightarrow> (SQLITE_IOERR, pWal)
      | Some (_, iZero) \<Rightarrow>
          (let idx = iFrame - iZero;
               pWal = (if idx = 1 then set_page pWal iHash \<lparr>aPgno = (\<lambda>_. 0), aHash = (\<lambda>_. 0)\<rparr> else pWal);
               pWal = (if aPgno (apWiData pWal iHash) idx \<noteq> 0 then walCleanupHash pWal else pWal);
               tb = apWiData pWal iHash
           in case append_probe (aHash tb) (walHash iPage) idx of
                None \<Rightarrow> (SQLITE_CORRUPT, pWal)
              | Some iKey \<Rightarrow>
                  (SQLITE_OK, set_page pWal iHash
                     \<lparr>aPgno = (aPgno tb)(idx := iPage), aHash = (aHash tb)(iKey := idx mod 2 ^ 16)\<rparr>)))"

text \<open>The probe loop of sqlite3WalRead, and its loop over the tables.\<close>

fun read_probe :: "wal_page \<Rightarrow> nat \<Rightarrow> nat \<Rightarrow> u32 \<Rightarrow> nat \<Rightarrow> nat \<Rightarrow> nat \<Rightarrow> nat option" where
  "read_probe tb iZero iLast pgno iKey nCollide iRead =
     (if aHash tb iKey = 0 then Some iRead
      else
        (let iFrame = aHash tb iKey + iZero;
             iRead = (if iFrame \<le> iLast \<and> aPgno tb (aHash tb iKey) = pgno then iFrame else iRead)
         in case nCollide of
              0 \<Rightarrow> None
            | Suc nCollide \<Rightarrow> read_probe tb iZero iLast pgno (walNextHash iKey) nCollide iRead))"

fun read_tables :: "Wal \<Rightarrow> nat \<Rightarrow> u32 \<Rightarrow> nat \<Rightarrow> result_code \<times> nat" where
  "read_tables pWal iLast pgno iHash =
     (case walHashGet pWal iHash of
        None \<Rightarrow> (SQLITE_IOERR, 0)
      | Some (tb, iZero) \<Rightarrow>
          (case read_probe tb iZero iLast pgno (walHash pgno) HASHTABLE_NSLOT 0 of
             None \<Rightarrow> (SQLITE_CORRUPT, 0)
           | Some iRead \<Rightarrow>
               if iRead \<noteq> 0 then (SQLITE_OK, iRead)
               else (case iHash of 0 \<Rightarrow> (SQLITE_OK, 0) | Suc iHash \<Rightarrow> read_tables pWal iLast pgno iHash)))"

declare append_probe.simps [simp del] read_probe.simps [simp del] read_tables.simps [simp del]

text \<open>The frame that sqlite3WalRead finds, 0 for none.\<close>

definition wal_find :: "Wal \<Rightarrow> u32 \<Rightarrow> result_code \<times> nat" where
  "wal_find pWal pgno =
     (let iLast = mxFrame (hdr pWal) in
      if iLast = 0 \<or> readLock pWal = 0 then (SQLITE_OK, 0)
      else read_tables pWal iLast pgno (walFramePage iLast))"

text \<open>The last loop of sqlite3WalFrames: every frame is entered under its number.\<close>

fun append_pages :: "Wal \<Rightarrow> nat \<Rightarrow> u32 list \<Rightarrow> result_code \<times> Wal \<times> nat" where
  "append_pages pWal iFrame [] = (SQLITE_OK, pWal, iFrame)"
| "append_pages pWal iFrame (p # pList) =
     (case walIndexAppend pWal (iFrame + 1) p of
        (rc, pWal) \<Rightarrow> if rc = SQLITE_OK then append_pages pWal (iFrame + 1) pList else (rc, pWal, iFrame + 1))"

text \<open>aWalData: the frame number, the running checksum, the checkpoint counter.\<close>

type_synonym wal_savepoint = "nat \<times> (u32 \<times> u32) \<times> u32"

definition sqlite3WalSavepoint :: "Wal \<Rightarrow> wal_savepoint" where
  "sqlite3WalSavepoint pWal = (mxFrame (hdr pWal), aFrameCksum (hdr pWal), nCkpt pWal)"

definition sqlite3WalSavepointUndo :: "Wal \<Rightarrow> wal_savepoint \<Rightarrow> Wal \<times> wal_savepoint" where
  "sqlite3WalSavepointUndo pWal aWalData =
     (let (n, ck, c) = aWalData;
          (n, c) = (if c \<noteq> nCkpt pWal then (0, nCkpt pWal) else (n, c))
      in (if n < mxFrame (hdr pWal)
          then walCleanupHash (pWal\<lparr>hdr := (hdr pWal)\<lparr>mxFrame := n, aFrameCksum := ck\<rparr>\<rparr>)
          else pWal, (n, ck, c)))"

text \<open>xUndo is the pager's callback, with its context.\<close>

fun undo_frames :: "(u32 \<Rightarrow> 's \<Rightarrow> result_code \<times> 's) \<Rightarrow> Wal \<Rightarrow> nat list \<Rightarrow> 's \<Rightarrow> result_code \<times> 's" where
  "undo_frames xUndo pWal [] pUndoCtx = (SQLITE_OK, pUndoCtx)"
| "undo_frames xUndo pWal (iFrame # is) pUndoCtx =
     (case xUndo (walFramePgno pWal iFrame) pUndoCtx of
        (rc, pUndoCtx) \<Rightarrow> if rc = SQLITE_OK then undo_frames xUndo pWal is pUndoCtx else (rc, pUndoCtx))"

definition sqlite3WalUndo :: "(u32 \<Rightarrow> 's \<Rightarrow> result_code \<times> 's) \<Rightarrow> Wal \<Rightarrow> 's \<Rightarrow> result_code \<times> Wal \<times> 's" where
  "sqlite3WalUndo xUndo pWal pUndoCtx =
     (if writeLock pWal
      then
        (let iMax = mxFrame (hdr pWal);
             pWal = pWal\<lparr>hdr := fst (aHdr pWal)\<rparr>;
             (rc, pUndoCtx) = undo_frames xUndo pWal [mxFrame (hdr pWal) + 1..<iMax + 1] pUndoCtx
         in (rc, walCleanupHash pWal, pUndoCtx))
      else (SQLITE_OK, pWal, pUndoCtx))"

section \<open>One hash table\<close>

lemmas wal_consts = HASHTABLE_NPAGE_def HASHTABLE_NSLOT_def HASHTABLE_NPAGE_ONE_def WALINDEX_HDR_SIZE_def

definition slot :: "nat \<Rightarrow> nat \<Rightarrow> nat" where "slot h j = (h + j) mod 8192"

lemma walNextHash_slot: "walNextHash (slot h j) = slot h (Suc j)"
proof -
  have "walNextHash k = (k + 1) mod 8192" for k
    using take_bit_eq_mask [of 13 "k + 1"]
    by (simp add: walNextHash_def wal_consts take_bit_eq_mod mask_eq_exp_minus_1)
  then show ?thesis by (simp add: slot_def mod_Suc_eq)
qed

lemma walHash_less: "walHash p < 8192"
proof -
  have "walHash p = unat (take_bit 13 (p * HASHTABLE_HASH_1))"
    using take_bit_eq_mask [of 13 "p * HASHTABLE_HASH_1"]
    by (simp add: walHash_def wal_consts mask_eq_exp_minus_1)
  also have "\<dots> < 2 ^ 13" by (simp only: unsigned_take_bit_eq) (simp add: take_bit_eq_mod)
  finally show ?thesis by simp
qed

lemma slot_0 [simp]: "h < 8192 \<Longrightarrow> slot h 0 = h"
  by (simp add: slot_def)

lemma slot_less [simp]: "slot h j < 8192"
  by (simp add: slot_def)

lemma probe_slot_inj: "inj_on (slot h) {..<8192}"
proof (rule linorder_inj_onI')
  fix i j :: nat assume *: "i \<in> {..<8192}" "j \<in> {..<8192}" "i < j"
  show "slot h i \<noteq> slot h j"
  proof
    assume "slot h i = slot h j"
    then have "8192 dvd (h + j) - (h + i)"
      using *(3) mod_eq_dvd_iff_nat [of "h + i" "h + j" 8192] by (simp add: slot_def)
    then show False using * by (auto dest: dvd_imp_le)
  qed
qed

lemma append_probe_first:
  assumes "slots (slot k j) = 0" and "\<forall>j'<j. slots (slot k j') \<noteq> 0" and "j0 \<le> j" and "j \<le> j0 + nCollide"
  shows "append_probe slots (slot k j0) nCollide = Some (slot k j)"
  using assms(3,4)
proof (induction nCollide arbitrary: j0)
  case 0
  then show ?case using assms(1) by (simp add: append_probe.simps)
next
  case (Suc n)
  show ?case
  proof (cases "j0 = j")
    case True
    then show ?thesis using assms(1) by (simp add: append_probe.simps)
  next
    case False
    then have "slots (slot k j0) \<noteq> 0" using assms(2) Suc.prems by simp
    then show ?thesis using Suc False by (simp add: append_probe.simps [of slots "slot k j0"] walNextHash_slot)
  qed
qed

definition match :: "wal_page \<Rightarrow> nat \<Rightarrow> nat \<Rightarrow> u32 \<Rightarrow> nat \<Rightarrow> nat \<Rightarrow> nat" where
  "match tb iZero iLast pgno iKey iRead =
     (if aHash tb iKey + iZero \<le> iLast \<and> aPgno tb (aHash tb iKey) = pgno then aHash tb iKey + iZero else iRead)"

lemma read_probe_first:
  assumes "aHash tb (slot k j) = 0" and "\<forall>j'<j. aHash tb (slot k j') \<noteq> 0" and "j0 \<le> j" and "j \<le> j0 + nCollide"
  shows "read_probe tb iZero iLast pgno (slot k j0) nCollide iRead =
    Some (foldl (\<lambda>r i. match tb iZero iLast pgno (slot k i) r) iRead [j0..<j])"
  using assms(3,4)
proof (induction nCollide arbitrary: j0 iRead)
  case 0
  then show ?case using assms(1) by (simp add: read_probe.simps)
next
  case (Suc n)
  show ?case
  proof (cases "j0 = j")
    case True
    then show ?thesis using assms(1) by (simp add: read_probe.simps)
  next
    case False
    then have "aHash tb (slot k j0) \<noteq> 0" using assms(2) Suc.prems by simp
    then show ?thesis using Suc False
      by (simp add: read_probe.simps [of tb iZero iLast pgno "slot k j0"] walNextHash_slot upt_conv_Cons [of j0] match_def Let_def)
  qed
qed

text \<open>Occupied slots hold distinct entries, so a table with few entries has an empty slot nearby.\<close>

lemma empty_slot_exists:
  assumes "\<And>i. i < 8192 \<Longrightarrow> slots i \<noteq> 0 \<Longrightarrow> slots i \<le> m" and "\<And>i i'. i < 8192 \<Longrightarrow> i' < 8192 \<Longrightarrow> slots i \<noteq> 0 \<Longrightarrow> slots i = slots i' \<Longrightarrow> i = i'"
    and "m < 8192"
  obtains j where "j \<le> m" "slots (slot k j) = 0" "\<forall>j'<j. slots (slot k j') \<noteq> 0"
proof -
  have "\<exists>j\<le>m. slots (slot k j) = 0"
  proof (rule ccontr)
    assume none: "\<not> ?thesis"
    have full: "slots (slot k j) \<noteq> 0" if "j \<le> m" for j using none that by simp
    have "inj_on (\<lambda>j. slots (slot k j)) {..m}"
    proof (rule inj_onI)
      fix i j assume "i \<in> {..m}" "j \<in> {..m}" "slots (slot k i) = slots (slot k j)"
      then have "slot k i = slot k j" using assms(2) [of "slot k i" "slot k j"] full by simp
      then show "i = j" using probe_slot_inj [of k] \<open>i \<in> {..m}\<close> \<open>j \<in> {..m}\<close> assms(3) by (auto simp: inj_on_def)
    qed
    moreover have "(\<lambda>j. slots (slot k j)) ` {..m} \<subseteq> {1..m}" using full assms(1) by (auto simp: Suc_le_eq)
    ultimately have "card {..m} \<le> card {1..m}" by (rule card_inj_on_le) simp
    then show False by simp
  qed
  then obtain j where j: "j \<le> m" "slots (slot k j) = 0" by blast
  define l where "l = (LEAST j. slots (slot k j) = 0)"
  have "slots (slot k l) = 0" unfolding l_def using j(2) by (rule LeastI)
  moreover have "l \<le> m" unfolding l_def by (rule order_trans [OF Least_le [of "\<lambda>j. slots (slot k j) = 0" j, OF j(2)] j(1)])
  moreover have "\<forall>j'<l. slots (slot k j') \<noteq> 0" unfolding l_def by (blast dest: not_less_Least)
  ultimately show thesis using that by blast
qed

text \<open>
  The table tb indexes the pages ps, the k-th one under the entry k.  Entries above the number of
  pages are left over from a writer that did not commit.
\<close>

definition probed :: "wal_page \<Rightarrow> u32 \<Rightarrow> nat \<Rightarrow> bool" where
  "probed tb p k \<longleftrightarrow> (\<exists>j. aHash tb (slot (walHash p) j) = k \<and> (\<forall>j'<j. 0 < aHash tb (slot (walHash p) j') \<and> aHash tb (slot (walHash p) j') < k))"

definition table_ok :: "nat \<Rightarrow> wal_page \<Rightarrow> u32 list \<Rightarrow> bool" where
  "table_ok c tb ps \<longleftrightarrow> length ps \<le> c \<and> c \<le> 4096 \<and>
     (\<forall>i<8192. aHash tb i \<le> c) \<and>
     (\<forall>i<8192. \<forall>i'<8192. aHash tb i \<noteq> 0 \<longrightarrow> aHash tb i = aHash tb i' \<longrightarrow> i = i') \<and>
     (\<forall>k<length ps. aPgno tb (Suc k) = ps ! k \<and> probed tb (ps ! k) (Suc k))"

definition table_clean :: "wal_page \<Rightarrow> nat \<Rightarrow> bool" where
  "table_clean tb n \<longleftrightarrow> (\<forall>i<8192. aHash tb i \<le> n) \<and> (\<forall>i>n. aPgno tb i = 0)"

lemma table_okD:
  assumes "table_ok c tb ps"
  shows "length ps \<le> c" "i < 8192 \<Longrightarrow> aHash tb i \<le> c"
    "i < 8192 \<Longrightarrow> i' < 8192 \<Longrightarrow> aHash tb i \<noteq> 0 \<Longrightarrow> aHash tb i = aHash tb i' \<Longrightarrow> i = i'"
    "k < length ps \<Longrightarrow> aPgno tb (Suc k) = ps ! k" "k < length ps \<Longrightarrow> probed tb (ps ! k) (Suc k)" "c \<le> 4096"
  using assms unfolding table_ok_def by blast+

lemma table_ok_take: "table_ok c tb ps \<Longrightarrow> table_ok c tb (take n ps)"
  by (auto simp: table_ok_def intro: min.coboundedI1)

lemma table_fresh: "c \<le> 4096 \<Longrightarrow> table_ok c \<lparr>aPgno = (\<lambda>_. 0), aHash = (\<lambda>_. 0)\<rparr> []" "table_clean \<lparr>aPgno = (\<lambda>_. 0), aHash = (\<lambda>_. 0)\<rparr> 0"
  by (simp_all add: table_ok_def table_clean_def)

text \<open>Adding an entry.\<close>

lemma table_append:
  assumes ok: "table_ok c tb ps" and clean: "table_clean tb (length ps)" and room: "length ps < c"
  obtains iKey where "append_probe (aHash tb) (walHash p) (Suc (length ps)) = Some iKey"
    "table_ok c \<lparr>aPgno = (aPgno tb)(Suc (length ps) := p), aHash = (aHash tb)(iKey := Suc (length ps))\<rparr> (ps @ [p])"
    "table_clean \<lparr>aPgno = (aPgno tb)(Suc (length ps) := p), aHash = (aHash tb)(iKey := Suc (length ps))\<rparr> (Suc (length ps))"
proof -
  note d = table_okD [OF ok]
  let ?n = "length ps"
  have small: "aHash tb i \<le> ?n" if "i < 8192" for i using clean that by (simp add: table_clean_def)
  obtain j where j: "j \<le> ?n" "aHash tb (slot (walHash p) j) = 0" "\<forall>j'<j. aHash tb (slot (walHash p) j') \<noteq> 0"
    by (rule empty_slot_exists [of "aHash tb" ?n "walHash p"]) (use small d(3,6) room in auto)
  let ?i = "slot (walHash p) j"
  let ?tb = "\<lparr>aPgno = (aPgno tb)(Suc ?n := p), aHash = (aHash tb)(?i := Suc ?n)\<rparr>"
  have "append_probe (aHash tb) (slot (walHash p) 0) (Suc ?n) = Some ?i"
    using j by (intro append_probe_first) simp_all
  then have probe: "append_probe (aHash tb) (walHash p) (Suc ?n) = Some ?i" by (simp add: walHash_less)
  have keep: "probed ?tb q k" if q: "probed tb q k" "0 < k" "k \<le> ?n" for q k
  proof -
    obtain l where l: "aHash tb (slot (walHash q) l) = k"
      "\<forall>j'<l. 0 < aHash tb (slot (walHash q) j') \<and> aHash tb (slot (walHash q) j') < k"
      using q(1) unfolding probed_def by blast
    have "0 < aHash tb (slot (walHash q) l')" if "l' \<le> l" for l'
      using that l q(2) by (cases "l' = l") auto
    then have "slot (walHash q) l' \<noteq> ?i" if "l' \<le> l" for l' using that j(2) by fastforce
    then show ?thesis using l unfolding probed_def by (intro exI [of _ l]) auto
  qed
  have "slot (walHash p) j' \<noteq> ?i" if "j' < j" for j' using j(2,3) that by auto
  then have new: "probed ?tb p (Suc ?n)"
    using j(3) small unfolding probed_def by (intro exI [of _ j]) (auto simp: less_Suc_eq_le)
  have "table_ok c ?tb (ps @ [p])"
    unfolding table_ok_def
  proof (intro conjI allI impI)
    fix i i' :: nat assume "i < 8192" "i' < 8192" "aHash ?tb i \<noteq> 0" "aHash ?tb i = aHash ?tb i'"
    then show "i = i'" using d(3) small [of i] small [of i'] by (auto split: if_splits)
  next
    fix k assume k: "k < length (ps @ [p])"
    show "aPgno ?tb (Suc k) = (ps @ [p]) ! k" using k d(4) by (auto simp: nth_append less_Suc_eq)
    show "probed ?tb ((ps @ [p]) ! k) (Suc k)"
    proof (cases "k < ?n")
      case True
      then show ?thesis using keep [OF d(5) [OF True]] by (simp add: nth_append)
    next
      case False
      then have "k = ?n" using k by simp
      then show ?thesis using new by simp
    qed
  qed (use room d(2,6) in auto)
  moreover have "table_clean ?tb (Suc ?n)" using clean small by (auto simp: table_clean_def le_SucI)
  ultimately show thesis using that probe by blast
qed

text \<open>Dropping the entries above a limit.\<close>

lemma table_cleanup:
  assumes ok: "table_ok c tb ps"
  shows "table_ok c \<lparr>aPgno = (\<lambda>i. if length ps < i then 0 else aPgno tb i), aHash = (\<lambda>i. if length ps < aHash tb i then 0 else aHash tb i)\<rparr> ps"
    and "table_clean \<lparr>aPgno = (\<lambda>i. if length ps < i then 0 else aPgno tb i), aHash = (\<lambda>i. if length ps < aHash tb i then 0 else aHash tb i)\<rparr> (length ps)"
proof -
  note d = table_okD [OF ok]
  let ?tb = "\<lparr>aPgno = (\<lambda>i. if length ps < i then 0 else aPgno tb i), aHash = (\<lambda>i. if length ps < aHash tb i then 0 else aHash tb i)\<rparr>"
  have keep: "probed ?tb q k" if q: "probed tb q k" "0 < k" "k \<le> length ps" for q k
    using q unfolding probed_def by (elim exE, intro exI) (auto simp: not_less)
  show "table_ok c ?tb ps"
    unfolding table_ok_def
  proof (intro conjI allI impI)
    fix i i' :: nat assume "i < 8192" "i' < 8192" "aHash ?tb i \<noteq> 0" "aHash ?tb i = aHash ?tb i'"
    then show "i = i'" using d(3) [of i i'] by (auto split: if_splits)
  next
    fix k assume k: "k < length ps"
    then show "aPgno ?tb (Suc k) = ps ! k" "probed ?tb (ps ! k) (Suc k)" using d(4) keep [OF d(5)] by simp_all
  qed (use d(1,2,6) in auto)
  show "table_clean ?tb (length ps)" by (simp add: table_clean_def)
qed

text \<open>Looking a page up in one table.\<close>

lemma foldl_last_match:
  "foldl (\<lambda>r i. if M i then f i else r) a [0..<J] = (if \<exists>i<J. M i then f (Max {i. i < J \<and> M i}) else a)"
proof (induction J)
  case (Suc J)
  show ?case
  proof (cases "M J")
    case True
    then have "Max {i. i < Suc J \<and> M i} = J" by (intro Max_eqI) auto
    then show ?thesis using True by auto
  next
    case False
    then have "{i. i < Suc J \<and> M i} = {i. i < J \<and> M i}" by (auto simp: less_Suc_eq)
    then show ?thesis using Suc False by (auto simp: less_Suc_eq)
  qed
qed simp

definition last_entry :: "u32 list \<Rightarrow> nat \<Rightarrow> nat \<Rightarrow> u32 \<Rightarrow> nat \<Rightarrow> bool" where
  "last_entry ps iZero iLast pgno r \<longleftrightarrow>
     r = 0 \<and> (\<forall>k<length ps. Suc k + iZero \<le> iLast \<longrightarrow> ps ! k \<noteq> pgno) \<or>
     (\<exists>k<length ps. r = Suc k + iZero \<and> r \<le> iLast \<and> ps ! k = pgno \<and>
        (\<forall>k'<length ps. k < k' \<longrightarrow> Suc k' + iZero \<le> iLast \<longrightarrow> ps ! k' \<noteq> pgno))"

lemma table_lookup:
  assumes ok: "table_ok c tb ps" and last: "iLast \<le> iZero + length ps \<or> length ps = c"
  obtains r where "read_probe tb iZero iLast pgno (walHash pgno) HASHTABLE_NSLOT 0 = Some r" "last_entry ps iZero iLast pgno r"
proof -
  note d = table_okD [OF ok]
  let ?s = "slot (walHash pgno)"
  obtain J where J: "J \<le> 4096" "aHash tb (?s J) = 0" "\<forall>j<J. aHash tb (?s j) \<noteq> 0"
    by (rule empty_slot_exists [of "aHash tb" 4096 "walHash pgno"]) (use d(2,3,6) in \<open>auto intro: order_trans\<close>)
  define M where "M i \<longleftrightarrow> aHash tb (?s i) + iZero \<le> iLast \<and> aPgno tb (aHash tb (?s i)) = pgno" for i
  define r where "r = (if \<exists>i<J. M i then aHash tb (?s (Max {i. i < J \<and> M i})) + iZero else 0)"
  have "read_probe tb iZero iLast pgno (?s 0) HASHTABLE_NSLOT 0 =
      Some (foldl (\<lambda>r i. match tb iZero iLast pgno (?s i) r) 0 [0..<J])"
    using J by (intro read_probe_first) (simp_all add: wal_consts)
  also have "foldl (\<lambda>r i. match tb iZero iLast pgno (?s i) r) 0 [0..<J] = r"
    unfolding match_def r_def M_def by (rule foldl_last_match)
  finally have run: "read_probe tb iZero iLast pgno (walHash pgno) HASHTABLE_NSLOT 0 = Some r" by (simp add: walHash_less)
  have found: "\<exists>j<J. aHash tb (?s j) = Suc k \<and> (\<forall>j'<j. aHash tb (?s j') < Suc k)" if k: "k < length ps" "ps ! k = pgno" for k
  proof -
    obtain j where j: "aHash tb (?s j) = Suc k" "\<forall>j'<j. 0 < aHash tb (?s j') \<and> aHash tb (?s j') < Suc k"
      using d(5) [OF k(1)] k(2) unfolding probed_def by auto
    have "j < J" using J(2) j by (metis less_irrefl linorder_neqE_nat nat.distinct(1))
    then show ?thesis using j by blast
  qed
  have entry: "\<exists>k<length ps. aHash tb (?s i) = Suc k \<and> ps ! k = pgno" if "i < J" "M i" for i
  proof -
    have "aHash tb (?s i) \<noteq> 0" using J(3) that(1) by simp
    then obtain k where k: "aHash tb (?s i) = Suc k" using not0_implies_Suc by blast
    then have l: "k < length ps" using that(2) last d(2) [of "?s i"] by (auto simp: M_def)
    then have "ps ! k = pgno" using that(2) d(4) [OF l] k by (simp add: M_def)
    with l k show ?thesis by blast
  qed
  have "last_entry ps iZero iLast pgno r"
  proof (cases "\<exists>i<J. M i")
    case False
    have "ps ! k \<noteq> pgno" if lim: "k < length ps" "Suc k + iZero \<le> iLast" for k
    proof
      assume p: "ps ! k = pgno"
      obtain j where "j < J" "aHash tb (?s j) = Suc k" using found [OF lim(1) p] by blast
      then have "M j" using lim(2) p d(4) [OF lim(1)] by (simp add: M_def)
      then show False using False \<open>j < J\<close> by blast
    qed
    then show ?thesis using False by (auto simp: last_entry_def r_def)
  next
    case True
    define g where "g = Max {i. i < J \<and> M i}"
    have "g \<in> {i. i < J \<and> M i}" unfolding g_def using True by (intro Max_in) auto
    then have g: "g < J" "M g" by simp_all
    obtain k where k: "k < length ps" "aHash tb (?s g) = Suc k" "ps ! k = pgno" using entry [OF g] by blast
    have "ps ! k' \<noteq> pgno" if k': "k' < length ps" "k < k'" "Suc k' + iZero \<le> iLast" for k'
    proof
      assume p': "ps ! k' = pgno"
      obtain j' where j': "j' < J" "aHash tb (?s j') = Suc k'" using found [OF k'(1) p'] by blast
      then have "M j'" using k' p' d(4) by (simp add: M_def)
      then have "j' \<le> g" unfolding g_def using j'(1) by (intro Max_ge) auto
      moreover have "j' \<noteq> g" using j'(2) k(2) k'(2) by auto
      moreover obtain jk where jk: "jk < J" "aHash tb (?s jk) = Suc k" "\<forall>j'<jk. aHash tb (?s j') < Suc k"
        using found [OF k(1,3)] by blast
      have "?s jk = ?s g" using d(3) [of "?s jk" "?s g"] jk(2) k(2) by simp
      then have "jk = g" using probe_slot_inj [of "walHash pgno"] jk(1) g(1) J(1) by (auto simp: inj_on_def)
      ultimately have "j' < jk" by simp
      with jk(3) have "aHash tb (?s j') < Suc k" by blast
      then show False using j'(2) k'(2) by simp
    qed
    moreover have "r = Suc k + iZero" "r \<le> iLast" using True k(2) g(2) unfolding r_def g_def [symmetric] by (auto simp: M_def)
    ultimately show ?thesis using k by (auto simp: last_entry_def)
  qed
  with run show thesis using that by blast
qed

section \<open>All tables\<close>

definition table_cap :: "nat \<Rightarrow> nat" where "table_cap t = (if t = 0 then 4062 else 4096)"

definition seg :: "'a list \<Rightarrow> nat \<Rightarrow> 'a list" where
  "seg ps t = take (table_cap t) (drop (wal_zero t) ps)"

lemma wal_zero_Suc: "wal_zero (Suc t) = wal_zero t + table_cap t"
  by (cases t) (simp_all add: wal_zero_def table_cap_def wal_consts)

lemma walFramePage_iff:
  assumes "1 \<le> i"
  shows "walFramePage i = t \<longleftrightarrow> wal_zero t < i \<and> i \<le> wal_zero t + table_cap t"
proof -
  have "walFramePage i = (i + 33) div 4096" by (simp add: walFramePage_def wal_consts)
  also have "\<dots> = t \<longleftrightarrow> t * 4096 \<le> i + 33 \<and> i + 33 < Suc t * 4096"
    using div_nat_eqI [of 4096 t "i + 33"] div_times_less_eq_dividend [of "i + 33" 4096]
      dividend_less_div_times [of 4096 "i + 33"] by (auto simp: algebra_simps)
  also have "\<dots> \<longleftrightarrow> wal_zero t < i \<and> i \<le> wal_zero t + table_cap t"
    using assms by (cases t) (auto simp: wal_zero_def table_cap_def wal_consts)
  finally show ?thesis .
qed

lemma length_seg: "length (seg ps t) = min (table_cap t) (length ps - wal_zero t)"
  by (simp add: seg_def)

lemma nth_seg: "k < length (seg ps t) \<Longrightarrow> seg ps t ! k = ps ! (wal_zero t + k)"
proof -
  assume k: "k < length (seg ps t)"
  then have "k < length ps - wal_zero t" by (simp add: length_seg)
  then have "wal_zero t \<le> length ps" by linarith
  then show ?thesis using k by (simp add: seg_def)
qed

lemma seg_take: "seg (take n ps) t = take (n - wal_zero t) (seg ps t)"
  by (simp add: seg_def drop_take min.commute)

lemma seg_append:
  "seg (ps @ [p]) t = (if t = walFramePage (Suc (length ps)) then seg ps t @ [p] else seg ps t)"
  using walFramePage_iff [of "Suc (length ps)" t] by (auto simp: seg_def)

lemma wal_zero_le_page: "walFramePage (Suc n) = t \<Longrightarrow> length (seg ps t) = n - wal_zero t" if "length ps = n"
  using walFramePage_iff [of "Suc n" t] that by (auto simp: length_seg)

text \<open>The index w holds the pages ps; from its last frame on there may be left-over entries.\<close>

definition rest_ok :: "Wal \<Rightarrow> u32 list \<Rightarrow> bool" where
  "rest_ok w ps \<longleftrightarrow>
     (let t = walFramePage (length ps); tb = apWiData w t; m = length (seg ps t) in
      m < table_cap t \<longrightarrow> (mxFrame (hdr w) = length ps \<and> aPgno tb (Suc m) \<noteq> 0) \<or> table_clean tb m)"

definition index_ok :: "Wal \<Rightarrow> u32 list \<Rightarrow> bool" where
  "index_ok w ps \<longleftrightarrow> 0 \<notin> set ps \<and> (\<forall>t. mapped w t) \<and>
     (\<forall>t. seg ps t \<noteq> [] \<longrightarrow> table_ok (table_cap t) (apWiData w t) (seg ps t)) \<and> (ps \<noteq> [] \<longrightarrow> rest_ok w ps)"

lemma set_page_simps [simp]:
  "apWiData (set_page w t tb) = (apWiData w)(t := tb)" "mapped (set_page w t tb) = mapped w" "hdr (set_page w t tb) = hdr w"
  by (simp_all add: set_page_def)

lemma walIndexAppend_ok:
  assumes ok: "index_ok w ps" and p: "p \<noteq> 0"
  obtains w' where "walIndexAppend w (Suc (length ps)) p = (SQLITE_OK, w')" "index_ok w' (ps @ [p])" "hdr w' = hdr w"
proof -
  let ?n = "length ps"
  define t where "t = walFramePage (Suc ?n)"
  have t: "wal_zero t < Suc ?n" "Suc ?n \<le> wal_zero t + table_cap t"
    using walFramePage_iff [of "Suc ?n" t] by (simp_all add: t_def)
  define m where "m = length (seg ps t)"
  have m: "m = ?n - wal_zero t" "Suc ?n - wal_zero t = Suc m" "m < table_cap t" "table_cap t \<le> 4096"
    using t by (auto simp: m_def length_seg table_cap_def)
  define w1 where "w1 = (if Suc m = 1 then set_page w t \<lparr>aPgno = (\<lambda>_. 0), aHash = (\<lambda>_. 0)\<rparr> else w)"
  define w2 where "w2 = (if aPgno (apWiData w1 t) (Suc m) \<noteq> 0 then walCleanupHash w1 else w1)"
  have w2: "table_ok (table_cap t) (apWiData w2 t) (seg ps t)" "table_clean (apWiData w2 t) m"
    "\<And>t'. t' \<noteq> t \<Longrightarrow> apWiData w2 t' = apWiData w t'" "mapped w2 = mapped w" "hdr w2 = hdr w"
  proof -
    have "table_ok (table_cap t) (apWiData w2 t) (seg ps t) \<and> table_clean (apWiData w2 t) m \<and>
      (\<forall>t'. t' \<noteq> t \<longrightarrow> apWiData w2 t' = apWiData w t') \<and> mapped w2 = mapped w \<and> hdr w2 = hdr w"
    proof (cases "m = 0")
      case True
      then have "seg ps t = []" by (simp add: m_def)
      then show ?thesis using True table_fresh m(4) by (simp add: w2_def w1_def)
    next
      case False
      then have w1: "w1 = w" by (simp add: w1_def)
      have ne: "ps \<noteq> []" "seg ps t \<noteq> []" using False by (auto simp: m_def seg_def)
      then have tb: "table_ok (table_cap t) (apWiData w t) (seg ps t)" using ok by (simp add: index_ok_def)
      have page: "walFramePage ?n = t"
        using walFramePage_iff [of ?n t] ne t False m(1) by (auto simp: Suc_le_eq)
      then have rest: "mxFrame (hdr w) = ?n \<and> aPgno (apWiData w t) (Suc m) \<noteq> 0 \<or> table_clean (apWiData w t) m"
        using ok ne m(3) by (simp add: index_ok_def rest_ok_def m_def Let_def)
      show ?thesis
      proof (cases "aPgno (apWiData w t) (Suc m) = 0")
        case True
        then show ?thesis using tb rest by (simp add: w2_def w1)
      next
        case False
        then have mx: "mxFrame (hdr w) = ?n" using rest by (auto simp: table_clean_def)
        have "walCleanupHash w = set_page w t
            \<lparr>aPgno = (\<lambda>i. if m < i then 0 else aPgno (apWiData w t) i),
             aHash = (\<lambda>i. if m < aHash (apWiData w t) i then 0 else aHash (apWiData w t) i)\<rparr>"
          using mx ne page m(1) by (simp add: walCleanupHash_def Let_def)
        then show ?thesis using False table_cleanup [OF tb] by (simp add: w2_def w1 m_def)
      qed
    qed
    then show "table_ok (table_cap t) (apWiData w2 t) (seg ps t)" "table_clean (apWiData w2 t) m"
      "\<And>t'. t' \<noteq> t \<Longrightarrow> apWiData w2 t' = apWiData w t'" "mapped w2 = mapped w" "hdr w2 = hdr w" by simp_all
  qed
  have room: "length (seg ps t) < table_cap t" using m by (simp add: m_def)
  obtain iKey where probe: "append_probe (aHash (apWiData w2 t)) (walHash p) (Suc m) = Some iKey"
    and tb: "table_ok (table_cap t) \<lparr>aPgno = (aPgno (apWiData w2 t))(Suc m := p), aHash = (aHash (apWiData w2 t))(iKey := Suc m)\<rparr> (seg ps t @ [p])"
      "table_clean \<lparr>aPgno = (aPgno (apWiData w2 t))(Suc m := p), aHash = (aHash (apWiData w2 t))(iKey := Suc m)\<rparr> (Suc m)"
    using table_append [OF w2(1) w2(2) [unfolded m_def] room, of p] unfolding m_def by blast
  define w3 where "w3 = set_page w2 t \<lparr>aPgno = (aPgno (apWiData w2 t))(Suc m := p), aHash = (aHash (apWiData w2 t))(iKey := Suc m)\<rparr>"
  have "Suc m mod 2 ^ 16 = Suc m" using m(3,4) by simp
  then have run: "walIndexAppend w (Suc ?n) p = (SQLITE_OK, w3)"
    using ok probe unfolding walIndexAppend_def walHashGet_def t_def [symmetric] index_ok_def
    by (simp only: if_True option.case prod.case m(2) Let_def w1_def [symmetric] w2_def [symmetric] w3_def [symmetric])
  have segs: "seg (ps @ [p]) t' = (if t' = t then seg ps t @ [p] else seg ps t')" for t'
    by (simp add: seg_append t_def)
  have "rest_ok w3 (ps @ [p])"
    using tb(2) by (simp add: rest_ok_def t_def [symmetric] segs m_def [symmetric] w3_def)
  then have "index_ok w3 (ps @ [p])"
    using ok p tb(1) w2(3,4) unfolding index_ok_def by (auto simp: segs w3_def)
  with run w2(5) show thesis using that by (simp add: w3_def)
qed

text \<open>The last of the first L frames with a page, counted from 1; 0 for none.\<close>

definition last_frame :: "u32 list \<Rightarrow> nat \<Rightarrow> u32 \<Rightarrow> nat" where
  "last_frame ps L pgno = (case filter (\<lambda>k. ps ! (k - 1) = pgno) (rev [1..<Suc L]) of [] \<Rightarrow> 0 | k # _ \<Rightarrow> k)"

lemma last_frame_iff:
  "last_frame ps L pgno = r \<longleftrightarrow>
     r = 0 \<and> (\<forall>k<L. ps ! k \<noteq> pgno) \<or>
     (\<exists>k<L. r = Suc k \<and> ps ! k = pgno \<and> (\<forall>k'<L. k < k' \<longrightarrow> ps ! k' \<noteq> pgno))"
proof (induction L)
  case (Suc L)
  show ?case
  proof (cases "ps ! L = pgno")
    case True
    then show ?thesis by (auto simp: last_frame_def less_Suc_eq)
  next
    case False
    then have "last_frame ps (Suc L) pgno = last_frame ps L pgno" by (simp add: last_frame_def)
    then show ?thesis using Suc False by (auto simp: less_Suc_eq)
  qed
qed (simp add: last_frame_def)

lemma last_frame_extend:
  assumes "last_frame ps L pgno = l" and "\<And>k. k < m \<Longrightarrow> L \<le> k \<Longrightarrow> ps ! k \<noteq> pgno" and "L \<le> m"
  shows "last_frame ps m pgno = l"
  using assms(3,1,2)
proof (induction m rule: dec_induct)
  case (step n)
  then have "last_frame ps n pgno = l" "ps ! n \<noteq> pgno" by simp_all
  then show ?case by (simp add: last_frame_def)
qed

lemma table_found:
  assumes ok: "index_ok w ps" and L: "iLast \<le> length ps" "wal_zero t < iLast"
  obtains r where "read_probe (apWiData w t) (wal_zero t) iLast pgno (walHash pgno) HASHTABLE_NSLOT 0 = Some r"
    "r = 0 \<and> (\<forall>k<min iLast (wal_zero (Suc t)). wal_zero t \<le> k \<longrightarrow> ps ! k \<noteq> pgno) \<or>
     (\<exists>k<min iLast (wal_zero (Suc t)). r = Suc k \<and> ps ! k = pgno \<and>
        (\<forall>k'<min iLast (wal_zero (Suc t)). k < k' \<longrightarrow> ps ! k' \<noteq> pgno))"
proof -
  let ?z = "wal_zero t"
  have len: "length (seg ps t) = min (table_cap t) (length ps - ?z)" by (simp add: length_seg)
  have "0 < length (seg ps t)" using len L by (simp add: table_cap_def)
  then have "seg ps t \<noteq> []" by simp
  then have "table_ok (table_cap t) (apWiData w t) (seg ps t)" using ok by (simp add: index_ok_def)
  moreover have "iLast \<le> ?z + length (seg ps t) \<or> length (seg ps t) = table_cap t" using L len by auto
  ultimately obtain r where r: "read_probe (apWiData w t) ?z iLast pgno (walHash pgno) HASHTABLE_NSLOT 0 = Some r"
      "last_entry (seg ps t) ?z iLast pgno r"
    by (rule table_lookup)
  have nth: "seg ps t ! (k - ?z) = ps ! k" if "?z \<le> k" "k < min iLast (wal_zero (Suc t))" for k
    using that L by (subst nth_seg) (auto simp: len wal_zero_Suc)
  have in_seg: "k - ?z < length (seg ps t)" "Suc (k - ?z) + ?z \<le> iLast" if "?z \<le> k" "k < min iLast (wal_zero (Suc t))" for k
    using that L by (auto simp: len wal_zero_Suc)
  consider (none) "r = 0" "\<forall>k<length (seg ps t). Suc k + ?z \<le> iLast \<longrightarrow> seg ps t ! k \<noteq> pgno"
    | (some) k where "k < length (seg ps t)" "r = Suc k + ?z" "r \<le> iLast" "seg ps t ! k = pgno"
        "\<forall>k'<length (seg ps t). k < k' \<longrightarrow> Suc k' + ?z \<le> iLast \<longrightarrow> seg ps t ! k' \<noteq> pgno"
    using r(2) unfolding last_entry_def by blast
  then show thesis
  proof cases
    case none
    have "ps ! k \<noteq> pgno" if "k < min iLast (wal_zero (Suc t))" "?z \<le> k" for k
    proof -
      have "seg ps t ! (k - ?z) \<noteq> pgno" using none(2) in_seg [OF that(2,1)] by blast
      then show ?thesis by (simp add: nth [OF that(2,1)])
    qed
    then show thesis using that [OF r(1)] none(1) by blast
  next
    case (some k)
    have k: "?z + k < min iLast (wal_zero (Suc t))" using some(1-3) len by (simp add: wal_zero_Suc)
    have "ps ! (?z + k) = pgno" using nth_seg [OF some(1)] some(4) by simp
    moreover have "ps ! k' \<noteq> pgno" if "k' < min iLast (wal_zero (Suc t))" "?z + k < k'" for k'
    proof -
      have z: "?z \<le> k'" "k < k' - ?z" using that(2) by simp_all
      have "seg ps t ! (k' - ?z) \<noteq> pgno" using some(5) in_seg [OF z(1) that(1)] z(2) by blast
      then show ?thesis by (simp add: nth [OF z(1) that(1)])
    qed
    moreover have "r = Suc (?z + k)" using some(2) by simp
    ultimately show thesis using that [OF r(1)] k by blast
  qed
qed

lemma read_tables_ok:
  assumes ok: "index_ok w ps" and L: "iLast \<le> length ps"
  shows "wal_zero t < iLast \<Longrightarrow> read_tables w iLast pgno t = (SQLITE_OK, last_frame ps (min iLast (wal_zero (Suc t))) pgno)"
proof (induction t)
  case 0
  obtain r where r: "read_probe (apWiData w 0) (wal_zero 0) iLast pgno (walHash pgno) HASHTABLE_NSLOT 0 = Some r"
      "r = 0 \<and> (\<forall>k<min iLast (wal_zero (Suc 0)). wal_zero 0 \<le> k \<longrightarrow> ps ! k \<noteq> pgno) \<or>
     (\<exists>k<min iLast (wal_zero (Suc 0)). r = Suc k \<and> ps ! k = pgno \<and>
        (\<forall>k'<min iLast (wal_zero (Suc 0)). k < k' \<longrightarrow> ps ! k' \<noteq> pgno))"
    by (rule table_found [OF ok L 0, of pgno])
  then have "last_frame ps (min iLast (wal_zero (Suc 0))) pgno = r" unfolding last_frame_iff by (simp add: wal_zero_def)
  then show ?case using r(1) ok by (simp add: read_tables.simps walHashGet_def index_ok_def)
next
  case (Suc t)
  let ?m = "min iLast (wal_zero (Suc (Suc t)))"
  obtain r where r: "read_probe (apWiData w (Suc t)) (wal_zero (Suc t)) iLast pgno (walHash pgno) HASHTABLE_NSLOT 0 = Some r"
      "r = 0 \<and> (\<forall>k<?m. wal_zero (Suc t) \<le> k \<longrightarrow> ps ! k \<noteq> pgno) \<or>
     (\<exists>k<?m. r = Suc k \<and> ps ! k = pgno \<and> (\<forall>k'<?m. k < k' \<longrightarrow> ps ! k' \<noteq> pgno))"
    by (rule table_found [OF ok L Suc.prems, of pgno])
  have lower: "wal_zero t < iLast" "min iLast (wal_zero (Suc t)) = wal_zero (Suc t)" "wal_zero (Suc t) \<le> ?m"
    using Suc.prems by (simp_all add: wal_zero_Suc)
  show ?case
  proof (cases "r = 0")
    case True
    then have none: "ps ! k \<noteq> pgno" if "k < ?m" "wal_zero (Suc t) \<le> k" for k using r(2) that by blast
    define l where "l = last_frame ps (wal_zero (Suc t)) pgno"
    have "last_frame ps ?m pgno = l"
      using l_def [symmetric] by (rule last_frame_extend [OF _ none]) (use lower(3) in auto)
    then show ?thesis using True r(1) ok Suc.IH [OF lower(1)] lower(2) l_def
      by (simp add: read_tables.simps [of w iLast pgno "Suc t"] walHashGet_def index_ok_def)
  next
    case False
    then have "last_frame ps ?m pgno = r" using r(2) unfolding last_frame_iff by blast
    then show ?thesis using False r(1) ok
      by (simp add: read_tables.simps [of w iLast pgno "Suc t"] walHashGet_def index_ok_def)
  qed
qed

lemma wal_find_ok:
  assumes ok: "index_ok w ps" and L: "mxFrame (hdr w) \<le> length ps" and lock: "readLock w \<noteq> 0"
  shows "wal_find w pgno = (SQLITE_OK, last_frame ps (mxFrame (hdr w)) pgno)"
proof (cases "mxFrame (hdr w) = 0")
  case True
  then show ?thesis by (simp add: wal_find_def last_frame_def)
next
  case False
  define t where "t = walFramePage (mxFrame (hdr w))"
  have "wal_zero t < mxFrame (hdr w)" "mxFrame (hdr w) \<le> wal_zero (Suc t)"
    using False walFramePage_iff [of "mxFrame (hdr w)" t] by (simp_all add: t_def wal_zero_Suc)
  then show ?thesis using read_tables_ok [OF ok L] False lock by (simp add: wal_find_def t_def [symmetric] min_absorb1)
qed

end
