(* ===== verification/Wal_History.thy ===== *)
theory Wal_History
  imports Wal_Index
begin

text \<open>
  The life of the wal-index: whatever writers do to it, a lookup for a snapshot finds the last
  frame of the page in that snapshot.
\<close>

section \<open>The life of a log\<close>

text \<open>
  What writers do to the index, one after the other: add frames, commit, go back to a savepoint,
  roll back, or disappear, after which another connection starts from the shared header.
\<close>

datatype log_op = Add_frames "u32 list" | Commit | Savepoint_undo nat | Undo | New_writer

definition run_op :: "log_op \<Rightarrow> Wal \<Rightarrow> result_code \<times> Wal" where
  "run_op op w =
     (case op of
        Add_frames qs \<Rightarrow>
          (case append_pages w (mxFrame (hdr w)) qs of
             (rc, w, iFrame) \<Rightarrow> (rc, if rc = SQLITE_OK then w\<lparr>hdr := (hdr w)\<lparr>mxFrame := iFrame\<rparr>\<rparr> else w))
      | Commit \<Rightarrow> (SQLITE_OK, walIndexWriteHdr w)
      | Savepoint_undo m \<Rightarrow> (SQLITE_OK, fst (sqlite3WalSavepointUndo w (m, (0, 0), nCkpt w)))
      | Undo \<Rightarrow> (case sqlite3WalUndo (\<lambda>_ u. (SQLITE_OK, u)) w () of (rc, w, _) \<Rightarrow> (rc, w))
      | New_writer \<Rightarrow> (case walIndexTryHdr w of Some (_, w) \<Rightarrow> (SQLITE_OK, w) | None \<Rightarrow> (SQLITE_ERROR, w)))"

fun run_ops :: "log_op list \<Rightarrow> Wal \<Rightarrow> result_code \<times> Wal" where
  "run_ops [] w = (SQLITE_OK, w)"
| "run_ops (op # ops) w = (case run_op op w of (rc, w) \<Rightarrow> if rc = SQLITE_OK then run_ops ops w else (rc, w))"

text \<open>The specification: the pages of the log and the number of committed frames.\<close>

fun log_step :: "log_op \<Rightarrow> u32 list \<times> nat \<Rightarrow> u32 list \<times> nat" where
  "log_step (Add_frames qs) (ps, n) = (ps @ qs, n)"
| "log_step Commit (ps, n) = (ps, length ps)"
| "log_step (Savepoint_undo m) (ps, n) = (take m ps, n)"
| "log_step Undo (ps, n) = (take n ps, n)"
| "log_step New_writer (ps, n) = (take n ps, n)"

fun op_allowed :: "log_op \<Rightarrow> u32 list \<times> nat \<Rightarrow> bool" where
  "op_allowed (Add_frames qs) (ps, n) \<longleftrightarrow> 0 \<notin> set qs"
| "op_allowed (Savepoint_undo m) (ps, n) \<longleftrightarrow> n \<le> m"
| "op_allowed _ _ \<longleftrightarrow> True"

fun ops_allowed :: "log_op list \<Rightarrow> u32 list \<times> nat \<Rightarrow> bool" where
  "ops_allowed [] _ \<longleftrightarrow> True"
| "ops_allowed (op # ops) s \<longleftrightarrow> op_allowed op s \<and> ops_allowed ops (log_step op s)"

text \<open>The header in shared memory is the one that a commit wrote.\<close>

definition shm_ok :: "Wal \<Rightarrow> bool" where
  "shm_ok w \<longleftrightarrow> (let h = fst (aHdr w) in snd (aHdr w) = h \<and> isInit h \<noteq> 0 \<and> walChecksumBytes True (hdr_bytes h) (0, 0) = aCksum h)"

definition log_ok :: "Wal \<Rightarrow> u32 list \<times> nat \<Rightarrow> bool" where
  "log_ok w s \<longleftrightarrow> (case s of (ps, n) \<Rightarrow>
     index_ok w ps \<and> mxFrame (hdr w) = length ps \<and> n \<le> length ps \<and> shm_ok w \<and> mxFrame (fst (aHdr w)) = n \<and> writeLock w)"

lemma index_ok_cong:
  "apWiData w' = apWiData w \<Longrightarrow> mapped w' = mapped w \<Longrightarrow> mxFrame (hdr w') = mxFrame (hdr w) \<Longrightarrow>
   index_ok w' ps \<longleftrightarrow> index_ok w ps"
  by (simp add: index_ok_def rest_ok_def)

lemma walIndexWriteHdr_simps [simp]:
  "apWiData (walIndexWriteHdr w) = apWiData w" "mapped (walIndexWriteHdr w) = mapped w"
  "mxFrame (hdr (walIndexWriteHdr w)) = mxFrame (hdr w)" "writeLock (walIndexWriteHdr w) = writeLock w"
  "mxFrame (fst (aHdr (walIndexWriteHdr w))) = mxFrame (hdr w)" "nCkpt (walIndexWriteHdr w) = nCkpt w"
  by (simp_all add: walIndexWriteHdr_def Let_def)

lemma walIndexWriteHdr_shm: "shm_ok (walIndexWriteHdr w)"
  by (simp add: shm_ok_def walIndexWriteHdr_def Let_def hdr_bytes_def)

lemma walIndexTryHdr_shm:
  assumes "shm_ok w"
  obtains c w' where "walIndexTryHdr w = Some (c, w')" "hdr w' = fst (aHdr w)" "aHdr w' = aHdr w"
    "apWiData w' = apWiData w" "mapped w' = mapped w" "writeLock w' = writeLock w"
proof -
  have "\<exists>c w'. walIndexTryHdr w = Some (c, w') \<and> hdr w' = fst (aHdr w) \<and> aHdr w' = aHdr w \<and>
    apWiData w' = apWiData w \<and> mapped w' = mapped w \<and> writeLock w' = writeLock w"
    using assms by (auto simp: shm_ok_def walIndexTryHdr_def Let_def)
  then show thesis using that by blast
qed

lemma append_pages_ok:
  assumes "index_ok w ps" and "0 \<notin> set qs"
  obtains w' where "append_pages w (length ps) qs = (SQLITE_OK, w', length (ps @ qs))"
    "index_ok w' (ps @ qs)" "hdr w' = hdr w"
proof -
  have "\<exists>w'. append_pages w (length ps) qs = (SQLITE_OK, w', length (ps @ qs)) \<and> index_ok w' (ps @ qs) \<and> hdr w' = hdr w"
    using assms
  proof (induction qs arbitrary: w ps)
    case (Cons q qs)
    obtain w1 where w1: "walIndexAppend w (Suc (length ps)) q = (SQLITE_OK, w1)" "index_ok w1 (ps @ [q])" "hdr w1 = hdr w"
      using walIndexAppend_ok [OF Cons.prems(1), of q] Cons.prems(2) by auto
    show ?case using Cons.IH [OF w1(2)] Cons.prems(2) w1(1,3) by simp
  qed simp
  then show thesis using that by blast
qed

lemma walCleanupHash_frame: "\<exists>d. walCleanupHash w = w\<lparr>apWiData := d\<rparr>"
proof (cases "mxFrame (hdr w) = 0")
  case True
  then show ?thesis by (intro exI [of _ "apWiData w"]) (simp add: walCleanupHash_def)
next
  case False
  then show ?thesis by (auto simp: walCleanupHash_def set_page_def Let_def)
qed

lemma walIndexAppend_frame:
  assumes "walIndexAppend w i p = (rc, w')"
  shows "\<exists>d. w' = w\<lparr>apWiData := d\<rparr>"
proof -
  have "\<exists>d. w = w\<lparr>apWiData := d\<rparr>" by (intro exI [of _ "apWiData w"]) simp
  then show ?thesis
    using assms unfolding walIndexAppend_def walHashGet_def Let_def set_page_def walCleanupHash_def
    by (auto split: option.splits if_splits)
qed

lemma append_pages_frame: "append_pages w i qs = (rc, w', j) \<Longrightarrow> \<exists>d. w' = w\<lparr>apWiData := d\<rparr>"
proof (induction qs arbitrary: w i)
  case Nil
  then show ?case by (intro exI [of _ "apWiData w"]) simp
next
  case (Cons q qs)
  obtain rc1 w1 where w1: "walIndexAppend w (i + 1) q = (rc1, w1)" by fastforce
  then obtain d where "w1 = w\<lparr>apWiData := d\<rparr>" using walIndexAppend_frame by blast
  then show ?case using Cons.IH [of w1 "i + 1"] Cons.prems w1 by (cases "rc1 = SQLITE_OK") auto
qed

lemma index_take:
  assumes ok: "index_ok w ps" and same: "apWiData w' = apWiData w" "mapped w' = mapped w" and m: "mxFrame (hdr w') = m" "m \<le> length ps"
  shows "index_ok w' (take m ps)"
proof -
  have "0 \<notin> set (take m ps)" "\<forall>t. mapped w' t" using ok same by (auto simp: index_ok_def dest: in_set_takeD)
  moreover have "table_ok (table_cap t) (apWiData w' t) (seg (take m ps) t)" if "seg (take m ps) t \<noteq> []" for t
  proof -
    have "seg ps t \<noteq> []" using that by (auto simp: seg_take)
    then have "table_ok (table_cap t) (apWiData w t) (seg ps t)" using ok by (simp add: index_ok_def)
    then show ?thesis by (simp add: same seg_take table_ok_take)
  qed
  moreover have "rest_ok w' (take m ps)" if ne: "take m ps \<noteq> []"
  proof (cases "m = length ps")
    case True
    then show ?thesis using ok ne same m(1) unfolding index_ok_def rest_ok_def by (auto simp: Let_def)
  next
    case False
    define t where "t = walFramePage m"
    have pos: "1 \<le> m" using ne by (cases m) auto
    have t: "wal_zero t < m" "m \<le> wal_zero t + table_cap t" using walFramePage_iff [OF pos, of t] by (simp_all add: t_def)
    define k where "k = length (seg (take m ps) t)"
    have k: "k = m - wal_zero t" using t m(2) by (simp add: k_def length_seg)
    have "aPgno (apWiData w t) (Suc k) \<noteq> 0" if "k < table_cap t"
    proof -
      have in_seg: "k < length (seg ps t)" using that k t m(2) False by (simp add: length_seg)
      then have "seg ps t \<noteq> []" by auto
      then have "table_ok (table_cap t) (apWiData w t) (seg ps t)" using ok by (simp add: index_ok_def)
      then have "aPgno (apWiData w t) (Suc k) = ps ! (wal_zero t + k)" using table_okD(4) in_seg nth_seg by metis
      moreover have "ps ! (wal_zero t + k) \<in> set ps" using k t m(2) False by (intro nth_mem) simp
      ultimately show ?thesis using ok by (auto simp: index_ok_def)
    qed
    then show ?thesis using m same by (simp add: rest_ok_def t_def k_def min_absorb2)
  qed
  ultimately show ?thesis by (simp add: index_ok_def)
qed

lemma index_cleanup:
  assumes ok: "index_ok w ps" and mx: "mxFrame (hdr w) = length ps"
  shows "index_ok (walCleanupHash w) ps"
proof (cases "ps = []")
  case True
  then show ?thesis using ok mx by (simp add: walCleanupHash_def)
next
  case False
  define t where "t = walFramePage (length ps)"
  have t: "wal_zero t < length ps" "length ps \<le> wal_zero t + table_cap t"
    using walFramePage_iff [of "length ps" t] False by (simp_all add: t_def Suc_le_eq)
  have len: "length (seg ps t) = length ps - wal_zero t" using t by (simp add: length_seg)
  then have "seg ps t \<noteq> []" using t by auto
  then have tb: "table_ok (table_cap t) (apWiData w t) (seg ps t)" using ok by (simp add: index_ok_def)
  let ?tb = "\<lparr>aPgno = (\<lambda>i. if length (seg ps t) < i then 0 else aPgno (apWiData w t) i),
             aHash = (\<lambda>i. if length (seg ps t) < aHash (apWiData w t) i then 0 else aHash (apWiData w t) i)\<rparr>"
  have eq: "walCleanupHash w = set_page w t ?tb" using False mx len by (simp add: walCleanupHash_def Let_def t_def [symmetric])
  show ?thesis using ok False table_cleanup [OF tb] unfolding eq index_ok_def
    by (auto simp: rest_ok_def t_def [symmetric])
qed

lemma run_op_ok:
  assumes ok: "log_ok w s" and allowed: "op_allowed op s"
  obtains w' where "run_op op w = (SQLITE_OK, w')" "log_ok w' (log_step op s)"
proof -
  obtain ps n where s: "s = (ps, n)" by fastforce
  have w: "index_ok w ps" "mxFrame (hdr w) = length ps" "n \<le> length ps" "shm_ok w" "mxFrame (fst (aHdr w)) = n" "writeLock w"
    using ok by (simp_all add: log_ok_def s)
  have "\<exists>w'. run_op op w = (SQLITE_OK, w') \<and> log_ok w' (log_step op s)"
  proof (cases op)
    case (Add_frames qs)
    obtain w1 where w1: "append_pages w (length ps) qs = (SQLITE_OK, w1, length (ps @ qs))" "index_ok w1 (ps @ qs)"
      using append_pages_ok [OF w(1)] allowed by (auto simp: s Add_frames)
    obtain d where d: "w1 = w\<lparr>apWiData := d\<rparr>" using append_pages_frame [OF w1(1)] by blast
    let ?w = "w1\<lparr>hdr := (hdr w1)\<lparr>mxFrame := length (ps @ qs)\<rparr>\<rparr>"
    have "index_ok ?w (take (length (ps @ qs)) (ps @ qs))" using w1(2) by (rule index_take) simp_all
    then show ?thesis using w w1(1) d by (simp add: run_op_def s Add_frames log_ok_def shm_ok_def)
  next
    case Commit
    have "index_ok (walIndexWriteHdr w) ps" using w(1) by (simp add: index_ok_cong [of "walIndexWriteHdr w" w])
    then show ?thesis using w by (simp add: run_op_def s Commit log_ok_def walIndexWriteHdr_shm)
  next
    case (Savepoint_undo m)
    show ?thesis
    proof (cases "m < length ps")
      case True
      let ?w = "w\<lparr>hdr := (hdr w)\<lparr>mxFrame := m, aFrameCksum := (0, 0)\<rparr>\<rparr>"
      have "index_ok ?w (take m ps)" using w(1) by (rule index_take) (use True in simp_all)
      then have "index_ok (walCleanupHash ?w) (take m ps)" by (rule index_cleanup) (use True in simp)
      moreover obtain d where "walCleanupHash ?w = ?w\<lparr>apWiData := d\<rparr>" using walCleanupHash_frame by blast
      ultimately show ?thesis using w True allowed
        by (simp add: run_op_def s Savepoint_undo sqlite3WalSavepointUndo_def log_ok_def shm_ok_def min_absorb2)
    next
      case False
      then show ?thesis using w
        by (simp add: run_op_def s Savepoint_undo sqlite3WalSavepointUndo_def log_ok_def)
    qed
  next
    case Undo
    have undo: "undo_frames (\<lambda>_ u. (SQLITE_OK, u)) v is () = (SQLITE_OK, ())" for v "is" by (induction "is") simp_all
    let ?w = "w\<lparr>hdr := fst (aHdr w)\<rparr>"
    have "index_ok ?w (take n ps)" using w(1) by (rule index_take) (use w in simp_all)
    then have "index_ok (walCleanupHash ?w) (take n ps)" by (rule index_cleanup) (use w in simp)
    moreover obtain d where "walCleanupHash ?w = ?w\<lparr>apWiData := d\<rparr>" using walCleanupHash_frame by blast
    ultimately show ?thesis using w
      by (simp add: run_op_def s Undo sqlite3WalUndo_def Let_def undo log_ok_def shm_ok_def min_absorb2)
  next
    case New_writer
    obtain c w1 where w1: "walIndexTryHdr w = Some (c, w1)" "hdr w1 = fst (aHdr w)" "aHdr w1 = aHdr w"
      "apWiData w1 = apWiData w" "mapped w1 = mapped w" "writeLock w1 = writeLock w"
      by (rule walIndexTryHdr_shm [OF w(4)])
    have "index_ok w1 (take n ps)" using w(1) by (rule index_take) (use w w1 in simp_all)
    then show ?thesis using w w1 by (simp add: run_op_def s New_writer log_ok_def shm_ok_def min_absorb2)
  qed
  then show thesis using that by blast
qed

lemma run_ops_ok:
  assumes "log_ok w s" and "ops_allowed ops s"
  obtains w' where "run_ops ops w = (SQLITE_OK, w')" "log_ok w' (fold log_step ops s)"
proof -
  have "\<exists>w'. run_ops ops w = (SQLITE_OK, w') \<and> log_ok w' (fold log_step ops s)"
    using assms
  proof (induction ops arbitrary: w s)
    case (Cons op ops)
    obtain w1 where "run_op op w = (SQLITE_OK, w1)" "log_ok w1 (log_step op s)"
      using run_op_ok [OF Cons.prems(1), of op] Cons.prems(2) by auto
    then show ?case using Cons.IH [of w1 "log_step op s"] Cons.prems(2) by simp
  qed simp
  then show thesis using that by blast
qed

lemma fresh_log:
  assumes "\<And>t. mapped w t" and "mxFrame (hdr w) = 0" and "writeLock w"
  shows "log_ok (walIndexWriteHdr w) ([], 0)"
  using assms by (simp add: log_ok_def index_ok_def seg_def walIndexWriteHdr_shm)

lemma walFramePgno_ok:
  assumes ok: "index_ok w ps" and i: "1 \<le> i" "i \<le> length ps"
  shows "walFramePgno w i = ps ! (i - 1)"
proof -
  define t where "t = walFramePage i"
  have t: "wal_zero t < i" "i \<le> wal_zero t + table_cap t" using walFramePage_iff [OF i(1), of t] by (simp_all add: t_def)
  define k where "k = i - wal_zero t - 1"
  have k: "k < length (seg ps t)" "wal_zero t + k = i - 1" using t i by (auto simp: k_def length_seg)
  then have "seg ps t \<noteq> []" by auto
  then have "table_ok (table_cap t) (apWiData w t) (seg ps t)" using ok by (simp add: index_ok_def)
  then have "aPgno (apWiData w t) (Suc k) = ps ! (i - 1)" using table_okD(4) [OF _ k(1)] nth_seg [OF k(1)] k(2) by simp
  moreover have "walFramePgno w i = aPgno (apWiData w t) (Suc k)"
  proof (cases t)
    case 0
    then show ?thesis using t i by (simp add: walFramePgno_def t_def [symmetric] k_def wal_zero_def)
  next
    case (Suc t')
    then have "k < 4096" "i - 1 - HASHTABLE_NPAGE_ONE = t' * 4096 + k"
      using t by (simp_all add: k_def wal_zero_def table_cap_def wal_consts)
    then show ?thesis using Suc by (simp add: walFramePgno_def t_def [symmetric] HASHTABLE_NPAGE_def)
  qed
  ultimately show ?thesis by simp
qed

section \<open>Properties\<close>

text \<open>
  C7: Whatever writers do to the wal-index from a fresh log on (add frames, commit, go back to
  a savepoint, roll back, disappear in the middle of a transaction and leave the index to
  another connection), every call succeeds, the handle and the shared header hold the numbers
  of written and committed frames, and a reader with a snapshot of L frames finds for every
  page its last frame among these L, across all hash tables.
\<close>

theorem wal_index_history:
  assumes "\<And>t. mapped w t" and "mxFrame (hdr w) = 0" and "writeLock w"
    and "ops_allowed ops ([], 0)" and "fold log_step ops ([], 0) = (ps, n)"
    and "L \<le> length ps" and "k \<noteq> 0"
  shows "\<exists>w'. run_ops ops (walIndexWriteHdr w) = (SQLITE_OK, w') \<and>
     mxFrame (hdr w') = length ps \<and> mxFrame (fst (aHdr w')) = n \<and>
     wal_find (w'\<lparr>hdr := (hdr w')\<lparr>mxFrame := L\<rparr>, readLock := k\<rparr>) pgno = (SQLITE_OK, last_frame ps L pgno) \<and>
     map (walFramePgno w') [1..<length ps + 1] = ps"
proof -
  obtain w' where run: "run_ops ops (walIndexWriteHdr w) = (SQLITE_OK, w')" and ok: "log_ok w' (ps, n)"
    using run_ops_ok [OF fresh_log [OF assms(1-3)] assms(4)] assms(5) by metis
  let ?r = "w'\<lparr>hdr := (hdr w')\<lparr>mxFrame := L\<rparr>, readLock := k\<rparr>"
  have ix: "index_ok w' ps" "mxFrame (hdr w') = length ps" "mxFrame (fst (aHdr w')) = n"
    using ok by (simp_all add: log_ok_def)
  have "index_ok ?r (take L ps)" using ix(1) by (rule index_take) (use assms(6) in simp_all)
  then have "wal_find ?r pgno = (SQLITE_OK, last_frame (take L ps) L pgno)"
    using wal_find_ok [of ?r "take L ps" pgno] assms(6,7) by simp
  moreover have "last_frame (take L ps) L pgno = last_frame ps L pgno"
    unfolding last_frame_def by (rule arg_cong [where f = "case_list 0 (\<lambda>k _. k)"], rule filter_cong) auto
  moreover have "map (walFramePgno w') [1..<length ps + 1] = ps"
    by (rule nth_equalityI) (simp_all add: walFramePgno_ok [OF ix(1)] del: upt_Suc)
  ultimately show ?thesis using run ix by auto
qed

definition example_wal :: Wal where
  "example_wal =
     \<lparr>hdr = \<lparr>iVersion = 0, iChange = 0, isInit = 0, bigEndCksum = 0, szPage16 = 0, mxFrame = 0, nPage = 0,
        aFrameCksum = (0, 0), aSalt = [1, 2, 3, 4, 5, 6, 7, 8], aCksum = (0, 0)\<rparr>,
      aHdr = (\<lparr>iVersion = 0, iChange = 0, isInit = 0, bigEndCksum = 0, szPage16 = 0, mxFrame = 9, nPage = 0,
        aFrameCksum = (0, 0), aSalt = [], aCksum = (0, 0)\<rparr>, \<lparr>iVersion = 0, iChange = 0, isInit = 0, bigEndCksum = 0,
        szPage16 = 0, mxFrame = 0, nPage = 0, aFrameCksum = (0, 0), aSalt = [], aCksum = (0, 0)\<rparr>),
      apWiData = (\<lambda>_. \<lparr>aPgno = \<lambda>_. 7, aHash = \<lambda>_. 9\<rparr>), mapped = (\<lambda>_. True), nBackfill = 0, aReadMark = [], szPage = 512,
      readLock = 1, writeLock = True, nCkpt = 0, truncateOnCommit = False, syncHeader = False,
      padToSectorBoundary = False, mxWalSize = -1, iCallback = 0, pWalFd = [], faults = []\<rparr>"

lemma example_wal_simps [simp]:
  "mapped example_wal t" "mxFrame (hdr example_wal) = 0" "writeLock example_wal"
  by (simp_all add: example_wal_def)

theorem wal_index_history_witness:
  "\<exists>w'. run_ops [Add_frames [3, 5], Commit, Add_frames [3, 4], Savepoint_undo 3, Undo, Add_frames [5]]
      (walIndexWriteHdr example_wal) = (SQLITE_OK, w') \<and>
     mxFrame (hdr w') = 3 \<and> mxFrame (fst (aHdr w')) = 2 \<and>
     wal_find (w'\<lparr>hdr := (hdr w')\<lparr>mxFrame := 2\<rparr>, readLock := 1\<rparr>) 5 = (SQLITE_OK, 2) \<and>
     map (walFramePgno w') [1..<length [3, 5, 5 :: u32] + 1] = [3, 5, 5]"
proof -
  have "last_frame [3, 5, 5] 2 5 = 2" by (simp add: last_frame_def upt_rec)
  then show ?thesis
    using wal_index_history [of example_wal "[Add_frames [3, 5], Commit, Add_frames [3, 4], Savepoint_undo 3, Undo, Add_frames [5]]"
      "[3, 5, 5]" 2 2 1 5] by (simp add: numeral_3_eq_3 del: run_ops.simps upt_Suc)
qed

text \<open>A log of three committed frames, for examples.\<close>

definition example_log :: Wal where
  "example_log =
     (case append_pages example_wal 0 [3, 5, 3] of
        (_, w, _) \<Rightarrow> w\<lparr>hdr := (hdr w)\<lparr>mxFrame := 3, nPage := 5, szPage16 := 512\<rparr>, aHdr := ((fst (aHdr w))\<lparr>mxFrame := 3\<rparr>, snd (aHdr w))\<rparr>)"

lemma example_log_ok: "index_ok example_log [3, 5, 3]" "mxFrame (hdr example_log) = 3" "nPage (hdr example_log) = 5"
  "faults example_log = []" "nBackfill example_log = 0" "mxFrame (fst (aHdr example_log)) = 3" "szPage16 (hdr example_log) = 512"
proof -
  have "index_ok example_wal []" by (simp add: index_ok_def seg_def)
  then obtain w where w: "append_pages example_wal 0 [3, 5, 3] = (SQLITE_OK, w, 3)" "index_ok w [3, 5, 3]"
    by (auto elim: append_pages_ok [of _ _ "[3, 5, 3]"] simp: numeral_3_eq_3)
  obtain d where d: "w = example_wal\<lparr>apWiData := d\<rparr>" using append_pages_frame [OF w(1)] by blast
  have ex: "example_log = w\<lparr>hdr := (hdr w)\<lparr>mxFrame := 3, nPage := 5, szPage16 := 512\<rparr>, aHdr := ((fst (aHdr w))\<lparr>mxFrame := 3\<rparr>, snd (aHdr w))\<rparr>"
    unfolding example_log_def w(1) by simp
  have "index_ok example_log (take 3 [3, 5, 3])" using w(2) by (rule index_take) (simp_all add: ex)
  then show "index_ok example_log [3, 5, 3]" by simp
  show "mxFrame (hdr example_log) = 3" "nPage (hdr example_log) = 5" "faults example_log = []" "nBackfill example_log = 0"
    "mxFrame (fst (aHdr example_log)) = 3" "szPage16 (hdr example_log) = 512"
    unfolding ex d by (simp_all add: example_wal_def)
qed

end
