(* ===== verification/Wal_Log.thy ===== *)
theory Wal_Log
  imports Wal_History Varint_Roundtrip
begin

text \<open>
  The log file of wal.c: frames and their running checksum, writing a set of frames, reading a
  page through the wal-index, and recovery of the wal-index from the file.  File operations
  consume the list faults of the Wal: a write that fails leaves the first k bytes it was given.
\<close>

section \<open>File operations\<close>

definition os_next :: "Wal \<Rightarrow> (result_code \<times> nat) \<times> Wal" where
  "os_next w = (case faults w of [] \<Rightarrow> ((SQLITE_OK, 0), w) | f # fs \<Rightarrow> (f, w\<lparr>faults := fs\<rparr>))"

definition write_at :: "bytes \<Rightarrow> nat \<Rightarrow> bytes \<Rightarrow> bytes" where
  "write_at f off d = take off (f @ replicate (off - length f) 0) @ d @ drop (off + length d) f"

definition sqlite3OsWrite :: "Wal \<Rightarrow> bytes \<Rightarrow> nat \<Rightarrow> result_code \<times> Wal" where
  "sqlite3OsWrite w d off =
     (case os_next w of ((rc, k), w) \<Rightarrow>
        (rc, w\<lparr>pWalFd := write_at (pWalFd w) off (if rc = SQLITE_OK then d else take k d)\<rparr>))"

definition sqlite3OsSync :: "Wal \<Rightarrow> result_code \<times> Wal" where
  "sqlite3OsSync w = (case os_next w of ((rc, _), w) \<Rightarrow> (rc, w))"

definition sqlite3OsFileSize :: "Wal \<Rightarrow> result_code \<times> nat \<times> Wal" where
  "sqlite3OsFileSize w = (case os_next w of ((rc, _), w) \<Rightarrow> (rc, length (pWalFd w), w))"

definition sqlite3OsTruncate :: "Wal \<Rightarrow> nat \<Rightarrow> result_code \<times> Wal" where
  "sqlite3OsTruncate w n =
     (case os_next w of ((rc, _), w) \<Rightarrow> (rc, if rc = SQLITE_OK then w\<lparr>pWalFd := take n (pWalFd w)\<rparr> else w))"

definition sqlite3OsRead :: "Wal \<Rightarrow> nat \<Rightarrow> nat \<Rightarrow> result_code \<times> bytes \<times> Wal" where
  "sqlite3OsRead w n off =
     (case os_next w of ((rc, _), w) \<Rightarrow>
        if rc \<noteq> SQLITE_OK then (rc, [], w)
        else if off + n \<le> length (pWalFd w) then (SQLITE_OK, take n (drop off (pWalFd w)), w)
        else (SQLITE_IOERR_SHORT_READ, take n (drop off (pWalFd w) @ replicate n 0), w))"

section \<open>Frames\<close>

definition WAL_HDRSIZE :: nat where "WAL_HDRSIZE = 32"
definition WAL_FRAME_HDRSIZE :: nat where "WAL_FRAME_HDRSIZE = 24"
definition WAL_MAGIC :: u32 where "WAL_MAGIC = 0x377f0682"
definition WAL_MAX_VERSION :: u32 where "WAL_MAX_VERSION = 3007000"
definition WAL_SYNC_TRANSACTIONS :: u32 where "WAL_SYNC_TRANSACTIONS = 0x20"

definition walFrameOffset :: "nat \<Rightarrow> nat \<Rightarrow> nat" where
  "walFrameOffset iFrame sz = WAL_HDRSIZE + (iFrame - 1) * (sz + WAL_FRAME_HDRSIZE)"

text \<open>sqlite3Get4byte inside of a buffer.\<close>

definition get4 :: "bytes \<Rightarrow> nat \<Rightarrow> u32" where
  "get4 a i = the (sqlite3Get4byte (drop i a))"

definition walEncodeFrame :: "Wal \<Rightarrow> u32 \<Rightarrow> u32 \<Rightarrow> bytes \<Rightarrow> bytes \<times> Wal" where
  "walEncodeFrame pWal iPage nTruncate aData =
     (let aFrame = sqlite3Put4byte iPage @ sqlite3Put4byte nTruncate;
          nativeCksum = (bigEndCksum (hdr pWal) = 0);
          aCksum = walChecksumBytes nativeCksum aFrame (aFrameCksum (hdr pWal));
          aCksum = walChecksumBytes nativeCksum (take (szPage pWal) aData) aCksum
      in (aFrame @ aSalt (hdr pWal) @ sqlite3Put4byte (fst aCksum) @ sqlite3Put4byte (snd aCksum),
          pWal\<lparr>hdr := (hdr pWal)\<lparr>aFrameCksum := aCksum\<rparr>\<rparr>))"

definition walDecodeFrame :: "Wal \<Rightarrow> bytes \<Rightarrow> bytes \<Rightarrow> (u32 \<times> u32) option \<times> Wal" where
  "walDecodeFrame pWal aData aFrame =
     (if take 8 (drop 8 aFrame) \<noteq> aSalt (hdr pWal) then (None, pWal)
      else
        (let pgno = get4 aFrame 0 in
         if pgno = 0 then (None, pWal)
         else
           (let nativeCksum = (bigEndCksum (hdr pWal) = 0);
                aCksum = walChecksumBytes nativeCksum (take 8 aFrame) (aFrameCksum (hdr pWal));
                aCksum = walChecksumBytes nativeCksum (take (szPage pWal) aData) aCksum;
                pWal = pWal\<lparr>hdr := (hdr pWal)\<lparr>aFrameCksum := aCksum\<rparr>\<rparr>
            in if fst aCksum \<noteq> get4 aFrame 16 \<or> snd aCksum \<noteq> get4 aFrame 20 then (None, pWal)
               else (Some (pgno, get4 aFrame 4), pWal))))"

section \<open>Writing\<close>

definition walWriteToLog :: "nat \<Rightarrow> Wal \<Rightarrow> bytes \<Rightarrow> nat \<Rightarrow> result_code \<times> Wal" where
  "walWriteToLog iSyncPoint w pContent iOffset =
     (if iOffset < iSyncPoint \<and> iSyncPoint \<le> iOffset + length pContent
      then
        (let iFirstAmt = iSyncPoint - iOffset;
             (rc, w) = sqlite3OsWrite w (take iFirstAmt pContent) iOffset
         in if rc \<noteq> SQLITE_OK then (rc, w)
            else
              (let (rc, w) = sqlite3OsSync w; pContent = drop iFirstAmt pContent in
               if pContent = [] \<or> rc \<noteq> SQLITE_OK then (rc, w)
               else sqlite3OsWrite w pContent (iOffset + iFirstAmt)))
      else sqlite3OsWrite w pContent iOffset)"

definition walWriteOneFrame :: "nat \<Rightarrow> Wal \<Rightarrow> u32 \<times> bytes \<Rightarrow> u32 \<Rightarrow> nat \<Rightarrow> result_code \<times> Wal" where
  "walWriteOneFrame iSyncPoint pWal pPage nTruncate iOffset =
     (let (aFrame, pWal) = walEncodeFrame pWal (fst pPage) nTruncate (snd pPage);
          (rc, pWal) = walWriteToLog iSyncPoint pWal aFrame iOffset
      in if rc \<noteq> SQLITE_OK then (rc, pWal)
         else walWriteToLog iSyncPoint pWal (take (szPage pWal) (snd pPage)) (iOffset + WAL_FRAME_HDRSIZE))"

fun write_frames :: "bool \<Rightarrow> u32 \<Rightarrow> Wal \<Rightarrow> nat \<Rightarrow> (u32 \<times> bytes) list \<Rightarrow> result_code \<times> Wal \<times> nat" where
  "write_frames isCommit nTruncate pWal iOffset [] = (SQLITE_OK, pWal, iOffset)"
| "write_frames isCommit nTruncate pWal iOffset (p # pList) =
     (case walWriteOneFrame 0 pWal p (if isCommit \<and> pList = [] then nTruncate else 0) iOffset of
        (rc, pWal) \<Rightarrow>
          if rc \<noteq> SQLITE_OK then (rc, pWal, iOffset)
          else write_frames isCommit nTruncate pWal (iOffset + (szPage pWal + WAL_FRAME_HDRSIZE)) pList)"

function pad_frames :: "nat \<Rightarrow> nat \<Rightarrow> u32 \<Rightarrow> Wal \<Rightarrow> nat \<Rightarrow> u32 \<times> bytes \<Rightarrow> nat \<Rightarrow> result_code \<times> Wal \<times> nat \<times> nat" where
  "pad_frames iSyncPoint szPg nTruncate pWal iOffset pLast nExtra =
     (if iOffset < iSyncPoint
      then
        (case walWriteOneFrame iSyncPoint pWal pLast nTruncate iOffset of
           (rc, pWal) \<Rightarrow>
             if rc \<noteq> SQLITE_OK then (rc, pWal, iOffset, nExtra)
             else pad_frames iSyncPoint szPg nTruncate pWal (iOffset + (szPg + WAL_FRAME_HDRSIZE)) pLast (nExtra + 1))
      else (SQLITE_OK, pWal, iOffset, nExtra))"
  by pat_completeness auto
termination
  by (relation "measure (\<lambda>(iSyncPoint, _, _, _, iOffset, _). iSyncPoint - iOffset)") (auto simp: WAL_FRAME_HDRSIZE_def)

definition walLimitSize :: "Wal \<Rightarrow> nat \<Rightarrow> Wal" where
  "walLimitSize pWal nMax =
     (case sqlite3OsFileSize pWal of (rx, sz, pWal) \<Rightarrow>
        if rx = SQLITE_OK \<and> nMax < sz then snd (sqlite3OsTruncate pWal nMax) else pWal)"

definition wal_header :: "u32 \<Rightarrow> u32 \<Rightarrow> bytes \<Rightarrow> bytes" where
  "wal_header szPg seq salt =
     sqlite3Put4byte WAL_MAGIC @ sqlite3Put4byte WAL_MAX_VERSION @ sqlite3Put4byte szPg @ sqlite3Put4byte seq @ salt"

text \<open>The start of a log, when no frame has been written yet; salt is what the randomness of the
  system gives.\<close>

definition write_header :: "bytes \<Rightarrow> Wal \<Rightarrow> nat \<Rightarrow> u32 \<Rightarrow> result_code \<times> Wal" where
  "write_header salt pWal szPg sync_flags =
     (let pWal = (if nCkpt pWal = 0 then pWal\<lparr>hdr := (hdr pWal)\<lparr>aSalt := salt\<rparr>\<rparr> else pWal);
          aWalHdr = wal_header (of_nat szPg) (nCkpt pWal) (aSalt (hdr pWal));
          aCksum = walChecksumBytes True aWalHdr (0, 0);
          pWal = pWal\<lparr>szPage := szPg, truncateOnCommit := True, hdr := (hdr pWal)\<lparr>bigEndCksum := 0, aFrameCksum := aCksum\<rparr>\<rparr>;
          (rc, pWal) = sqlite3OsWrite pWal (aWalHdr @ sqlite3Put4byte (fst aCksum) @ sqlite3Put4byte (snd aCksum)) 0
      in if rc \<noteq> SQLITE_OK then (rc, pWal)
         else if syncHeader pWal \<and> sync_flags \<noteq> 0 then sqlite3OsSync pWal
         else (SQLITE_OK, pWal))"

text \<open>Padding and syncing after the frames; the result counts the extra frames, and is None when
  the code returns at once.\<close>

definition finish_commit :: "nat \<Rightarrow> u32 \<Rightarrow> Wal \<Rightarrow> nat \<Rightarrow> u32 \<times> bytes \<Rightarrow> u32 \<Rightarrow> result_code \<times> Wal \<times> nat option" where
  "finish_commit sectorSize sync_flags pWal iOffset pLast nTruncate =
     (if sync_flags AND WAL_SYNC_TRANSACTIONS \<noteq> 0
      then
        if padToSectorBoundary pWal
        then
          (case pad_frames ((iOffset + sectorSize - 1) div sectorSize * sectorSize) (szPage pWal) nTruncate pWal iOffset pLast 0 of
             (rc, pWal, _, nExtra) \<Rightarrow> (rc, pWal, if rc = SQLITE_OK then Some nExtra else None))
        else (case sqlite3OsSync pWal of (rc, pWal) \<Rightarrow> (rc, pWal, Some 0))
      else (SQLITE_OK, pWal, Some 0))"

definition limit_log :: "Wal \<Rightarrow> nat \<Rightarrow> Wal" where
  "limit_log pWal end_offset =
     (if truncateOnCommit pWal \<and> 0 \<le> mxWalSize pWal
      then (walLimitSize pWal (if mxWalSize pWal < int end_offset then end_offset else nat (mxWalSize pWal)))
             \<lparr>truncateOnCommit := False\<rparr>
      else pWal)"

text \<open>The end of sqlite3WalFrames: the private header, and the shared one on a commit.\<close>

definition publish_frames :: "Wal \<Rightarrow> nat \<Rightarrow> nat \<Rightarrow> u32 \<Rightarrow> bool \<Rightarrow> Wal" where
  "publish_frames pWal iFrame szPg nTruncate isCommit =
     (let pWal = pWal\<lparr>hdr := (hdr pWal)
                   \<lparr>szPage16 := ucast (((of_nat szPg :: u32) AND 0xff00) OR drop_bit 16 (of_nat szPg)), mxFrame := iFrame\<rparr>\<rparr>
      in if isCommit
         then (walIndexWriteHdr (pWal\<lparr>hdr := (hdr pWal)\<lparr>iChange := iChange (hdr pWal) + 1, nPage := nTruncate\<rparr>\<rparr>))\<lparr>iCallback := iFrame\<rparr>
         else pWal)"

text \<open>sqlite3WalFrames after walRestartLog.\<close>

definition wal_frames :: "bytes \<Rightarrow> nat \<Rightarrow> Wal \<Rightarrow> nat \<Rightarrow> (u32 \<times> bytes) list \<Rightarrow> u32 \<Rightarrow> bool \<Rightarrow> u32 \<Rightarrow> result_code \<times> Wal" where
  "wal_frames salt sectorSize pWal szPg pList nTruncate isCommit sync_flags =
     (let iFrame = mxFrame (hdr pWal);
          (rc, pWal) = (if iFrame = 0 then write_header salt pWal szPg sync_flags else (SQLITE_OK, pWal))
      in if rc \<noteq> SQLITE_OK then (rc, pWal)
      else
        (case write_frames isCommit nTruncate pWal (walFrameOffset (iFrame + 1) szPg) pList of
           (rc, pWal, iOffset) \<Rightarrow>
             if rc \<noteq> SQLITE_OK then (rc, pWal)
             else
               (case (if isCommit then finish_commit sectorSize sync_flags pWal iOffset (last pList) nTruncate else (SQLITE_OK, pWal, Some 0)) of
                  (rc, pWal, None) \<Rightarrow> (rc, pWal)
                | (rc, pWal, Some nExtra) \<Rightarrow>
                    (let pWal = (if isCommit then limit_log pWal (walFrameOffset (iFrame + length pList + nExtra + 1) szPg) else pWal)
                     in if rc \<noteq> SQLITE_OK then (rc, pWal)
                        else
                          (case append_pages pWal iFrame (map fst pList @ replicate nExtra (fst (last pList))) of
                             (rc, pWal, iFrame) \<Rightarrow>
                               if rc \<noteq> SQLITE_OK then (rc, pWal)
                               else (SQLITE_OK, publish_frames pWal iFrame szPg nTruncate isCommit))))))"

section \<open>Reading\<close>

definition sqlite3WalRead :: "Wal \<Rightarrow> u32 \<Rightarrow> nat \<Rightarrow> result_code \<times> bytes option \<times> Wal" where
  "sqlite3WalRead pWal pgno nOut =
     (case wal_find pWal pgno of (rc, iRead) \<Rightarrow>
        if rc \<noteq> SQLITE_OK then (rc, None, pWal)
        else if iRead = 0 then (SQLITE_OK, None, pWal)
        else
          (let sz = unat ((ucast (szPage16 (hdr pWal)) AND 0xfe00) + push_bit 16 (ucast (szPage16 (hdr pWal)) AND 1 :: u32));
               iOffset = walFrameOffset iRead sz + WAL_FRAME_HDRSIZE;
               (rc, pOut, pWal) = sqlite3OsRead pWal (if sz < nOut then sz else nOut) iOffset
           in (rc, Some pOut, pWal)))"

definition sqlite3WalDbsize :: "Wal \<Rightarrow> u32" where
  "sqlite3WalDbsize pWal = (if 0 \<le> readLock pWal then nPage (hdr pWal) else 0)"

section \<open>Recovery\<close>

function recover_frames :: "nat \<Rightarrow> nat \<Rightarrow> Wal \<Rightarrow> nat \<Rightarrow> nat \<Rightarrow> u32 \<times> u32 \<Rightarrow> result_code \<times> Wal \<times> u32 \<times> u32" where
  "recover_frames szPg nSize pWal iFrame iOffset ck =
     (if iOffset + (szPg + WAL_FRAME_HDRSIZE) \<le> nSize
      then
        (case sqlite3OsRead pWal (szPg + WAL_FRAME_HDRSIZE) iOffset of (rc, aFrame, pWal) \<Rightarrow>
           if rc \<noteq> SQLITE_OK then (rc, pWal, ck)
           else
             (case walDecodeFrame pWal (drop WAL_FRAME_HDRSIZE aFrame) aFrame of
                (None, pWal) \<Rightarrow> (SQLITE_OK, pWal, ck)
              | (Some (pgno, nTruncate), pWal) \<Rightarrow>
                  (case walIndexAppend pWal (iFrame + 1) pgno of (rc, pWal) \<Rightarrow>
                     if rc \<noteq> SQLITE_OK then (rc, pWal, ck)
                     else if nTruncate \<noteq> 0
                     then recover_frames szPg nSize
                            (pWal\<lparr>hdr := (hdr pWal)\<lparr>mxFrame := iFrame + 1, nPage := nTruncate,
                               szPage16 := ucast (((of_nat szPg :: u32) AND 0xff00) OR drop_bit 16 (of_nat szPg))\<rparr>\<rparr>)
                            (iFrame + 1) (iOffset + (szPg + WAL_FRAME_HDRSIZE)) (aFrameCksum (hdr pWal))
                     else recover_frames szPg nSize pWal (iFrame + 1) (iOffset + (szPg + WAL_FRAME_HDRSIZE)) ck)))
      else (SQLITE_OK, pWal, ck))"
  by pat_completeness auto
termination
  by (relation "measure (\<lambda>(_, nSize, _, _, iOffset, _). nSize - iOffset)") (auto simp: WAL_FRAME_HDRSIZE_def)

declare recover_frames.simps [simp del] pad_frames.simps [simp del]

definition zero_hdr :: WalIndexHdr where
  "zero_hdr = \<lparr>iVersion = 0, iChange = 0, isInit = 0, bigEndCksum = 0, szPage16 = 0, mxFrame = 0, nPage = 0,
     aFrameCksum = (0, 0), aSalt = replicate 8 0, aCksum = (0, 0)\<rparr>"

definition SQLITE_MAX_PAGE_SIZE :: nat where "SQLITE_MAX_PAGE_SIZE = 65536"
definition READMARK_NOT_USED :: nat where "READMARK_NOT_USED = 0xffffffff"
definition WAL_NREADER :: nat where "WAL_NREADER = 5"

text \<open>From the header of the log on; the running checksum is that of the last commit.\<close>

definition recover_log :: "bool \<Rightarrow> Wal \<Rightarrow> nat \<Rightarrow> result_code \<times> Wal \<times> (u32 \<times> u32) option" where
  "recover_log malloc_ok pWal nSize =
     (case sqlite3OsRead pWal WAL_HDRSIZE 0 of (rc, aBuf, pWal) \<Rightarrow>
        if rc \<noteq> SQLITE_OK then (rc, pWal, None)
        else
          (let magic = get4 aBuf 0; szPg = get4 aBuf 8 in
           if magic AND 0xFFFFFFFE \<noteq> WAL_MAGIC \<or> szPg AND (szPg - 1) \<noteq> 0 \<or> int SQLITE_MAX_PAGE_SIZE < sint szPg \<or> sint szPg < 512
           then (SQLITE_OK, pWal, Some (0, 0))
           else
             (let aCksum = walChecksumBytes (magic AND 1 = 0) (take (WAL_HDRSIZE - 8) aBuf) (0, 0);
                  pWal = pWal\<lparr>szPage := unat szPg, nCkpt := get4 aBuf 12,
                    hdr := (hdr pWal)\<lparr>bigEndCksum := ucast (magic AND 1), aSalt := take 8 (drop 16 aBuf), aFrameCksum := aCksum\<rparr>\<rparr>
              in if fst aCksum \<noteq> get4 aBuf 24 \<or> snd aCksum \<noteq> get4 aBuf 28 then (SQLITE_OK, pWal, Some (0, 0))
                 else if get4 aBuf 4 \<noteq> WAL_MAX_VERSION then (SQLITE_CANTOPEN, pWal, None)
                 else if \<not> malloc_ok then (SQLITE_NOMEM, pWal, None)
                 else
                   (case recover_frames (unat szPg) nSize pWal 0 WAL_HDRSIZE (0, 0) of
                      (rc, pWal, ck) \<Rightarrow> (rc, pWal, if rc = SQLITE_OK then Some ck else None)))))"

text \<open>lock_rc is the result of the exclusive lock on the other bytes of the locking range.\<close>

definition walIndexRecover :: "result_code \<Rightarrow> bool \<Rightarrow> Wal \<Rightarrow> result_code \<times> Wal" where
  "walIndexRecover lock_rc malloc_ok pWal =
     (if lock_rc \<noteq> SQLITE_OK then (lock_rc, pWal)
      else
        (case sqlite3OsFileSize (pWal\<lparr>hdr := zero_hdr\<rparr>) of (rc, nSize, pWal) \<Rightarrow>
           if rc \<noteq> SQLITE_OK then (rc, pWal)
           else
             (case (if WAL_HDRSIZE < nSize then recover_log malloc_ok pWal nSize else (SQLITE_OK, pWal, Some (0, 0))) of
                (rc, pWal, None) \<Rightarrow> (rc, pWal)
              | (rc, pWal, Some ck) \<Rightarrow>
                  (let pWal = walIndexWriteHdr (pWal\<lparr>hdr := (hdr pWal)\<lparr>aFrameCksum := ck\<rparr>\<rparr>)
                   in (rc, pWal\<lparr>nBackfill := 0,
                             aReadMark := 0 # (if mxFrame (hdr pWal) \<noteq> 0 then mxFrame (hdr pWal) else READMARK_NOT_USED)
                                            # replicate (WAL_NREADER - 2) READMARK_NOT_USED\<rparr>)))))"

end
