(* ===== verification/Wal_Crash.thy ===== *)
theory Wal_Crash
  imports Wal_Log
begin

text \<open>
  What is in the log file after a crash: the bytes of a log are specified by its frames, writing
  appends them, and recovery reads back every frame that was written in full.
\<close>

section \<open>The bytes of a log\<close>

type_synonym frame = "u32 \<times> bytes \<times> u32"
type_synonym cksum = "u32 \<times> u32"

definition frame_head :: "frame \<Rightarrow> bytes" where
  "frame_head f = (case f of (p, d, nt) \<Rightarrow> sqlite3Put4byte p @ sqlite3Put4byte nt)"

definition frame_cksum :: "frame \<Rightarrow> cksum \<Rightarrow> cksum" where
  "frame_cksum f ck = walChecksumBytes True (fst (snd f)) (walChecksumBytes True (frame_head f) ck)"

definition frame_bytes :: "bytes \<Rightarrow> frame \<Rightarrow> cksum \<Rightarrow> bytes" where
  "frame_bytes S f ck =
     frame_head f @ S @ sqlite3Put4byte (fst (frame_cksum f ck)) @ sqlite3Put4byte (snd (frame_cksum f ck)) @ fst (snd f)"

fun log_bytes :: "bytes \<Rightarrow> cksum \<Rightarrow> frame list \<Rightarrow> bytes" where
  "log_bytes S ck [] = []"
| "log_bytes S ck (f # fs) = frame_bytes S f ck @ log_bytes S (frame_cksum f ck) fs"

definition log_cksum :: "cksum \<Rightarrow> frame list \<Rightarrow> cksum" where
  "log_cksum ck fs = fold frame_cksum fs ck"

lemma log_cksum_simps [simp]:
  "log_cksum ck [] = ck" "log_cksum ck (f # fs) = log_cksum (frame_cksum f ck) fs"
  "log_cksum ck (fs @ gs) = log_cksum (log_cksum ck fs) gs"
  by (simp_all add: log_cksum_def)

lemma log_bytes_append: "log_bytes S ck (fs @ gs) = log_bytes S ck fs @ log_bytes S (log_cksum ck fs) gs"
  by (induction fs arbitrary: ck) simp_all

lemma length_Put4 [simp]: "length (sqlite3Put4byte v) = 4"
  by (simp add: sqlite3Put4byte_def)

lemma length_frame_head [simp]: "length (frame_head f) = 8"
  by (simp add: frame_head_def split: prod.split)

lemma length_frame_bytes: "length (frame_bytes S f ck) = 16 + length S + length (fst (snd f))"
  by (simp add: frame_bytes_def)

definition sized :: "nat \<Rightarrow> frame list \<Rightarrow> bool" where
  "sized n fs \<longleftrightarrow> (\<forall>f \<in> set fs. fst f \<noteq> 0 \<and> length (fst (snd f)) = n)"

lemma sized_simps [simp]:
  "sized n []" "sized n (f # fs) \<longleftrightarrow> fst f \<noteq> 0 \<and> length (fst (snd f)) = n \<and> sized n fs"
  "sized n (fs @ gs) \<longleftrightarrow> sized n fs \<and> sized n gs"
  by (auto simp: sized_def)

lemma sized_take: "sized n fs \<Longrightarrow> sized n (take k fs)"
  by (auto simp: sized_def dest: in_set_takeD)

lemma length_log_bytes: "sized n fs \<Longrightarrow> length S = 8 \<Longrightarrow> length (log_bytes S ck fs) = length fs * (n + 24)"
  by (induction fs arbitrary: ck) (simp_all add: length_frame_bytes)

text \<open>A part of the bytes consists of whole frames and less than one more.\<close>

lemma take_log_bytes:
  assumes "sized n fs" "length S = 8"
  obtains j tail where "take k (log_bytes S ck fs) = log_bytes S ck (take j fs) @ tail" "length tail < n + 24"
    "j \<le> length fs" "length (log_bytes S ck fs) \<le> k \<Longrightarrow> j = length fs \<and> tail = []"
proof -
  have "\<exists>j tail. take k (log_bytes S ck fs) = log_bytes S ck (take j fs) @ tail \<and> length tail < n + 24 \<and>
    j \<le> length fs \<and> (length (log_bytes S ck fs) \<le> k \<longrightarrow> j = length fs \<and> tail = [])"
    using assms(1)
  proof (induction fs arbitrary: ck k)
    case Nil
    then show ?case by simp
  next
    case (Cons f fs)
    have len: "length (frame_bytes S f ck) = n + 24" using Cons.prems assms(2) by (simp add: length_frame_bytes)
    show ?case
    proof (cases "n + 24 \<le> k")
      case True
      have sz: "sized n fs" using Cons.prems by simp
      obtain j tail where "take (k - (n + 24)) (log_bytes S (frame_cksum f ck) fs) = log_bytes S (frame_cksum f ck) (take j fs) @ tail"
        "length tail < n + 24" "j \<le> length fs"
        "length (log_bytes S (frame_cksum f ck) fs) \<le> k - (n + 24) \<longrightarrow> j = length fs \<and> tail = []"
        using Cons.IH [OF sz, of "k - (n + 24)" "frame_cksum f ck"] by blast
      then show ?thesis using True len by (intro exI [of _ "Suc j"] exI [of _ tail]) auto
    next
      case False
      then show ?thesis using len by (intro exI [of _ 0] exI [of _ "take k (frame_bytes S f ck)"]) auto
    qed
  qed
  then show thesis using that by blast
qed

section \<open>Decoding a frame\<close>

lemma get4_Put4 [simp]: "get4 (sqlite3Put4byte v @ r) 0 = v"
  by (simp add: get4_def Get4byte_Put4byte)

lemma get4_append: "length a \<le> i \<Longrightarrow> get4 (a @ r) i = get4 r (i - length a)"
  by (simp add: get4_def)

lemma decode_frame:
  assumes f: "f = (p, d, nt)" and w: "aSalt (hdr w) = S" "bigEndCksum (hdr w) = 0" "szPage w = length d"
    and S: "length S = 8" and p: "p \<noteq> 0"
  shows "walDecodeFrame w (drop WAL_FRAME_HDRSIZE (frame_bytes S f (aFrameCksum (hdr w)))) (frame_bytes S f (aFrameCksum (hdr w))) =
     (Some (p, nt), w\<lparr>hdr := (hdr w)\<lparr>aFrameCksum := frame_cksum f (aFrameCksum (hdr w))\<rparr>\<rparr>)"
proof -
  let ?ck = "frame_cksum f (aFrameCksum (hdr w))"
  let ?b = "frame_bytes S f (aFrameCksum (hdr w))"
  have "take 8 (drop 8 ?b) = S" "get4 ?b 0 = p" "take 8 ?b = frame_head f" "drop WAL_FRAME_HDRSIZE ?b = d"
    "get4 ?b 4 = nt" "get4 ?b 16 = fst ?ck" "get4 ?b 20 = snd ?ck"
    using S by (simp_all add: frame_bytes_def f frame_head_def WAL_FRAME_HDRSIZE_def get4_append)
  then show ?thesis using w p by (simp add: walDecodeFrame_def Let_def frame_cksum_def f)
qed

section \<open>Writing appends\<close>

text \<open>A write reaches the file at its end, perhaps in part; when it succeeds, in full.\<close>

definition wrote :: "Wal \<Rightarrow> bytes \<Rightarrow> cksum \<Rightarrow> result_code \<Rightarrow> Wal \<Rightarrow> bool" where
  "wrote w bs ck rc w' \<longleftrightarrow> (\<exists>k. pWalFd w' = pWalFd w @ take k bs) \<and>
     (rc = SQLITE_OK \<longrightarrow>
       (\<exists>fl. w' = w\<lparr>pWalFd := pWalFd w @ bs, faults := fl, hdr := (hdr w)\<lparr>aFrameCksum := ck\<rparr>\<rparr>))"

lemma wrote_seq:
  assumes "wrote w b1 c1 SQLITE_OK w1" and "wrote w1 b2 c2 rc w2"
  shows "wrote w (b1 @ b2) c2 rc w2"
proof -
  obtain fl where w1: "w1 = w\<lparr>pWalFd := pWalFd w @ b1, faults := fl, hdr := (hdr w)\<lparr>aFrameCksum := c1\<rparr>\<rparr>"
    using assms(1) by (auto simp: wrote_def)
  obtain k where k: "pWalFd w2 = pWalFd w1 @ take k b2" using assms(2) by (auto simp: wrote_def)
  have "pWalFd w2 = pWalFd w @ take (length b1 + k) (b1 @ b2)" using k w1 by simp
  moreover have "\<exists>fl. w2 = w\<lparr>pWalFd := pWalFd w @ b1 @ b2, faults := fl, hdr := (hdr w)\<lparr>aFrameCksum := c2\<rparr>\<rparr>" if "rc = SQLITE_OK"
    using assms(2) that w1 by (auto simp: wrote_def)
  ultimately show ?thesis unfolding wrote_def by blast
qed

lemma wrote_part:
  assumes "wrote w b1 c1 rc w1" and "rc \<noteq> SQLITE_OK"
  shows "wrote w (b1 @ b2) c2 rc w1"
proof -
  obtain k where k: "pWalFd w1 = pWalFd w @ take k b1" using assms(1) by (auto simp: wrote_def)
  then have "pWalFd w1 = pWalFd w @ take (min k (length b1)) (b1 @ b2)" by (simp add: min_def)
  then show ?thesis using assms(2) unfolding wrote_def by blast
qed

lemma os_next_frame:
  assumes "os_next w = (f, w')"
  obtains fl where "w' = w\<lparr>faults := fl\<rparr>"
proof (cases "faults w")
  case Nil
  then have "w' = w\<lparr>faults := faults w\<rparr>" using assms by (simp add: os_next_def)
  then show thesis by (rule that)
next
  case (Cons g gs)
  then have "w' = w\<lparr>faults := gs\<rparr>" using assms by (simp add: os_next_def)
  then show thesis by (rule that)
qed

lemma wroteI:
  assumes w': "w' = w\<lparr>pWalFd := pWalFd w @ take k bs, faults := fl\<rparr>" and k: "rc = SQLITE_OK \<Longrightarrow> length bs \<le> k"
  shows "wrote w bs (aFrameCksum (hdr w)) rc w'"
proof -
  have "w' = w\<lparr>pWalFd := pWalFd w @ bs, faults := fl, hdr := (hdr w)\<lparr>aFrameCksum := aFrameCksum (hdr w)\<rparr>\<rparr>" if "rc = SQLITE_OK"
    using k [OF that] by (simp add: w')
  moreover have "pWalFd w' = pWalFd w @ take k bs" by (simp add: w')
  ultimately show ?thesis unfolding wrote_def by blast
qed

lemma wrote_OsWrite:
  assumes "sqlite3OsWrite w d (length (pWalFd w)) = (rc, w')"
  shows "wrote w d (aFrameCksum (hdr w)) rc w'"
proof -
  obtain k w1 where n: "os_next w = ((rc, k), w1)"
    using assms by (cases "os_next w") (auto simp: sqlite3OsWrite_def split: prod.splits)
  then obtain fl where w1: "w1 = w\<lparr>faults := fl\<rparr>" by (rule os_next_frame)
  have "w' = w1\<lparr>pWalFd := pWalFd w @ (if rc = SQLITE_OK then d else take k d)\<rparr>"
    using assms n w1 by (simp add: sqlite3OsWrite_def write_at_def)
  then have "w' = w\<lparr>pWalFd := pWalFd w @ take (if rc = SQLITE_OK then length d else k) d, faults := fl\<rparr>"
    by (simp add: w1)
  then show ?thesis by (rule wroteI) simp
qed

lemma wrote_OsSync:
  assumes "sqlite3OsSync w = (rc, w')"
  shows "wrote w [] (aFrameCksum (hdr w)) rc w'"
proof -
  obtain k where n: "os_next w = ((rc, k), w')"
    using assms by (cases "os_next w") (auto simp: sqlite3OsSync_def split: prod.splits)
  then obtain fl where "w' = w\<lparr>faults := fl\<rparr>" by (rule os_next_frame)
  then have "w' = w\<lparr>pWalFd := pWalFd w @ take 0 [], faults := fl\<rparr>" by simp
  then show ?thesis by (rule wroteI) simp
qed

lemma wrote_cong:
  "wrote w bs ck rc w' \<Longrightarrow> bs = bs' \<Longrightarrow> ck = ck' \<Longrightarrow> wrote w bs' ck' rc w'"
  by simp

lemma wrote_OK_simps:
  assumes "wrote w bs ck SQLITE_OK w'"
  shows "length (pWalFd w') = length (pWalFd w) + length bs" "aFrameCksum (hdr w') = ck" "szPage w' = szPage w"
    "aSalt (hdr w') = aSalt (hdr w)" "bigEndCksum (hdr w') = bigEndCksum (hdr w)" "padToSectorBoundary w' = padToSectorBoundary w"
    "hdr w' = (hdr w)\<lparr>aFrameCksum := ck\<rparr>"
  using assms by (auto simp: wrote_def)

lemma wrote_walWriteToLog:
  assumes "walWriteToLog isp w d (length (pWalFd w)) = (rc, w')"
  shows "wrote w d (aFrameCksum (hdr w)) rc w'"
proof (cases "length (pWalFd w) < isp \<and> isp \<le> length (pWalFd w) + length d")
  case False
  then have "sqlite3OsWrite w d (length (pWalFd w)) = (rc, w')" using assms unfolding walWriteToLog_def by (simp only: if_False)
  then show ?thesis by (rule wrote_OsWrite)
next
  case True
  let ?off = "length (pWalFd w)"
  let ?i = "isp - ?off"
  let ?c = "aFrameCksum (hdr w)"
  obtain rc1 w1 where w1: "sqlite3OsWrite w (take ?i d) ?off = (rc1, w1)" by fastforce
  have a: "wrote w (take ?i d) ?c rc1 w1" by (rule wrote_OsWrite [OF w1])
  show ?thesis
  proof (cases "rc1 = SQLITE_OK")
    case False
    then have "w1 = w'" "rc1 = rc" using assms True w1 by (simp_all add: walWriteToLog_def)
    then show ?thesis using wrote_part [OF a False, of "drop ?i d" ?c] by simp
  next
    case ok1: True
    note a = a [unfolded ok1]
    obtain rc2 w2 where w2: "sqlite3OsSync w1 = (rc2, w2)" by fastforce
    have b: "wrote w (take ?i d) ?c rc2 w2"
      using wrote_seq [OF a wrote_OsSync [OF w2]] wrote_OK_simps(2) [OF a] by simp
    show ?thesis
    proof (cases "drop ?i d = [] \<or> rc2 \<noteq> SQLITE_OK")
      case stop: True
      then have eq: "w2 = w'" "rc2 = rc" using assms True w1 w2 ok1 by (auto simp: walWriteToLog_def Let_def)
      show ?thesis
      proof (cases "rc2 = SQLITE_OK")
        case True
        then have "drop ?i d = []" using stop by simp
        then have "take ?i d = d" by simp
        then show ?thesis using b eq by simp
      next
        case False
        then show ?thesis using wrote_part [OF b False, of "drop ?i d" ?c] eq by simp
      qed
    next
      case go: False
      then have ok2: "rc2 = SQLITE_OK" by simp
      note b = b [unfolded ok2]
      have len: "length (pWalFd w2) = ?off + ?i" using wrote_OK_simps(1) [OF b] True by (auto simp: min_def)
      have "sqlite3OsWrite w2 (drop ?i d) (?off + ?i) = (rc, w')"
        using assms True w1 w2 ok1 go by (auto simp: walWriteToLog_def Let_def)
      then have "wrote w2 (drop ?i d) ?c rc w'"
        using wrote_OsWrite [of w2 "drop ?i d" rc w'] len wrote_OK_simps(2) [OF b] by simp
      then show ?thesis using wrote_seq [OF b] by fastforce
    qed
  qed
qed

lemma wrote_hdr: "wrote (w\<lparr>hdr := (hdr w)\<lparr>aFrameCksum := c\<rparr>\<rparr>) b ck rc w' \<Longrightarrow> wrote w b ck rc w'"
  by (simp add: wrote_def)

text \<open>The handle of a writer in the middle of a log, with page size n.\<close>

definition writer :: "nat \<Rightarrow> bytes \<Rightarrow> Wal \<Rightarrow> bool" where
  "writer n S w \<longleftrightarrow> bigEndCksum (hdr w) = 0 \<and> aSalt (hdr w) = S \<and> length S = 8 \<and> szPage w = n"

lemma writer_wrote: "wrote w b ck SQLITE_OK w' \<Longrightarrow> writer n S w \<Longrightarrow> writer n S w'"
  by (simp add: writer_def wrote_OK_simps)

lemma wrote_frame:
  assumes run: "walWriteOneFrame isp w (p, d) nt (length (pWalFd w)) = (rc, w')" and w: "writer (length d) S w"
  shows "wrote w (frame_bytes S (p, d, nt) (aFrameCksum (hdr w))) (frame_cksum (p, d, nt) (aFrameCksum (hdr w))) rc w'"
proof -
  define ck where "ck = frame_cksum (p, d, nt) (aFrameCksum (hdr w))"
  define h where "h = frame_head (p, d, nt) @ S @ sqlite3Put4byte (fst ck) @ sqlite3Put4byte (snd ck)"
  define v where "v = w\<lparr>hdr := (hdr w)\<lparr>aFrameCksum := ck\<rparr>\<rparr>"
  have v: "pWalFd v = pWalFd w" "aFrameCksum (hdr v) = ck" "szPage v = length d" using w by (simp_all add: v_def writer_def)
  have enc: "walEncodeFrame w p nt d = (h, v)"
    using w by (simp add: walEncodeFrame_def Let_def frame_cksum_def frame_head_def writer_def ck_def h_def v_def)
  obtain rc1 w1 where w1: "walWriteToLog isp v h (length (pWalFd v)) = (rc1, w1)" by fastforce
  have "wrote v h ck rc1 w1" using wrote_walWriteToLog [OF w1] unfolding v(2) .
  then have a: "wrote w h ck rc1 w1" unfolding v_def by (rule wrote_hdr)
  have bytes: "frame_bytes S (p, d, nt) (aFrameCksum (hdr w)) = h @ d" by (simp add: frame_bytes_def h_def ck_def)
  show ?thesis
  proof (cases "rc1 = SQLITE_OK")
    case False
    then have "w1 = w'" "rc1 = rc" using run enc w1 v(1) by (simp_all add: walWriteOneFrame_def)
    then show ?thesis using wrote_part [OF a False, of d ck] unfolding bytes ck_def [symmetric] by simp
  next
    case True
    note a = a [unfolded True]
    have "length (pWalFd w1) = length (pWalFd w) + WAL_FRAME_HDRSIZE"
      using wrote_OK_simps(1) [OF a] w by (simp add: writer_def WAL_FRAME_HDRSIZE_def h_def)
    moreover have w1ck: "szPage w1 = length d" "aFrameCksum (hdr w1) = ck" using wrote_OK_simps [OF a] w by (simp_all add: writer_def)
    ultimately have "walWriteToLog isp w1 d (length (pWalFd w1)) = (rc, w')"
      using run enc w1 v(1) True by (simp add: walWriteOneFrame_def)
    then have "wrote w1 d ck rc w'" using wrote_walWriteToLog w1ck(2) by blast
    then show ?thesis using wrote_seq [OF a] unfolding bytes ck_def [symmetric] by simp
  qed
qed

text \<open>The frames of one call: the last one of a commit carries the size of the database.\<close>

fun mark :: "bool \<Rightarrow> u32 \<Rightarrow> (u32 \<times> bytes) list \<Rightarrow> frame list" where
  "mark isCommit nt [] = []"
| "mark isCommit nt (p # ps) = (fst p, snd p, if isCommit \<and> ps = [] then nt else 0) # mark isCommit nt ps"

lemma wrote_write_frames:
  assumes "write_frames c nt w (length (pWalFd w)) ps = (rc, w', off)" and "writer n S w" and "\<forall>p \<in> set ps. length (snd p) = n"
  shows "wrote w (log_bytes S (aFrameCksum (hdr w)) (mark c nt ps)) (log_cksum (aFrameCksum (hdr w)) (mark c nt ps)) rc w' \<and>
    (rc = SQLITE_OK \<longrightarrow> off = length (pWalFd w'))"
  using assms
proof (induction ps arbitrary: w)
  case Nil
  then have "rc = SQLITE_OK" "w' = w" "off = length (pWalFd w)" by auto
  then show ?case using wroteI [where w = w and w' = w and k = 0 and bs = "[]" and fl = "faults w" and rc = SQLITE_OK] by simp
next
  case (Cons p ps)
  let ?nt = "if c \<and> ps = [] then nt else 0"
  let ?ck = "aFrameCksum (hdr w)"
  obtain rc1 w1 where w1: "walWriteOneFrame 0 w p ?nt (length (pWalFd w)) = (rc1, w1)" by fastforce
  have n: "length (snd p) = n" "szPage w = n" "length S = 8" using Cons.prems by (simp_all add: writer_def)
  have a: "wrote w (frame_bytes S (fst p, snd p, ?nt) ?ck) (frame_cksum (fst p, snd p, ?nt) ?ck) rc1 w1"
    using wrote_frame [of 0 w "fst p" "snd p" ?nt rc1 w1 S] w1 n Cons.prems(2) by simp
  show ?case
  proof (cases "rc1 = SQLITE_OK")
    case False
    then have "w1 = w'" "rc1 = rc" using Cons.prems(1) w1 by simp_all
    then show ?thesis using wrote_part [OF a False] False by simp
  next
    case True
    note a = a [unfolded True]
    have len: "length (pWalFd w1) = length (pWalFd w) + (szPage w1 + WAL_FRAME_HDRSIZE)"
      using wrote_OK_simps(1,3) [OF a] n by (simp add: length_frame_bytes WAL_FRAME_HDRSIZE_def)
    have run: "write_frames c nt w1 (length (pWalFd w1)) ps = (rc, w', off)"
      using Cons.prems(1) w1 True by (simp add: len)
    have ps: "\<forall>p \<in> set ps. length (snd p) = n" using Cons.prems(3) by simp
    show ?thesis
      using Cons.IH [OF run writer_wrote [OF a Cons.prems(2)] ps] wrote_seq [OF a] wrote_OK_simps(2) [OF a] by simp
  qed
qed

lemma wrote_pad_frames:
  assumes "pad_frames isp n nt w off (p, d) k = (rc, w', off', k')" and "off = length (pWalFd w)" and "writer n S w" and "length d = n"
  shows "\<exists>m. wrote w (log_bytes S (aFrameCksum (hdr w)) (replicate m (p, d, nt))) (log_cksum (aFrameCksum (hdr w)) (replicate m (p, d, nt))) rc w' \<and>
    (rc = SQLITE_OK \<longrightarrow> k' = k + m)"
  using assms
proof (induction isp n nt w off "(p, d)" k rule: pad_frames.induct)
  case (1 isp n nt w off k)
  let ?ck = "aFrameCksum (hdr w)"
  let ?f = "(p, d, nt)"
  show ?case
  proof (cases "off < isp")
    case False
    then have "w' = w" "rc = SQLITE_OK" "k' = k" using "1.prems"(1) by (simp_all add: pad_frames.simps)
    then show ?thesis using wroteI [where w = w and w' = w and k = 0 and bs = "[]" and fl = "faults w" and rc = SQLITE_OK] by (intro exI [of _ 0]) simp
  next
    case True
    obtain rc1 w1 where w1: "walWriteOneFrame isp w (p, d) nt off = (rc1, w1)" by fastforce
    have a: "wrote w (frame_bytes S ?f ?ck) (frame_cksum ?f ?ck) rc1 w1"
      using wrote_frame [of isp w p d nt rc1 w1 S] w1 "1.prems" by simp
    show ?thesis
    proof (cases "rc1 = SQLITE_OK")
      case no: False
      then have "w1 = w'" "rc1 = rc" using "1.prems"(1) w1 True by (simp_all add: pad_frames.simps)
      then show ?thesis using a no by (intro exI [of _ 1]) simp
    next
      case ok: True
      note a = a [unfolded ok]
      have len: "off + (n + WAL_FRAME_HDRSIZE) = length (pWalFd w1)"
        using wrote_OK_simps(1) [OF a] "1.prems" by (simp add: length_frame_bytes WAL_FRAME_HDRSIZE_def writer_def)
      have run: "pad_frames isp n nt w1 (off + (n + WAL_FRAME_HDRSIZE)) (p, d) (k + 1) = (rc, w', off', k')"
        using "1.prems"(1) w1 True ok by (simp add: pad_frames.simps [of isp n nt w])
      obtain m where m: "wrote w1 (log_bytes S (aFrameCksum (hdr w1)) (replicate m ?f)) (log_cksum (aFrameCksum (hdr w1)) (replicate m ?f)) rc w'"
        "rc = SQLITE_OK \<longrightarrow> k' = k + 1 + m"
        using "1.hyps" [OF True w1 [symmetric] _ run len writer_wrote [OF a "1.prems"(3)] "1.prems"(4)] ok by auto
      then show ?thesis using wrote_seq [OF a m(1)] wrote_OK_simps(2) [OF a] by (intro exI [of _ "Suc m"]) simp
    qed
  qed
qed

section \<open>A call of sqlite3WalFrames\<close>

definition head_cksum :: "nat \<Rightarrow> u32 \<Rightarrow> bytes \<Rightarrow> cksum" where
  "head_cksum n seq S = walChecksumBytes True (wal_header (of_nat n) seq S) (0, 0)"

definition head_bytes :: "nat \<Rightarrow> u32 \<Rightarrow> bytes \<Rightarrow> bytes" where
  "head_bytes n seq S =
     wal_header (of_nat n) seq S @ sqlite3Put4byte (fst (head_cksum n seq S)) @ sqlite3Put4byte (snd (head_cksum n seq S))"

definition file_bytes :: "nat \<Rightarrow> u32 \<Rightarrow> bytes \<Rightarrow> frame list \<Rightarrow> bytes" where
  "file_bytes n seq S fs = head_bytes n seq S @ log_bytes S (head_cksum n seq S) fs"

lemma length_head_bytes: "length S = 8 \<Longrightarrow> length (head_bytes n seq S) = 32"
  by (simp add: head_bytes_def wal_header_def)

lemma file_bytes_append:
  "file_bytes n seq S (fs @ gs) = file_bytes n seq S fs @ log_bytes S (log_cksum (head_cksum n seq S) fs) gs"
  by (simp add: file_bytes_def log_bytes_append)

lemma length_file_bytes:
  "sized n fs \<Longrightarrow> length S = 8 \<Longrightarrow> length (file_bytes n seq S fs) = walFrameOffset (length fs + 1) n"
  by (simp add: file_bytes_def length_head_bytes length_log_bytes walFrameOffset_def WAL_HDRSIZE_def WAL_FRAME_HDRSIZE_def)

text \<open>The frames fs are in the log; S is the salt that it has or will get.\<close>

definition log_file :: "nat \<Rightarrow> u32 \<Rightarrow> bytes \<Rightarrow> Wal \<Rightarrow> frame list \<Rightarrow> bool" where
  "log_file n seq S w fs \<longleftrightarrow> mxFrame (hdr w) = length fs \<and> sized n fs \<and> length S = 8 \<and>
     (if fs = [] then pWalFd w = [] \<and> nCkpt w = seq \<and> (seq = 0 \<or> aSalt (hdr w) = S)
      else writer n S w \<and> pWalFd w = file_bytes n seq S fs \<and> aFrameCksum (hdr w) = log_cksum (head_cksum n seq S) fs)"

lemma write_header_log:
  assumes run: "write_header S w n fl = (rc, w')" and w: "log_file n seq S w []"
  shows "\<exists>k. pWalFd w' = take k (head_bytes n seq S)"
    and "rc = SQLITE_OK \<Longrightarrow> writer n S w' \<and> pWalFd w' = file_bytes n seq S [] \<and> aFrameCksum (hdr w') = head_cksum n seq S \<and> mxFrame (hdr w') = 0"
proof -
  define v where "v = (if nCkpt w = 0 then w\<lparr>hdr := (hdr w)\<lparr>aSalt := S\<rparr>\<rparr> else w)"
  define u where "u = v\<lparr>szPage := n, truncateOnCommit := True, hdr := (hdr v)\<lparr>bigEndCksum := 0, aFrameCksum := head_cksum n seq S\<rparr>\<rparr>"
  have v: "aSalt (hdr v) = S" "nCkpt v = seq" "pWalFd v = []" "mxFrame (hdr v) = 0" using w by (auto simp: v_def log_file_def)
  have u: "writer n S u" "pWalFd u = []" "aFrameCksum (hdr u) = head_cksum n seq S" "mxFrame (hdr u) = 0"
    using v w by (simp_all add: u_def writer_def log_file_def)
  obtain rc1 w1 where w1: "sqlite3OsWrite u (head_bytes n seq S) (length (pWalFd u)) = (rc1, w1)" by fastforce
  have run': "(rc, w') = (if rc1 \<noteq> SQLITE_OK then (rc1, w1) else if syncHeader w1 \<and> fl \<noteq> 0 then sqlite3OsSync w1 else (SQLITE_OK, w1))"
    using run w1 v u(2) unfolding write_header_def v_def [symmetric] Let_def
    by (simp add: head_cksum_def [symmetric] head_bytes_def [symmetric] u_def [symmetric])
  have a: "wrote u (head_bytes n seq S) (head_cksum n seq S) rc1 w1" using wrote_OsWrite [OF w1] by (simp add: u)
  have "wrote u (head_bytes n seq S) (head_cksum n seq S) rc w'"
  proof (cases "rc1 = SQLITE_OK")
    case False
    then show ?thesis using run' a by simp
  next
    case True
    note a = a [unfolded True]
    show ?thesis
    proof (cases "syncHeader w1 \<and> fl \<noteq> 0")
      case sync: True
      then have "sqlite3OsSync w1 = (rc, w')" using run' True by simp
      then show ?thesis using wrote_seq [OF a wrote_OsSync] wrote_OK_simps(2) [OF a] by fastforce
    next
      case False
      then show ?thesis using run' True a by auto
    qed
  qed
  then show "\<exists>k. pWalFd w' = take k (head_bytes n seq S)"
    and "rc = SQLITE_OK \<Longrightarrow> writer n S w' \<and> pWalFd w' = file_bytes n seq S [] \<and> aFrameCksum (hdr w') = head_cksum n seq S \<and> mxFrame (hdr w') = 0"
    using u by (auto simp: wrote_def file_bytes_def writer_def)
qed

lemma limit_log_frame:
  assumes "length (pWalFd w) \<le> e"
  obtains fl t where "limit_log w e = w\<lparr>faults := fl, truncateOnCommit := t\<rparr>"
proof -
  have "\<exists>fl. walLimitSize w m = w\<lparr>faults := fl\<rparr>" if "e \<le> m" for m
  proof -
    obtain rc k w1 where n: "os_next w = ((rc, k), w1)" by (metis surj_pair)
    obtain fl where "w1 = w\<lparr>faults := fl\<rparr>" using n by (rule os_next_frame)
    then show ?thesis using n assms that by (auto simp: walLimitSize_def sqlite3OsFileSize_def)
  qed
  then have "\<exists>fl t. limit_log w e = w\<lparr>faults := fl, truncateOnCommit := t\<rparr>"
  proof (cases "truncateOnCommit w \<and> 0 \<le> mxWalSize w")
    case False
    then have "limit_log w e = w\<lparr>faults := faults w, truncateOnCommit := truncateOnCommit w\<rparr>" by (auto simp: limit_log_def)
    then show ?thesis by blast
  next
    case True
    define m where "m = (if mxWalSize w < int e then e else nat (mxWalSize w))"
    have "e \<le> m" using True by (simp add: m_def le_nat_iff)
    then obtain fl where "walLimitSize w m = w\<lparr>faults := fl\<rparr>"
      using \<open>\<And>m. e \<le> m \<Longrightarrow> \<exists>fl. walLimitSize w m = w\<lparr>faults := fl\<rparr>\<close> by blast
    then have "limit_log w e = w\<lparr>faults := fl, truncateOnCommit := False\<rparr>" using True by (simp add: limit_log_def m_def)
    then show ?thesis by blast
  qed
  then show thesis using that by blast
qed

definition call_frames :: "(u32 \<times> bytes) list \<Rightarrow> u32 \<Rightarrow> bool \<Rightarrow> nat \<Rightarrow> frame list" where
  "call_frames ps nt c m = mark c nt ps @ replicate m (fst (last ps), snd (last ps), nt)"

definition pages_ok :: "nat \<Rightarrow> (u32 \<times> bytes) list \<Rightarrow> bool" where
  "pages_ok n ps \<longleftrightarrow> ps \<noteq> [] \<and> (\<forall>p \<in> set ps. fst p \<noteq> 0 \<and> length (snd p) = n)"

lemma sized_mark: "\<forall>p \<in> set ps. fst p \<noteq> 0 \<and> length (snd p) = n \<Longrightarrow> sized n (mark c nt ps)"
  by (induction ps) simp_all

lemma sized_call_frames: "pages_ok n ps \<Longrightarrow> sized n (call_frames ps nt c m)"
  using last_in_set [of ps] by (simp add: call_frames_def pages_ok_def sized_mark) (simp add: sized_def)

lemma length_mark [simp]: "length (mark c nt ps) = length ps"
  by (induction ps) simp_all

lemma map_fst_mark: "map fst (mark c nt ps) = map fst ps"
  by (induction ps) simp_all

lemma finish_commit_log:
  assumes run: "finish_commit sec fl w off (p, d) nt = (rc, w', ex)" and off: "off = length (pWalFd w)" and w: "writer n S w" and d: "length d = n"
  obtains m where "wrote w (log_bytes S (aFrameCksum (hdr w)) (replicate m (p, d, nt))) (log_cksum (aFrameCksum (hdr w)) (replicate m (p, d, nt))) rc w'"
    "rc = SQLITE_OK \<Longrightarrow> ex = Some m" "ex = None \<or> ex = Some m"
proof -
  let ?wrote = "\<lambda>m. wrote w (log_bytes S (aFrameCksum (hdr w)) (replicate m (p, d, nt))) (log_cksum (aFrameCksum (hdr w)) (replicate m (p, d, nt))) rc w'"
  have szp: "szPage w = n" using w by (simp add: writer_def)
  have "\<exists>m. ?wrote m \<and> (rc = SQLITE_OK \<longrightarrow> ex = Some m) \<and> (ex = None \<or> ex = Some m)"
  proof (cases "fl AND WAL_SYNC_TRANSACTIONS \<noteq> 0")
    case False
    then have "rc = SQLITE_OK" "w' = w" "ex = Some 0" using run by (auto simp: finish_commit_def)
    then show ?thesis using wroteI [where w = w and w' = w and k = 0 and bs = "[]" and fl = "faults w" and rc = SQLITE_OK]
      by (intro exI [of _ 0]) simp
  next
    case True
    show ?thesis
    proof (cases "padToSectorBoundary w")
      case False
      then have "sqlite3OsSync w = (rc, w')" "ex = Some 0" using run True by (auto simp: finish_commit_def split: prod.splits)
      then show ?thesis using wrote_OsSync [of w rc w'] by (intro exI [of _ 0]) simp
    next
      case pad: True
      obtain rc1 w1 off1 k1 where r: "pad_frames ((off + sec - 1) div sec * sec) n nt w off (p, d) 0 = (rc1, w1, off1, k1)" by (metis prod_cases4)
      then have eq: "rc = rc1" "w' = w1" "ex = (if rc1 = SQLITE_OK then Some k1 else None)"
        using run True pad szp by (auto simp: finish_commit_def)
      show ?thesis using wrote_pad_frames [OF r off w d] eq by auto
    qed
  qed
  then show thesis using that by blast
qed

lemma finish_stage:
  assumes run: "(if c then finish_commit sec fl w2 off2 (last ps) nt else (SQLITE_OK, w2, Some 0)) = (rc3, w3, ex)"
    and b: "wrote w1 (log_bytes S ck (mark c nt ps)) (log_cksum ck (mark c nt ps)) SQLITE_OK w2" and off2: "off2 = length (pWalFd w2)"
    and w1: "writer n S w1" and ps: "pages_ok n ps"
  shows "\<exists>m. wrote w1 (log_bytes S ck (call_frames ps nt c m)) (log_cksum ck (call_frames ps nt c m)) rc3 w3 \<and>
    (rc3 = SQLITE_OK \<longrightarrow> ex = Some m) \<and> (ex = None \<or> ex = Some m) \<and> (c \<or> m = 0)"
proof (cases c)
  case False
  then show ?thesis using run b by (intro exI [of _ 0]) (auto simp: call_frames_def)
next
  case True
  have ck2: "aFrameCksum (hdr w2) = log_cksum ck (mark c nt ps)" using wrote_OK_simps(2) [OF b] .
  have lst: "length (snd (last ps)) = n" using ps by (simp add: pages_ok_def)
  have r: "finish_commit sec fl w2 off2 (fst (last ps), snd (last ps)) nt = (rc3, w3, ex)" using run True by simp
  obtain m where "wrote w2 (log_bytes S (log_cksum ck (mark c nt ps)) (replicate m (fst (last ps), snd (last ps), nt)))
      (log_cksum (log_cksum ck (mark c nt ps)) (replicate m (fst (last ps), snd (last ps), nt))) rc3 w3"
    "rc3 = SQLITE_OK \<Longrightarrow> ex = Some m" "ex = None \<or> ex = Some m"
    using finish_commit_log [OF r off2 writer_wrote [OF b w1] lst] unfolding ck2 by blast
  then show ?thesis using True wrote_seq [OF b] by (intro exI [of _ m]) (simp add: call_frames_def log_bytes_append)
qed

lemma append_pages_count: "append_pages w i qs = (rc, w', j) \<Longrightarrow> rc = SQLITE_OK \<Longrightarrow> j = i + length qs"
  by (induction qs arbitrary: w i) (simp, fastforce split: prod.splits if_splits)

lemma conjunctD4: "P \<and> Q \<and> R \<and> T \<Longrightarrow> P" "P \<and> Q \<and> R \<and> T \<Longrightarrow> Q" "P \<and> Q \<and> R \<and> T \<Longrightarrow> R" "P \<and> Q \<and> R \<and> T \<Longrightarrow> T"
  by blast+

lemma wal_frames_log:
  assumes run: "wal_frames S sec w n ps nt c fl = (rc, w')" and w: "log_file n seq S w fs" and ps: "pages_ok n ps"
  obtains m where "\<exists>k. pWalFd w' = take k (file_bytes n seq S (fs @ call_frames ps nt c m)) \<and> length (pWalFd w) \<le> k"
    "rc = SQLITE_OK \<Longrightarrow> log_file n seq S w' (fs @ call_frames ps nt c m)"
    "c \<or> m = 0"
proof -
  let ?hc = "head_cksum n seq S"
  let ?file = "\<lambda>m. file_bytes n seq S (fs @ call_frames ps nt c m)"
  have S8: "length S = 8" and sz: "sized n fs" and mx: "mxFrame (hdr w) = length fs" using w by (simp_all add: log_file_def)
  define h where "h = (if mxFrame (hdr w) = 0 then write_header S w n fl else (SQLITE_OK, w))"
  obtain rc1 w1 where h1: "h = (rc1, w1)" by fastforce
  have head: "rc1 = SQLITE_OK \<Longrightarrow> writer n S w1 \<and> pWalFd w1 = file_bytes n seq S fs \<and> aFrameCksum (hdr w1) = log_cksum ?hc fs \<and> mxFrame (hdr w1) = length fs"
    and head_k: "\<exists>k. pWalFd w1 = take k (file_bytes n seq S fs) \<and> length (pWalFd w) \<le> k"
  proof -
    have "(rc1 = SQLITE_OK \<longrightarrow> writer n S w1 \<and> pWalFd w1 = file_bytes n seq S fs \<and> aFrameCksum (hdr w1) = log_cksum ?hc fs \<and> mxFrame (hdr w1) = length fs)
      \<and> (\<exists>k. pWalFd w1 = take k (file_bytes n seq S fs) \<and> length (pWalFd w) \<le> k)"
    proof (cases "fs = []")
      case True
      then have hh: "write_header S w n fl = (rc1, w1)" "log_file n seq S w []" using h1 mx w by (simp_all add: h_def)
      obtain k where "pWalFd w1 = take k (head_bytes n seq S)" using write_header_log(1) [OF hh] by blast
      then have "pWalFd w1 = take k (file_bytes n seq S fs) \<and> length (pWalFd w) \<le> k"
        using True w by (simp add: log_file_def file_bytes_def)
      then show ?thesis using write_header_log(2) [OF hh] True by auto
    next
      case False
      then have "w1 = w" "rc1 = SQLITE_OK" using h1 mx by (simp_all add: h_def)
      then show ?thesis using False w by (auto simp: log_file_def intro!: exI [of _ "length (file_bytes n seq S fs)"])
    qed
    then show "rc1 = SQLITE_OK \<Longrightarrow> writer n S w1 \<and> pWalFd w1 = file_bytes n seq S fs \<and> aFrameCksum (hdr w1) = log_cksum ?hc fs \<and> mxFrame (hdr w1) = length fs"
      and "\<exists>k. pWalFd w1 = take k (file_bytes n seq S fs) \<and> length (pWalFd w) \<le> k" by blast+
  qed
  have part: "\<exists>k. f = take k (?file m) \<and> length (pWalFd w) \<le> k" if "f = take k (file_bytes n seq S fs)" "length (pWalFd w) \<le> k" for f k m
    using that by (intro exI [of _ "min k (length (file_bytes n seq S fs))"]) (use w in \<open>auto simp: file_bytes_append min_def log_file_def split: if_splits\<close>)
  show thesis
  proof (cases "rc1 = SQLITE_OK")
    case False
    then have "w' = w1" "rc \<noteq> SQLITE_OK" using run h1 unfolding wal_frames_def h_def by (simp_all add: Let_def)
    then show thesis using that [of 0] part head_k by blast
  next
    case True
    note a = conjunctD4 [OF head [OF True]]
    define ck where "ck = log_cksum ?hc fs"
    have off: "walFrameOffset (length fs + 1) n = length (pWalFd w1)" using a(2) length_file_bytes [OF sz S8] by simp
    obtain rc2 w2 off2 where w2: "write_frames c nt w1 (length (pWalFd w1)) ps = (rc2, w2, off2)" by (metis prod_cases3)
    have b: "wrote w1 (log_bytes S ck (mark c nt ps)) (log_cksum ck (mark c nt ps)) rc2 w2" and off2: "rc2 = SQLITE_OK \<Longrightarrow> off2 = length (pWalFd w2)"
      using wrote_write_frames [OF w2 a(1)] ps a(3) by (auto simp: pages_ok_def ck_def)
    have run2: "(rc, w') = (if rc2 \<noteq> SQLITE_OK then (rc2, w2)
             else
               (case (if c then finish_commit sec fl w2 off2 (last ps) nt else (SQLITE_OK, w2, Some 0)) of
                  (rc, pWal, None) \<Rightarrow> (rc, pWal)
                | (rc, pWal, Some nExtra) \<Rightarrow>
                    (let pWal = (if c then limit_log pWal (walFrameOffset (length fs + length ps + nExtra + 1) n) else pWal)
                     in if rc \<noteq> SQLITE_OK then (rc, pWal)
                        else
                          (case append_pages pWal (length fs) (map fst ps @ replicate nExtra (fst (last ps))) of
                             (rc, pWal, iFrame) \<Rightarrow>
                               if rc \<noteq> SQLITE_OK then (rc, pWal)
                               else (SQLITE_OK, publish_frames pWal iFrame n nt c)))))"
      using run h1 True w2 mx off unfolding wal_frames_def h_def by (simp add: Let_def)
    have part2: "\<exists>k. pWalFd x = take k (?file m) \<and> length (pWalFd w) \<le> k"
      if x: "wrote w1 (log_bytes S ck (call_frames ps nt c m)) c' rc' x" for x c' rc' m
    proof -
      obtain k where "pWalFd x = pWalFd w1 @ take k (log_bytes S ck (call_frames ps nt c m))"
        using x unfolding wrote_def by blast
      then have "pWalFd x = file_bytes n seq S fs @ take k (log_bytes S ck (call_frames ps nt c m))"
        by (simp add: a(2))
      moreover have "length (pWalFd w) \<le> length (file_bytes n seq S fs)"
        using w by (cases "fs = []") (simp_all add: log_file_def)
      ultimately show ?thesis
        by (intro exI [of _ "length (file_bytes n seq S fs) + k"]) (simp add: file_bytes_append ck_def)
    qed
    show thesis
    proof (cases "rc2 = SQLITE_OK")
      case False
      then have "w' = w2" "rc \<noteq> SQLITE_OK" using run2 by simp_all
      then show thesis using that [of 0] part2 [of 0] b by (simp add: call_frames_def)
    next
      case ok2: True
      note b = b [unfolded ok2]
      obtain rc3 w3 ex where w3: "(if c then finish_commit sec fl w2 off2 (last ps) nt else (SQLITE_OK, w2, Some 0)) = (rc3, w3, ex)" by (metis prod_cases3)
      obtain m where m: "wrote w1 (log_bytes S ck (call_frames ps nt c m)) (log_cksum ck (call_frames ps nt c m)) rc3 w3"
        "rc3 = SQLITE_OK \<Longrightarrow> ex = Some m" "ex = None \<or> ex = Some m" "c \<or> m = 0"
        using finish_stage [OF w3 b off2 [OF ok2] a(1) ps] by blast
      show thesis
      proof (cases ex)
        case None
        then have "w' = w3" "rc \<noteq> SQLITE_OK" using run2 ok2 w3 m(2) by auto
        then show thesis using that [of m] part2 [OF m(1)] m(4) by blast
      next
        case (Some m')
        then have [simp]: "m' = m" using m(3) by simp
        define w4 where "w4 = (if c then limit_log w3 (walFrameOffset (length fs + length ps + m + 1) n) else w3)"
        have run3: "(rc, w') = (if rc3 \<noteq> SQLITE_OK then (rc3, w4)
                        else
                          (case append_pages w4 (length fs) (map fst ps @ replicate m (fst (last ps))) of
                             (rc, pWal, iFrame) \<Rightarrow>
                               if rc \<noteq> SQLITE_OK then (rc, pWal)
                               else (SQLITE_OK, publish_frames pWal iFrame n nt c)))"
          using run2 ok2 w3 Some by (simp add: w4_def Let_def)
        obtain k where k: "pWalFd w3 = take k (?file m)" using part2 [OF m(1)] by blast
        have "length (?file m) = walFrameOffset (length fs + length ps + m + 1) n"
          using length_file_bytes [of n "fs @ call_frames ps nt c m" S seq] sz sized_call_frames [OF ps] S8
          by (simp add: call_frames_def add.assoc)
        then have len: "length (pWalFd w3) \<le> walFrameOffset (length fs + length ps + m + 1) n" using k by simp
        obtain fl4 t4 where w4: "w4 = w3\<lparr>faults := fl4, truncateOnCommit := t4\<rparr>"
        proof (cases c)
          case True
          then show thesis using limit_log_frame [OF len] that by (auto simp: w4_def)
        next
          case False
          then have "w4 = w3\<lparr>faults := faults w3, truncateOnCommit := truncateOnCommit w3\<rparr>" by (simp add: w4_def)
          then show thesis by (rule that)
        qed
        show thesis
        proof (cases "rc3 = SQLITE_OK")
          case False
          then have "w' = w4" "rc \<noteq> SQLITE_OK" using run3 by simp_all
          then show thesis using that [of m] part2 [OF m(1)] m(4) w4 by simp
        next
          case ok3: True
          obtain rc5 w5 i5 where w5: "append_pages w4 (length fs) (map fst ps @ replicate m (fst (last ps))) = (rc5, w5, i5)" by (metis prod_cases3)
          obtain d where d: "w5 = w4\<lparr>apWiData := d\<rparr>" using append_pages_frame [OF w5] by blast
          have file5: "pWalFd w5 = pWalFd w3" by (simp add: d w4)
          show thesis
          proof (cases "rc5 = SQLITE_OK")
            case False
            then have "w' = w5" "rc \<noteq> SQLITE_OK" using run3 w5 ok3 by simp_all
            then show thesis using that [of m] part2 [OF m(1)] m(4) file5 by simp
          next
            case ok5: True
            then have w': "w' = publish_frames w5 i5 n nt c" using run3 w5 ok3 by simp
            have i5: "i5 = length (fs @ call_frames ps nt c m)" using append_pages_count [OF w5 ok5] by (simp add: call_frames_def)
            have pub: "pWalFd w' = pWalFd w5" "writer n S w' = writer n S w5" "aFrameCksum (hdr w') = aFrameCksum (hdr w5)" "mxFrame (hdr w') = i5"
              by (simp_all add: w' publish_frames_def Let_def walIndexWriteHdr_def writer_def)
            have "writer n S w3" "aFrameCksum (hdr w3) = log_cksum ck (call_frames ps nt c m)" "pWalFd w3 = ?file m"
              using writer_wrote [OF m(1) [unfolded ok3] a(1)] wrote_OK_simps(2) [OF m(1) [unfolded ok3]] m(1) ok3 a(2)
              by (auto simp: wrote_def file_bytes_append ck_def)
            moreover have "call_frames ps nt c m \<noteq> []" using ps by (cases ps) (auto simp: call_frames_def pages_ok_def)
            ultimately have "log_file n seq S w' (fs @ call_frames ps nt c m)"
              using pub d w4 i5 sz S8 sized_call_frames [OF ps] by (simp add: log_file_def writer_def ck_def)
            then show thesis using that [of m] part2 [OF m(1)] m(4) file5 pub(1) by simp
          qed
        qed
      qed
    qed
  qed
qed

end
