(* ===== verification/Wal_Recovery.thy ===== *)
theory Wal_Recovery
  imports Wal_Crash
begin

text \<open>
  Recovery: walIndexRecover on the file that a crashed writer left brings back exactly the
  committed transactions.
\<close>

section \<open>The frames of the file\<close>

definition page_size :: "nat \<Rightarrow> bool" where
  "page_size n \<longleftrightarrow> n \<in> {512, 1024, 2048, 4096, 8192, 16384, 32768, 65536}"

definition size_code :: "nat \<Rightarrow> u16" where
  "size_code n = ucast (((of_nat n :: u32) AND 0xff00) OR drop_bit 16 (of_nat n))"

lemma page_size_code:
  "page_size n \<Longrightarrow> unat ((ucast (size_code n) AND 0xfe00) + push_bit 16 (ucast (size_code n) AND 1 :: u32)) = n"
  unfolding page_size_def by (elim insertE emptyE; simp add: size_code_def)

lemma page_size_header:
  "page_size n \<Longrightarrow> unat (of_nat n :: u32) = n \<and> (of_nat n :: u32) AND (of_nat n - 1) = 0 \<and> sint (of_nat n :: u32) = int n \<and> 512 \<le> n \<and> n \<le> 65536"
  unfolding page_size_def by (elim insertE emptyE; simp)

fun last_commit :: "nat \<Rightarrow> nat \<times> u32 \<Rightarrow> frame list \<Rightarrow> nat \<times> u32" where
  "last_commit i s [] = s"
| "last_commit i s (f # fs) = last_commit (Suc i) (if snd (snd f) \<noteq> 0 then (Suc i, snd (snd f)) else s) fs"

lemma OsRead_ok:
  assumes "faults w = []" and "pWalFd w = a @ b @ c" and "off = length a" and "m = length b"
  shows "sqlite3OsRead w m off = (SQLITE_OK, b, w)"
  using assms by (simp add: sqlite3OsRead_def os_next_def)

text \<open>A recovering connection that has read the frames pre.\<close>

definition recovering :: "nat \<Rightarrow> u32 \<Rightarrow> bytes \<Rightarrow> Wal \<Rightarrow> frame list \<Rightarrow> bool" where
  "recovering n seq S w pre \<longleftrightarrow> writer n S w \<and> aFrameCksum (hdr w) = log_cksum (head_cksum n seq S) pre \<and>
     index_ok w (map fst pre) \<and> mxFrame (hdr w) \<le> length pre \<and> (mxFrame (hdr w) \<noteq> 0 \<longrightarrow> szPage16 (hdr w) = size_code n)"

lemma recover_frames_log:
  assumes "recovering n seq S w pre" and "faults w = []" and "sized n (pre @ fs)" and "length tail < n + 24"
    and "pWalFd w = file_bytes n seq S (pre @ fs) @ tail"
  shows "\<exists>w' ck'. recover_frames n (length (pWalFd w)) w (length pre) (length (file_bytes n seq S pre)) ck = (SQLITE_OK, w', ck') \<and>
     recovering n seq S w' (pre @ fs) \<and> faults w' = [] \<and> pWalFd w' = pWalFd w \<and>
     (mxFrame (hdr w'), nPage (hdr w')) = last_commit (length pre) (mxFrame (hdr w), nPage (hdr w)) fs"
  using assms
proof (induction fs arbitrary: pre w ck)
  case Nil
  then show ?case by (simp add: recover_frames.simps WAL_FRAME_HDRSIZE_def)
next
  case (Cons f fs)
  obtain p d nt where f: "f = (p, d, nt)" by (metis prod_cases3)
  let ?off = "length (file_bytes n seq S pre)"
  define b where "b = frame_bytes S f (aFrameCksum (hdr w))"
  have wr: "writer n S w" and S8: "length S = 8" and d: "length d = n" and p: "p \<noteq> 0"
    using Cons.prems(1,3) by (simp_all add: recovering_def writer_def f)
  have lb: "length b = n + 24" by (simp add: b_def length_frame_bytes S8 f d)
  have content: "pWalFd w = file_bytes n seq S pre @ b @ (log_bytes S (frame_cksum f (aFrameCksum (hdr w))) fs @ tail)"
    using Cons.prems(1,5) by (simp add: file_bytes_append recovering_def b_def)
  have read: "sqlite3OsRead w (n + WAL_FRAME_HDRSIZE) ?off = (SQLITE_OK, b, w)"
    using content by (rule OsRead_ok [OF Cons.prems(2)]) (simp_all add: lb WAL_FRAME_HDRSIZE_def)
  define w1 where "w1 = w\<lparr>hdr := (hdr w)\<lparr>aFrameCksum := frame_cksum f (aFrameCksum (hdr w))\<rparr>\<rparr>"
  have dec: "walDecodeFrame w (drop WAL_FRAME_HDRSIZE b) b = (Some (p, nt), w1)"
    unfolding b_def w1_def by (rule decode_frame [OF f]) (use wr d p in \<open>simp_all add: writer_def\<close>)
  have ix1: "index_ok w1 (map fst pre)" 
    using Cons.prems(1) index_ok_cong [of w1 w "map fst pre"] by (simp add: recovering_def w1_def)
  obtain w2 where w2: "walIndexAppend w1 (Suc (length pre)) p = (SQLITE_OK, w2)" "index_ok w2 (map fst pre @ [p])"
    using walIndexAppend_ok [OF ix1 p] by auto
  obtain dd where dd: "w2 = w1\<lparr>apWiData := dd\<rparr>" using walIndexAppend_frame [OF w2(1)] by blast
  define w3 where "w3 = (if nt \<noteq> 0 then w2\<lparr>hdr := (hdr w2)\<lparr>mxFrame := length pre + 1, nPage := nt, szPage16 := size_code n\<rparr>\<rparr> else w2)"
  have "index_ok w3 (map fst (pre @ [f]))"
  proof (cases "nt = 0")
    case True
    then show ?thesis using w2(2) by (simp add: w3_def f)
  next
    case False
    have "index_ok w3 (take (Suc (length pre)) (map fst pre @ [p]))" using w2(2) by (rule index_take) (simp_all add: w3_def False)
    then show ?thesis by (simp add: f)
  qed
  then have rec3: "recovering n seq S w3 (pre @ [f])"
    using Cons.prems(1) by (auto simp: recovering_def w3_def dd w1_def writer_def)
  have w3: "faults w3 = []" "pWalFd w3 = pWalFd w" "(mxFrame (hdr w3), nPage (hdr w3)) = (if nt \<noteq> 0 then (Suc (length pre), nt) else (mxFrame (hdr w), nPage (hdr w)))"
    using Cons.prems(2) by (simp_all add: w3_def dd w1_def)
  have step: "\<exists>ck1. recover_frames n (length (pWalFd w)) w (length pre) ?off ck =
      recover_frames n (length (pWalFd w3)) w3 (length (pre @ [f])) (length (file_bytes n seq S (pre @ [f]))) ck1"
  proof -
    have next_off: "length (file_bytes n seq S (pre @ [f])) = ?off + (n + WAL_FRAME_HDRSIZE)"
      using lb Cons.prems(1) by (simp add: file_bytes_append recovering_def b_def WAL_FRAME_HDRSIZE_def)
    have "?off + (n + WAL_FRAME_HDRSIZE) \<le> length (pWalFd w)" by (simp add: content lb WAL_FRAME_HDRSIZE_def)
    then have "recover_frames n (length (pWalFd w)) w (length pre) ?off ck =
        recover_frames n (length (pWalFd w)) w3 (length (pre @ [f])) (?off + (n + WAL_FRAME_HDRSIZE)) (if nt \<noteq> 0 then aFrameCksum (hdr w2) else ck)"
      using read dec w2(1) by (subst recover_frames.simps) (simp add: w3_def size_code_def)
    then show ?thesis unfolding next_off w3(2) by blast
  qed
  have prems: "sized n ((pre @ [f]) @ fs)" "pWalFd w3 = file_bytes n seq S ((pre @ [f]) @ fs) @ tail"
    using Cons.prems(3,5) w3(2) by simp_all
  show ?case
    using Cons.IH [OF rec3 w3(1) prems(1) Cons.prems(4) prems(2)] step w3(2,3) by (auto simp: f split: if_splits)
qed

lemma recover_log_ok:
  assumes n: "page_size n" and S: "length S = 8" and w: "faults w = []" "mxFrame (hdr w) = 0" "\<forall>t. mapped w t"
    and sz: "sized n fs" and t: "length tail < n + 24" and content: "pWalFd w = file_bytes n seq S fs @ tail"
  shows "\<exists>w' ck. recover_log True w (length (pWalFd w)) = (SQLITE_OK, w', Some ck) \<and>
     recovering n seq S w' fs \<and> faults w' = [] \<and> pWalFd w' = pWalFd w \<and>
     (mxFrame (hdr w'), nPage (hdr w')) = last_commit 0 (0, nPage (hdr w)) fs"
proof -
  let ?h = "head_bytes n seq S"
  let ?ck = "head_cksum n seq S"
  have lh: "length ?h = 32" by (rule length_head_bytes [OF S])
  have "pWalFd w = [] @ ?h @ (log_bytes S ?ck fs @ tail)" by (simp add: content file_bytes_def)
  then have read: "sqlite3OsRead w WAL_HDRSIZE 0 = (SQLITE_OK, ?h, w)"
    by (rule OsRead_ok [OF w(1)]) (simp_all add: lh WAL_HDRSIZE_def)
  have h: "get4 ?h 0 = WAL_MAGIC" "get4 ?h 4 = WAL_MAX_VERSION" "get4 ?h 8 = of_nat n" "get4 ?h 12 = seq" "take 8 (drop 16 ?h) = S"
    "get4 ?h 24 = fst ?ck" "get4 ?h 28 = snd ?ck" "take 24 ?h = wal_header (of_nat n) seq S"
    using S get4_Put4 [of "snd ?ck" "[]"] by (simp_all add: head_bytes_def wal_header_def get4_append)
  have size: "unat (of_nat n :: u32) = n" "(of_nat n :: u32) AND (of_nat n - 1) = 0" "sint (of_nat n :: u32) = int n" "512 \<le> n" "n \<le> 65536"
    using page_size_header [OF n] by simp_all
  have magic: "WAL_MAGIC AND 0xFFFFFFFE = WAL_MAGIC" "WAL_MAGIC AND 1 = 0" by (simp_all add: WAL_MAGIC_def)
  define w1 where "w1 = w\<lparr>szPage := n, nCkpt := seq, hdr := (hdr w)\<lparr>bigEndCksum := 0, aSalt := S, aFrameCksum := ?ck\<rparr>\<rparr>"
  have "recovering n seq S w1 []" using w S by (simp add: recovering_def w1_def writer_def index_ok_def seg_def)
  moreover have "pWalFd w1 = file_bytes n seq S ([] @ fs) @ tail" "sized n ([] @ fs)" "faults w1 = []"
    using content sz w(1) by (simp_all add: w1_def)
  ultimately obtain w' ck' where run: "recover_frames n (length (pWalFd w1)) w1 0 (length (file_bytes n seq S [])) (0, 0) = (SQLITE_OK, w', ck')"
    and post: "recovering n seq S w' fs" "faults w' = []" "pWalFd w' = pWalFd w1"
      "(mxFrame (hdr w'), nPage (hdr w')) = last_commit 0 (mxFrame (hdr w1), nPage (hdr w1)) fs"
    using recover_frames_log [of n seq S w1 "[]" fs tail "(0, 0)"] t by auto
  have "length (file_bytes n seq S []) = WAL_HDRSIZE" by (simp add: file_bytes_def lh WAL_HDRSIZE_def)
  then have "recover_log True w (length (pWalFd w)) = (SQLITE_OK, w', Some ck')"
    using read h size magic run unfolding recover_log_def
    by (simp add: Let_def WAL_HDRSIZE_def SQLITE_MAX_PAGE_SIZE_def head_cksum_def [symmetric] w1_def)
  then show ?thesis using post w(2) by (auto simp: w1_def)
qed

section \<open>Reading the recovered pages\<close>

lemma read_frame:
  assumes n: "page_size n" and sz: "sized n fs" and S: "length S = 8" and w: "faults w = []" "pWalFd w = file_bytes n seq S fs @ tail"
    and code: "szPage16 (hdr w) = size_code n" and found: "wal_find w pgno = (SQLITE_OK, Suc i)" and i: "i < length fs"
  shows "sqlite3WalRead w pgno n = (SQLITE_OK, Some (fst (snd (fs ! i))), w)"
proof -
  define ck where "ck = log_cksum (head_cksum n seq S) (take i fs)"
  define d where "d = fst (snd (fs ! i))"
  define hd' where "hd' = frame_head (fs ! i) @ S @ sqlite3Put4byte (fst (frame_cksum (fs ! i) ck)) @ sqlite3Put4byte (snd (frame_cksum (fs ! i) ck))"
  have fs: "fs = take i fs @ fs ! i # drop (Suc i) fs" using i by (simp add: id_take_nth_drop)
  have d: "length d = n" using sz i by (auto simp: sized_def d_def)
  have "pWalFd w = (file_bytes n seq S (take i fs) @ hd') @ d @ (log_bytes S (frame_cksum (fs ! i) ck) (drop (Suc i) fs) @ tail)"
    by (subst w(2), subst fs) (simp add: file_bytes_append ck_def frame_bytes_def d_def hd'_def)
  moreover have "walFrameOffset (Suc i) n + WAL_FRAME_HDRSIZE = length (file_bytes n seq S (take i fs) @ hd')"
    using length_file_bytes [OF sized_take [OF sz, of i] S, where seq = seq] i S by (simp add: hd'_def WAL_FRAME_HDRSIZE_def)
  ultimately have "sqlite3OsRead w n (walFrameOffset (Suc i) n + WAL_FRAME_HDRSIZE) = (SQLITE_OK, d, w)"
    by (rule OsRead_ok [OF w(1)]) (simp add: d)
  then show ?thesis using found page_size_code [OF n] by (simp add: sqlite3WalRead_def code d_def)
qed

section \<open>Committed transactions\<close>

text \<open>One call of sqlite3WalFrames: its pages, the size of the database after a commit or 0, the
  flags.  What is committed are the pages of all calls up to the last commit.\<close>

type_synonym wal_call = "(u32 \<times> bytes) list \<times> u32 \<times> u32"

fun run_calls :: "bytes \<Rightarrow> nat \<Rightarrow> nat \<Rightarrow> Wal \<Rightarrow> wal_call list \<Rightarrow> nat \<times> Wal" where
  "run_calls S sec n w [] = (0, w)"
| "run_calls S sec n w ((ps, nt, fl) # cs) =
     (case wal_frames S sec w n ps nt (nt \<noteq> 0) fl of (rc, w) \<Rightarrow>
        if rc = SQLITE_OK then (case run_calls S sec n w cs of (m, w) \<Rightarrow> (Suc m, w)) else (0, w))"

definition committed :: "wal_call list \<Rightarrow> wal_call list" where
  "committed cs = rev (dropWhile (\<lambda>c. fst (snd c) = 0) (rev cs))"

definition db_image :: "wal_call list \<Rightarrow> u32 \<Rightarrow> bytes option" where
  "db_image cs = map_of (rev (concat (map fst (committed cs))))"

definition db_size :: "wal_call list \<Rightarrow> u32" where
  "db_size cs = (case rev (committed cs) of [] \<Rightarrow> 0 | c # _ \<Rightarrow> fst (snd c))"

lemma committed_snoc: "committed (cs @ [c]) = (if fst (snd c) = 0 then committed cs else cs @ [c])"
  by (simp add: committed_def)

definition pd :: "frame \<Rightarrow> u32 \<times> bytes" where "pd f = (fst f, fst (snd f))"

lemma last_frame_Suc: "last_frame ps (Suc L) pgno = (if ps ! L = pgno then Suc L else last_frame ps L pgno)"
  by (simp add: last_frame_def)

lemma last_frame_image:
  "L \<le> length fs \<Longrightarrow> last_frame (map fst fs) L pgno \<le> L \<and>
     map_of (rev (map pd (take L fs))) pgno =
       (case last_frame (map fst fs) L pgno of 0 \<Rightarrow> None | Suc i \<Rightarrow> Some (fst (snd (fs ! i))))"
proof (induction L)
  case 0
  then show ?case by (simp add: last_frame_def)
next
  case (Suc L)
  then show ?case by (auto simp: last_frame_Suc take_Suc_conv_app_nth pd_def)
qed

lemma last_commit_append: "last_commit i s (a @ b) = last_commit (i + length a) (last_commit i s a) b"
  by (induction a arbitrary: i s) simp_all

lemma last_commit_zero: "\<forall>f \<in> set fs. snd (snd f) = 0 \<Longrightarrow> last_commit i s fs = s"
  by (induction fs arbitrary: i s) simp_all

lemma last_commit_replicate: "nt \<noteq> 0 \<Longrightarrow> last_commit i s (replicate (Suc m) (p, d, nt)) = (i + Suc m, nt)"
  by (induction m arbitrary: i s) simp_all

lemma mark_snoc: "mark c nt (ps @ [p]) = mark False nt ps @ [(fst p, snd p, if c then nt else 0)]"
  by (induction ps) simp_all

lemma mark_zero: "f \<in> set (mark False nt ps) \<Longrightarrow> snd (snd f) = 0"
  by (induction ps) auto

lemma map_pd_mark [simp]: "map pd (mark c nt ps) = ps"
  by (induction ps) (simp_all add: pd_def)

text \<open>The frames fs show the image of the calls cs, and hold what they have written.\<close>

definition image_ok :: "wal_call list \<Rightarrow> frame list \<Rightarrow> bool" where
  "image_ok cs fs \<longleftrightarrow> (case last_commit 0 (0, 0) fs of (mx, np) \<Rightarrow>
     mx \<le> length fs \<and> map_of (rev (map pd (take mx fs))) = db_image cs \<and> np = db_size cs)"

definition holds :: "wal_call list \<Rightarrow> frame list \<Rightarrow> bool" where
  "holds cs fs \<longleftrightarrow> image_ok cs fs \<and> map_of (rev (map pd fs)) = map_of (rev (concat (map fst cs)))"

lemma holds_Nil: "holds [] []"
  by (simp add: holds_def image_ok_def db_image_def db_size_def committed_def)

text \<open>Frames without a commit change nothing.\<close>

lemma holds_zero:
  assumes "holds cs fs" and "\<forall>f \<in> set gs. snd (snd f) = 0"
  shows "image_ok cs (fs @ gs)"
  using assms(1) unfolding holds_def image_ok_def last_commit_append last_commit_zero [OF assms(2)]
  by (auto split: prod.splits)

lemma holds_call:
  assumes h: "holds cs fs" and ps: "ps \<noteq> []" and m: "nt \<noteq> 0 \<or> m = 0"
  shows "holds (cs @ [(ps, nt, fl)]) (fs @ call_frames ps nt (nt \<noteq> 0) m)"
proof -
  obtain qs q where q: "ps = qs @ [q]" using ps by (cases ps rule: rev_cases) auto
  have all: "map_of (rev (map pd (fs @ call_frames ps nt c m))) = map_of (rev (concat (map fst (cs @ [(ps, nt, fl)]))))" for c
  proof -
    have "map_of (replicate m q) = (if m = 0 then Map.empty else [fst q \<mapsto> snd q])" by (induction m) auto
    then have "F(fst q \<mapsto> snd q) ++ map_of (replicate m q) = F(fst q \<mapsto> snd q)" for F by simp
    then show ?thesis using h by (simp add: holds_def call_frames_def q map_of_append mark_snoc pd_def)
  qed
  show ?thesis
  proof (cases "nt = 0")
    case True
    then have "committed (cs @ [(ps, nt, fl)]) = committed cs" "\<forall>f \<in> set (call_frames ps nt (nt \<noteq> 0) m). snd (snd f) = 0"
      using m mark_zero by (auto simp: committed_snoc call_frames_def)
    then show ?thesis using holds_zero [OF h] all unfolding holds_def image_ok_def db_image_def db_size_def by simp
  next
    case False
    then have com: "committed (cs @ [(ps, nt, fl)]) = cs @ [(ps, nt, fl)]" by (simp add: committed_snoc)
    have cf: "call_frames ps nt True m = mark False nt qs @ replicate (Suc m) (fst q, snd q, nt)"
      by (simp add: call_frames_def q mark_snoc)
    have "last_commit 0 (0, 0) (fs @ call_frames ps nt True m) = (length (fs @ call_frames ps nt True m), nt)"
      unfolding cf append_assoc [symmetric] last_commit_append last_commit_replicate [OF False] by simp
    then show ?thesis using all [of True] False unfolding holds_def image_ok_def db_image_def db_size_def com by simp
  qed
qed

lemma holds_part:
  assumes h: "holds cs fs" and ps: "ps \<noteq> []" and m: "nt \<noteq> 0 \<or> m = 0"
  obtains c where "c \<in> {cs, cs @ [(ps, nt, fl)]}" "image_ok c (fs @ take i (call_frames ps nt (nt \<noteq> 0) m))"
proof (cases "nt = 0 \<or> i < length ps")
  case True
  obtain qs q where q: "ps = qs @ [q]" using ps by (cases ps rule: rev_cases) auto
  have "\<forall>f \<in> set (take i (call_frames ps nt (nt \<noteq> 0) m)). snd (snd f) = 0"
  proof (cases "nt = 0")
    case True
    then show ?thesis using m mark_zero by (auto simp: call_frames_def dest: in_set_takeD)
  next
    case False
    then have "take i (call_frames ps nt (nt \<noteq> 0) m) = take i (mark False nt qs)"
      using True by (simp add: call_frames_def q mark_snoc)
    then show ?thesis using mark_zero by (auto dest: in_set_takeD)
  qed
  then show thesis using that [of cs] holds_zero [OF h] by blast
next
  case False
  then have part: "take i (call_frames ps nt (nt \<noteq> 0) m) = call_frames ps nt (nt \<noteq> 0) (min m (i - length ps))" and nt: "nt \<noteq> 0"
    by (simp_all add: call_frames_def min.commute)
  have "holds (cs @ [(ps, nt, fl)]) (fs @ call_frames ps nt (nt \<noteq> 0) (min m (i - length ps)))"
    by (rule holds_call [OF h ps]) (simp add: nt)
  then have "image_ok (cs @ [(ps, nt, fl)]) (fs @ take i (call_frames ps nt (nt \<noteq> 0) m))"
    unfolding holds_def part [symmetric] by (rule conjunct1)
  then show thesis using that [of "cs @ [(ps, nt, fl)]"] by blast
qed

text \<open>The file that a run leaves: whole frames, perhaps part of one more, perhaps not even a
  whole header.\<close>

definition file_shows :: "nat \<Rightarrow> u32 \<Rightarrow> bytes \<Rightarrow> bytes \<Rightarrow> wal_call list \<Rightarrow> bool" where
  "file_shows n seq S f cs \<longleftrightarrow> (\<exists>gs tail. image_ok cs gs \<and> sized n gs \<and>
     (f = file_bytes n seq S gs @ tail \<and> length tail < n + 24 \<or> length f \<le> 32 \<and> gs = []))"

lemma take_file_bytes:
  assumes k: "length (file_bytes n seq S fs) \<le> k" and sz: "sized n (fs @ new)" and S: "length S = 8"
  obtains i tail where "take k (file_bytes n seq S (fs @ new)) = file_bytes n seq S (fs @ take i new) @ tail" "length tail < n + 24"
proof -
  let ?ck = "log_cksum (head_cksum n seq S) fs"
  have "sized n new" using sz by simp
  then obtain i tail where "take (k - length (file_bytes n seq S fs)) (log_bytes S ?ck new) = log_bytes S ?ck (take i new) @ tail"
      "length tail < n + 24"
    by (rule take_log_bytes [OF _ S])
  then show thesis using that k by (simp add: file_bytes_append)
qed

lemma failed_call_file:
  assumes w: "log_file n seq S w fs" and h: "holds pre fs" and ps: "pages_ok n ps" and m: "nt \<noteq> 0 \<or> m = 0"
    and f: "f = take k (file_bytes n seq S (fs @ call_frames ps nt (nt \<noteq> 0) m))" and k: "length (pWalFd w) \<le> k"
  shows "file_shows n seq S f pre \<or> file_shows n seq S f (pre @ [(ps, nt, fl)])"
proof (cases "length (file_bytes n seq S fs) \<le> k")
  case True
  have S: "length S = 8" and sz: "sized n (fs @ call_frames ps nt (nt \<noteq> 0) m)"
    using w sized_call_frames [OF ps] by (simp_all add: log_file_def)
  obtain i tail where "f = file_bytes n seq S (fs @ take i (call_frames ps nt (nt \<noteq> 0) m)) @ tail" "length tail < n + 24"
    using take_file_bytes [OF True sz S] unfolding f .
  moreover have "sized n (fs @ take i (call_frames ps nt (nt \<noteq> 0) m))" using sz by (simp add: sized_take)
  moreover obtain c where "c \<in> {pre, pre @ [(ps, nt, fl)]}" "image_ok c (fs @ take i (call_frames ps nt (nt \<noteq> 0) m))"
    by (rule holds_part [OF h ps [unfolded pages_ok_def, THEN conjunct1] m, where fl = fl and i = i])
  ultimately show ?thesis unfolding file_shows_def by blast
next
  case False
  then have "fs = []" using w k by (auto simp: log_file_def split: if_splits)
  moreover have "length f \<le> 32"
    using False \<open>fs = []\<close> w unfolding f by (simp add: file_bytes_def length_head_bytes log_file_def)
  ultimately show ?thesis using h unfolding file_shows_def holds_def by (intro disjI1 exI [of _ "[]"]) simp
qed

lemma run_calls_file:
  assumes "run_calls S sec n w cs = (m, w')" and "log_file n seq S w fs" and "holds pre fs" and "\<forall>c \<in> set cs. pages_ok n (fst c)"
  shows "\<exists>j. (j = m \<or> j = Suc m) \<and> j \<le> length cs \<and> file_shows n seq S (pWalFd w') (pre @ take j cs)"
  using assms
proof (induction cs arbitrary: w fs pre m)
  case Nil
  have "file_shows n seq S (pWalFd w) pre"
  proof (cases "fs = []")
    case True
    then show ?thesis using Nil.prems(2,3) unfolding file_shows_def holds_def log_file_def by (intro exI [of _ "[]"]) simp
  next
    case False
    then show ?thesis using Nil.prems(2,3) unfolding file_shows_def holds_def log_file_def
      by (intro exI [of _ fs] exI [of _ "[]"]) simp
  qed
  then show ?case using Nil.prems(1) by simp
next
  case (Cons c cs)
  obtain ps nt fl where c: "c = (ps, nt, fl)" by (metis prod_cases3)
  have ps: "pages_ok n ps" using Cons.prems(4) by (simp add: c)
  obtain rc w1 where w1: "wal_frames S sec w n ps nt (nt \<noteq> 0) fl = (rc, w1)" by fastforce
  have "\<exists>p. (\<exists>k. pWalFd w1 = take k (file_bytes n seq S (fs @ call_frames ps nt (nt \<noteq> 0) p)) \<and> length (pWalFd w) \<le> k) \<and>
      (rc = SQLITE_OK \<longrightarrow> log_file n seq S w1 (fs @ call_frames ps nt (nt \<noteq> 0) p)) \<and> (nt \<noteq> 0 \<or> p = 0)"
    by (rule wal_frames_log [OF w1 Cons.prems(2) ps]) blast
  then obtain p where p: "\<exists>k. pWalFd w1 = take k (file_bytes n seq S (fs @ call_frames ps nt (nt \<noteq> 0) p)) \<and> length (pWalFd w) \<le> k"
      "rc = SQLITE_OK \<longrightarrow> log_file n seq S w1 (fs @ call_frames ps nt (nt \<noteq> 0) p)" "nt \<noteq> 0 \<or> p = 0"
    by blast
  show ?case
  proof (cases "rc = SQLITE_OK")
    case False
    then have "m = 0" "w' = w1" using Cons.prems(1) w1 by (auto simp: c)
    moreover have "file_shows n seq S (pWalFd w1) pre \<or> file_shows n seq S (pWalFd w1) (pre @ [c])"
      using failed_call_file [OF Cons.prems(2,3) ps p(3)] p(1) unfolding c by blast
    ultimately show ?thesis by (auto intro: exI [of _ 0] exI [of _ "Suc 0"])
  next
    case True
    obtain m1 where m1: "run_calls S sec n w1 cs = (m1, w')" "m = Suc m1"
      using Cons.prems(1) w1 True by (auto simp: c split: prod.splits)
    have h: "holds (pre @ [c]) (fs @ call_frames ps nt (nt \<noteq> 0) p)"
      unfolding c using holds_call [OF Cons.prems(3) _ p(3)] ps by (simp add: pages_ok_def)
    have ok: "\<forall>c \<in> set cs. pages_ok n (fst c)" using Cons.prems(4) by simp
    obtain j where "(j = m1 \<or> j = Suc m1) \<and> j \<le> length cs \<and> file_shows n seq S (pWalFd w') ((pre @ [c]) @ take j cs)"
      using Cons.IH [OF m1(1) p(2) [rule_format, OF True] h ok] by blast
    then show ?thesis using m1(2) by (intro exI [of _ "Suc j"]) auto
  qed
qed

lemma recover_shows:
  assumes n: "page_size n" and S: "length S = 8" and f: "file_shows n seq S (pWalFd r) cs"
    and r: "faults r = []" "\<forall>t. mapped r t" and k: "k \<noteq> 0"
  shows "\<exists>r'. walIndexRecover SQLITE_OK True r = (SQLITE_OK, r') \<and> nPage (hdr r') = db_size cs \<and>
     (\<forall>pgno. sqlite3WalRead (r'\<lparr>readLock := k\<rparr>) pgno n = (SQLITE_OK, db_image cs pgno, r'\<lparr>readLock := k\<rparr>))"
proof -
  obtain gs tail where gs: "image_ok cs gs" "sized n gs"
    and content: "pWalFd r = file_bytes n seq S gs @ tail \<and> length tail < n + 24 \<or> length (pWalFd r) \<le> 32 \<and> gs = []"
    using f unfolding file_shows_def by blast
  define r0 where "r0 = r\<lparr>hdr := zero_hdr\<rparr>"
  have r0: "faults r0 = []" "mxFrame (hdr r0) = 0" "nPage (hdr r0) = 0" "\<forall>t. mapped r0 t" "pWalFd r0 = pWalFd r"
    using r by (simp_all add: r0_def zero_hdr_def)
  define stage where "stage = (if WAL_HDRSIZE < length (pWalFd r) then recover_log True r0 (length (pWalFd r)) else (SQLITE_OK, r0, Some (0, 0)))"
  obtain r1 ck where r1: "stage = (SQLITE_OK, r1, Some ck)" "faults r1 = []" "pWalFd r1 = pWalFd r" "index_ok r1 (map fst gs)"
      "mxFrame (hdr r1) \<le> length gs" "mxFrame (hdr r1) \<noteq> 0 \<longrightarrow> szPage16 (hdr r1) = size_code n"
      "(mxFrame (hdr r1), nPage (hdr r1)) = last_commit 0 (0, 0) gs"
  proof (cases "WAL_HDRSIZE < length (pWalFd r)")
    case True
    then have "pWalFd r0 = file_bytes n seq S gs @ tail" "length tail < n + 24" using content r0(5) by (simp_all add: WAL_HDRSIZE_def)
    then show thesis
      using recover_log_ok [OF n S r0(1,2,4) gs(2)] True r0 that unfolding stage_def recovering_def by force
  next
    case False
    then have "gs = []"
      using content length_file_bytes [OF gs(2) S, of seq]
      by (cases gs) (auto simp: WAL_HDRSIZE_def walFrameOffset_def WAL_FRAME_HDRSIZE_def)
    moreover have "stage = (SQLITE_OK, r0, Some (0, 0))" using False by (simp add: stage_def)
    ultimately show thesis using that [of r0 "(0, 0)"] r0 by (simp add: index_ok_def seg_def)
  qed
  define r2 where "r2 = walIndexWriteHdr (r1\<lparr>hdr := (hdr r1)\<lparr>aFrameCksum := ck\<rparr>\<rparr>)"
  define r' where "r' = r2\<lparr>nBackfill := 0, aReadMark := 0 # (if mxFrame (hdr r2) \<noteq> 0 then mxFrame (hdr r2) else READMARK_NOT_USED)
                                            # replicate (WAL_NREADER - 2) READMARK_NOT_USED\<rparr>"
  have "walIndexRecover SQLITE_OK True r = (SQLITE_OK, r')"
    using r1(1) r0(1,5) unfolding walIndexRecover_def stage_def r0_def
    by (simp add: sqlite3OsFileSize_def os_next_def Let_def r'_def r2_def)
  moreover have fields: "apWiData r' = apWiData r1" "mapped r' = mapped r1" "mxFrame (hdr r') = mxFrame (hdr r1)" "nPage (hdr r') = nPage (hdr r1)"
      "szPage16 (hdr r') = szPage16 (hdr r1)" "faults r' = []" "pWalFd r' = pWalFd r"
    using r1(2,3) by (simp_all add: r'_def r2_def walIndexWriteHdr_def Let_def)
  moreover have img: "map_of (rev (map pd (take (mxFrame (hdr r1)) gs))) = db_image cs" "nPage (hdr r1) = db_size cs"
    using gs(1) r1(7) [symmetric] by (simp_all add: image_ok_def)
  moreover have "sqlite3WalRead (r'\<lparr>readLock := k\<rparr>) pgno n = (SQLITE_OK, db_image cs pgno, r'\<lparr>readLock := k\<rparr>)" for pgno
  proof -
    let ?r = "r'\<lparr>readLock := k\<rparr>"
    let ?L = "last_frame (map fst gs) (mxFrame (hdr r1)) pgno"
    have "index_ok ?r (map fst gs)" using r1(4) fields index_ok_cong [of ?r r1 "map fst gs"] by simp
    then have find: "wal_find ?r pgno = (SQLITE_OK, ?L)"
      using wal_find_ok [of ?r "map fst gs" pgno] r1(5) fields(3) k by simp
    have L: "?L \<le> mxFrame (hdr r1)" "db_image cs pgno = (case ?L of 0 \<Rightarrow> None | Suc i \<Rightarrow> Some (fst (snd (gs ! i))))"
      using last_frame_image [OF r1(5), of pgno] img(1) by simp_all
    show ?thesis
    proof (cases ?L)
      case 0
      then show ?thesis using find L(2) by (simp add: sqlite3WalRead_def)
    next
      case (Suc i)
      then have i: "i < length gs" and "gs \<noteq> []" using L(1) r1(5) by auto
      then have "pWalFd ?r = file_bytes n seq S gs @ tail" using content fields(7) by auto
      moreover have "szPage16 (hdr ?r) = size_code n" using r1(6) L(1) Suc fields(5) by simp
      ultimately show ?thesis
        using read_frame [OF n gs(2) S, of ?r seq tail pgno i] fields(6) find Suc i L(2) by simp
    qed
  qed
  ultimately show ?thesis by auto
qed

section \<open>Properties\<close>

text \<open>
  C1: Atomicity and durability of the log: a connection writes any sequence of frame sets to
  an empty log, with any file operation failing and any write cut short; when another
  connection then recovers the wal-index from the file, its reads and the database size are
  exactly those of the calls that reported success up to their last commit, or of these and
  the interrupted call as a whole.
\<close>

theorem crash_recovery:
  assumes "page_size n" and "length S = 8"
    and "pWalFd w = []" and "mxFrame (hdr w) = 0" and "nCkpt w = 0"
    and "\<forall>c \<in> set cs. pages_ok n (fst c)" and "run_calls S sec n w cs = (m, w')"
    and "pWalFd r = pWalFd w'" and "faults r = []" and "\<forall>t. mapped r t" and "k \<noteq> 0"
  shows "\<exists>r' j. walIndexRecover SQLITE_OK True r = (SQLITE_OK, r') \<and> (j = m \<or> j = Suc m) \<and> j \<le> length cs \<and>
     nPage (hdr r') = db_size (take j cs) \<and>
     (\<forall>pgno. sqlite3WalRead (r'\<lparr>readLock := k\<rparr>) pgno n = (SQLITE_OK, db_image (take j cs) pgno, r'\<lparr>readLock := k\<rparr>))"
proof -
  have "log_file n 0 S w []" using assms(2-5) by (simp add: log_file_def)
  then obtain j where j: "j = m \<or> j = Suc m" "j \<le> length cs" "file_shows n 0 S (pWalFd r) (take j cs)"
    using run_calls_file [OF assms(7) _ holds_Nil assms(6)] assms(8) by auto
  then show ?thesis using recover_shows [OF assms(1,2) j(3) assms(9,10,11)] by blast
qed

text \<open>A second connection; the first one commits a page and fails while it writes another.\<close>

definition two_commits :: "wal_call list" where
  "two_commits = [([(1, replicate 512 7)], 1, 0), ([(2, replicate 512 9), (1, replicate 512 8)], 2, 0x20)]"

definition failing_wal :: Wal where
  "failing_wal = example_wal\<lparr>faults := [(SQLITE_OK, 0), (SQLITE_OK, 0), (SQLITE_OK, 0), (SQLITE_OK, 0), (SQLITE_FULL, 10)]\<rparr>"

theorem crash_recovery_witness:
  "let (m, w') = run_calls [1, 2, 3, 4, 5, 6, 7, 8] 4096 512 failing_wal two_commits; r = example_wal\<lparr>pWalFd := pWalFd w'\<rparr> in
   \<exists>r' j. walIndexRecover SQLITE_OK True r = (SQLITE_OK, r') \<and> (j = m \<or> j = Suc m) \<and> j \<le> length two_commits \<and>
     nPage (hdr r') = db_size (take j two_commits) \<and>
     (\<forall>pgno. sqlite3WalRead (r'\<lparr>readLock := 1\<rparr>) pgno 512 = (SQLITE_OK, db_image (take j two_commits) pgno, r'\<lparr>readLock := 1\<rparr>))"
proof -
  obtain m w' where run: "run_calls [1, 2, 3, 4, 5, 6, 7, 8] 4096 512 failing_wal two_commits = (m, w')" by fastforce
  have "\<forall>c \<in> set two_commits. pages_ok 512 (fst c)" by (simp add: two_commits_def pages_ok_def)
  then show ?thesis unfolding run Let_def prod.case
    by (intro crash_recovery [where w = failing_wal and w' = w' and sec = 4096 and S = "[1, 2, 3, 4, 5, 6, 7, 8]"] run)
      (simp_all add: page_size_def failing_wal_def example_wal_def)
qed

text \<open>
  C22: A frame that walEncodeFrame has made is decoded by walDecodeFrame to its page number
  and commit size and leaves the same running checksum; a connection whose log has another
  salt rejects it.
\<close>

theorem frame_roundtrip:
  assumes "walEncodeFrame w p nt d = (fr, w1)" and "length (aSalt (hdr w)) = 8" and "szPage w \<le> length d" and "p \<noteq> 0"
    and "length (aSalt (hdr v)) = 8" and "aSalt (hdr v) \<noteq> aSalt (hdr w)"
  shows "walDecodeFrame w d fr = (Some (p, nt), w1) \<and> walDecodeFrame v d fr = (None, v)"
proof -
  define ck where "ck = walChecksumBytes (bigEndCksum (hdr w) = 0) (take (szPage w) d)
    (walChecksumBytes (bigEndCksum (hdr w) = 0) (sqlite3Put4byte p @ sqlite3Put4byte nt) (aFrameCksum (hdr w)))"
  have fr: "fr = sqlite3Put4byte p @ sqlite3Put4byte nt @ aSalt (hdr w) @ sqlite3Put4byte (fst ck) @ sqlite3Put4byte (snd ck)"
    and w1: "w1 = w\<lparr>hdr := (hdr w)\<lparr>aFrameCksum := ck\<rparr>\<rparr>"
    using assms(1) by (simp_all add: walEncodeFrame_def Let_def ck_def)
  have parts: "take 8 (drop 8 fr) = aSalt (hdr w)" "get4 fr 0 = p" "take 8 fr = sqlite3Put4byte p @ sqlite3Put4byte nt"
    "get4 fr 4 = nt" "get4 fr 16 = fst ck" "get4 fr 20 = snd ck"
    using assms(2) get4_Put4 [of "snd ck" "[]"] by (simp_all add: fr get4_append)
  have "walDecodeFrame w d fr = (Some (p, nt), w1)" using parts assms(4) w1 by (simp add: walDecodeFrame_def Let_def ck_def)
  moreover have "walDecodeFrame v d fr = (None, v)" using parts(1) assms(6) by (auto simp: walDecodeFrame_def)
  ultimately show ?thesis by blast
qed

theorem frame_roundtrip_witness:
  "let d = replicate 512 7; fr = fst (walEncodeFrame example_wal 3 5 d); v = example_wal\<lparr>hdr := zero_hdr\<rparr> in
   walDecodeFrame example_wal d fr = (Some (3, 5), snd (walEncodeFrame example_wal 3 5 d)) \<and> walDecodeFrame v d fr = (None, v)"
proof -
  have "aSalt (hdr example_wal) = [1, 2, 3, 4, 5, 6, 7, 8]" "szPage example_wal = 512" "aSalt zero_hdr = replicate 8 0"
    by (simp_all add: example_wal_def zero_hdr_def)
  moreover have "[1, 2, 3, 4, 5, 6, 7, 8] \<noteq> replicate 8 (0 :: u8)" by (simp add: numeral_eq_Suc)
  ultimately show ?thesis unfolding Let_def by (intro frame_roundtrip [OF surjective_pairing]) auto
qed

end
