(* ===== verification/Wal_Sort.thy ===== *)
theory Wal_Sort
  imports Wal_History
begin

text \<open>
  The iterator of a checkpoint: every hash table of the wal-index is sorted by page number, of
  equal pages the latest frame is kept, and the tables are merged as they are read.  The sub-lists
  that walMergesort keeps in one array are lists here.
\<close>

section \<open>Sorting one table\<close>

function walMerge :: "(nat \<Rightarrow> u32) \<Rightarrow> nat list \<Rightarrow> nat list \<Rightarrow> nat list" where
  "walMerge aContent aLeft aRight =
     (if aLeft = [] \<and> aRight = [] then []
      else
        (let (logpage, aLeft, aRight) =
               (if aLeft \<noteq> [] \<and> (aRight = [] \<or> aContent (hd aLeft) < aContent (hd aRight))
                then (hd aLeft, tl aLeft, aRight) else (hd aRight, aLeft, tl aRight));
             dbpage = aContent logpage;
             aLeft = (if aLeft \<noteq> [] \<and> aContent (hd aLeft) = dbpage then tl aLeft else aLeft)
         in logpage # walMerge aContent aLeft aRight))"
  by pat_completeness auto
termination
proof (relation "measure (\<lambda>(_, l, r). length l + length r)", goal_cases)
  case (2 aContent l r x logpage b l1 r1 dbpage l2)
  then show ?case by (cases l; cases r) (auto split: if_splits)
qed simp

declare walMerge.simps [simp del]

text \<open>The inner loop: list number iList is merged with the full sub-lists below the first free one.\<close>

function merge_carry :: "(nat \<Rightarrow> u32) \<Rightarrow> nat list list \<Rightarrow> nat \<Rightarrow> nat \<Rightarrow> nat list \<Rightarrow> nat \<times> nat list" where
  "merge_carry aContent aSub iList iSub aMerge =
     (if iSub < length aSub \<and> bit iList iSub
      then merge_carry aContent aSub iList (iSub + 1) (walMerge aContent (aSub ! iSub) aMerge)
      else (iSub, aMerge))"
  by pat_completeness auto
termination by (relation "measure (\<lambda>(_, aSub, _, iSub, _). length aSub - iSub)") auto

declare merge_carry.simps [simp del]

fun merge_items :: "(nat \<Rightarrow> u32) \<Rightarrow> nat list list \<Rightarrow> nat \<Rightarrow> nat \<Rightarrow> nat list \<Rightarrow> nat list \<Rightarrow> nat list list \<times> nat \<times> nat list" where
  "merge_items aContent aSub iList iSub aMerge [] = (aSub, iSub, aMerge)"
| "merge_items aContent aSub iList iSub aMerge (x # xs) =
     (case merge_carry aContent aSub iList 0 [x] of
        (iSub, aMerge) \<Rightarrow> merge_items aContent (aSub[iSub := aMerge]) (iList + 1) iSub aMerge xs)"

definition walMergesort :: "(nat \<Rightarrow> u32) \<Rightarrow> nat list \<Rightarrow> nat list" where
  "walMergesort aContent aList =
     (case merge_items aContent (replicate 13 []) 0 0 [] aList of
        (aSub, iSub, aMerge) \<Rightarrow>
          fold (\<lambda>k aMerge. if bit (length aList) k then walMerge aContent (aSub ! k) aMerge else aMerge)
            [iSub + 1..<13] aMerge)"

section \<open>The iterator\<close>

record WalSegment =
  iNext :: nat
  aIndex :: "nat list"
  segPgno :: "nat \<Rightarrow> u32"      \<comment> \<open>aPgno, from index 0\<close>
  iZero :: nat

record WalIterator =
  iPrior :: u32
  aSegment :: "WalSegment list"

text \<open>The while loop over the entries of a segment.\<close>

function skip_entries :: "u32 \<Rightarrow> WalSegment \<Rightarrow> WalSegment" where
  "skip_entries iMin s =
     (if iNext s < length (aIndex s) \<and> \<not> iMin < segPgno s (aIndex s ! iNext s)
      then skip_entries iMin (s\<lparr>iNext := iNext s + 1\<rparr>) else s)"
  by pat_completeness auto
termination by (relation "measure (\<lambda>(_, s). length (aIndex s) - iNext s)") auto

declare skip_entries.simps [simp del]

text \<open>The segments are visited from the last to the first.\<close>

fun next_min :: "u32 \<Rightarrow> u32 \<times> nat \<Rightarrow> WalSegment list \<Rightarrow> (u32 \<times> nat) \<times> WalSegment list" where
  "next_min iMin best [] = (best, [])"
| "next_min iMin best (s # ss) =
     (let s = skip_entries iMin s;
          best = (if iNext s < length (aIndex s) \<and> segPgno s (aIndex s ! iNext s) < fst best
                  then (segPgno s (aIndex s ! iNext s), iZero s + aIndex s ! iNext s) else best);
          (best, ss) = next_min iMin best ss
      in (best, s # ss))"

text \<open>None when the iterator is at its end.\<close>

definition walIteratorNext :: "WalIterator \<Rightarrow> (u32 \<times> nat) option \<times> WalIterator" where
  "walIteratorNext p =
     (case next_min (iPrior p) (0xFFFFFFFF, 0) (rev (aSegment p)) of
        (best, ss) \<Rightarrow>
          (if fst best = 0xFFFFFFFF then None else Some best, p\<lparr>iPrior := fst best, aSegment := rev ss\<rparr>))"

fun init_segments :: "Wal \<Rightarrow> nat \<Rightarrow> nat \<Rightarrow> nat \<Rightarrow> nat \<Rightarrow> result_code \<times> WalSegment list" where
  "init_segments pWal iLast nSegment i 0 = (SQLITE_OK, [])"
| "init_segments pWal iLast nSegment i (Suc k) =
     (case walHashGet pWal i of
        None \<Rightarrow> (SQLITE_IOERR, [])
      | Some (tb, z) \<Rightarrow>
          (let nEntry = (if i + 1 = nSegment then iLast - z else if i = 0 then HASHTABLE_NPAGE_ONE else HASHTABLE_NPAGE);
               content = (\<lambda>j. aPgno tb (j + 1));
               seg = \<lparr>iNext = 0, aIndex = walMergesort content [0..<nEntry], segPgno = content, iZero = z + 1\<rparr>
           in case init_segments pWal iLast nSegment (i + 1) k of
                (rc, segs) \<Rightarrow> (rc, seg # segs)))"

text \<open>Two allocations, the second for the temporary space.\<close>

definition walIteratorInit :: "bool \<Rightarrow> bool \<Rightarrow> Wal \<Rightarrow> result_code \<times> WalIterator option" where
  "walIteratorInit ok1 ok2 pWal =
     (let iLast = mxFrame (hdr pWal); nSegment = walFramePage iLast + 1 in
      if \<not> ok1 \<or> \<not> ok2 then (SQLITE_NOMEM, None)
      else
        (case init_segments pWal iLast nSegment 0 nSegment of
           (rc, segs) \<Rightarrow> (rc, if rc = SQLITE_OK then Some \<lparr>iPrior = 0, aSegment = segs\<rparr> else None)))"

section \<open>Merging is correct\<close>

text \<open>The indices r are those of xs that are the last of their page, in the order of the pages.\<close>

definition latest :: "(nat \<Rightarrow> u32) \<Rightarrow> nat set \<Rightarrow> nat set" where
  "latest c X = {x \<in> X. \<forall>y \<in> X. c y = c x \<longrightarrow> y \<le> x}"

definition merged :: "(nat \<Rightarrow> u32) \<Rightarrow> nat set \<Rightarrow> nat list \<Rightarrow> bool" where
  "merged c X r \<longleftrightarrow> sorted_wrt (\<lambda>a b. c a < c b) r \<and> set r = latest c X"

fun merge_ref :: "(nat \<Rightarrow> u32) \<Rightarrow> nat list \<Rightarrow> nat list \<Rightarrow> nat list" where
  "merge_ref c [] r = r"
| "merge_ref c l [] = l"
| "merge_ref c (x # l) (y # r) =
     (if c x < c y then x # merge_ref c l (y # r)
      else if c x = c y then y # merge_ref c l r else y # merge_ref c (x # l) r)"

abbreviation by_page :: "(nat \<Rightarrow> u32) \<Rightarrow> nat list \<Rightarrow> bool" where
  "by_page c \<equiv> sorted_wrt (\<lambda>a b. c a < c b)"

lemma walMerge_Nil_left: "walMerge c [] r = r"
  by (induction r) (simp_all add: walMerge.simps)

lemma walMerge_Nil_right: "by_page c l \<Longrightarrow> walMerge c l [] = l"
proof (induction l)
  case (Cons x l)
  have "l \<noteq> [] \<Longrightarrow> c (hd l) \<noteq> c x" using Cons.prems by (cases l) auto
  then show ?case using Cons by (subst walMerge.simps) auto
qed (simp add: walMerge.simps)

lemma walMerge_ref: "by_page c l \<Longrightarrow> by_page c r \<Longrightarrow> walMerge c l r = merge_ref c l r"
proof (induction c l r rule: merge_ref.induct)
  case (1 c r)
  then show ?case by (simp add: walMerge_Nil_left)
next
  case (2 c x l)
  then show ?case by (simp add: walMerge_Nil_right)
next
  case (3 c x l y r)
  have "l \<noteq> [] \<Longrightarrow> c (hd l) \<noteq> c x" using "3.prems" by (cases l) auto
  then show ?case using 3 by (subst walMerge.simps) (auto simp: Let_def)
qed

lemma merge_ref_spec:
  "by_page c l \<Longrightarrow> by_page c r \<Longrightarrow> set (merge_ref c l r) = {x \<in> set l. c x \<notin> c ` set r} \<union> set r \<and> by_page c (merge_ref c l r)"
proof (induction c l r rule: merge_ref.induct)
  case (3 c x l y r)
  consider "c x < c y" | "c x = c y" | "c y < c x" by (rule linorder_cases)
  then show ?case
  proof cases
    case 1
    then have "c x \<notin> c ` set (y # r)" using "3.prems" by (auto dest: less_trans)
    then show ?thesis using 3 1 by (auto dest: less_trans)
  next
    case 2
    have l: "c z \<noteq> c y" if "z \<in> set l" for z using "3.prems" that 2 by auto
    have "set (merge_ref c (x # l) (y # r)) = {z \<in> set (x # l). c z \<notin> c ` set (y # r)} \<union> set (y # r)"
      using 3 2 l by auto
    moreover have "by_page c (merge_ref c (x # l) (y # r))" using 3 2 by auto
    ultimately show ?thesis by blast
  next
    case 3
    note c = 3
    have "c z \<noteq> c y" if "z \<in> set (x # l)" for z using "3.prems" that c by auto
    then show ?thesis using "3.IH"(3) "3.prems" c by (auto dest: less_trans)
  qed
qed auto

lemma latest_keys:
assumes fin: "finite Y"
shows "c ` latest c Y = c ` Y"
proof
  show "c ` Y \<subseteq> c ` latest c Y"
  proof
    fix p assume "p \<in> c ` Y"
    then have ne: "{y \<in> Y. c y = p} \<noteq> {}" by auto
    let ?m = "Max {y \<in> Y. c y = p}"
    have "?m \<in> {y \<in> Y. c y = p}" using fin ne by (intro Max_in) auto
    then have "?m \<in> latest c Y" using fin by (auto simp: latest_def intro: Max_ge)
    then show "p \<in> c ` latest c Y" using \<open>?m \<in> {y \<in> Y. c y = p}\<close> by (auto intro!: image_eqI [of p c ?m])
  qed
qed (auto simp: latest_def)

lemma merged_Merge:
  assumes l: "merged c X l" and r: "merged c Y r" and XY: "\<And>x y. x \<in> X \<Longrightarrow> y \<in> Y \<Longrightarrow> x < y" and fin: "finite Y"
  shows "merged c (X \<union> Y) (walMerge c l r)"
proof -
  note keys = latest_keys [OF fin, of c]
  have "latest c (X \<union> Y) = {x \<in> latest c X. c x \<notin> c ` Y} \<union> latest c Y"
  proof (intro set_eqI iffI)
    fix z assume z: "z \<in> latest c (X \<union> Y)"
    show "z \<in> {x \<in> latest c X. c x \<notin> c ` Y} \<union> latest c Y"
    proof (cases "z \<in> Y")
      case True
      then show ?thesis using z by (auto simp: latest_def)
    next
      case False
      then have "z \<in> X" using z by (simp add: latest_def)
      moreover have "c z \<notin> c ` Y" using z XY [OF \<open>z \<in> X\<close>] by (fastforce simp: latest_def)
      ultimately show ?thesis using z by (auto simp: latest_def)
    qed
  next
    fix z assume "z \<in> {x \<in> latest c X. c x \<notin> c ` Y} \<union> latest c Y"
    then consider "z \<in> latest c X" "c z \<notin> c ` Y" | "z \<in> latest c Y" by blast
    then show "z \<in> latest c (X \<union> Y)"
    proof cases
      case 1
      then show ?thesis by (auto simp: latest_def intro: rev_image_eqI)
    next
      case 2
      then have "z \<in> Y" by (simp add: latest_def)
      then have "x \<le> z" if "x \<in> X" for x using XY [OF that] by (simp add: less_imp_le)
      then show ?thesis using 2 by (auto simp: latest_def)
    qed
  qed
  then show ?thesis
    using l r merge_ref_spec [of c l r] walMerge_ref [of c l r] keys unfolding merged_def by simp
qed

lemma merged_single: "merged c {x} [x]"
  by (auto simp: merged_def latest_def)

section \<open>The merge sort is correct\<close>

lemma div_Suc: "(n::nat) div 2 ^ Suc k = n div 2 ^ k div 2"
  by (simp only: power_Suc2 div_mult2_eq)

lemma div_double: "(n::nat) div 2 ^ k = 2 * (n div 2 ^ Suc k) + (if bit n k then 1 else 0)"
  unfolding div_Suc bit_nat_def by (simp add: odd_two_times_div_two_succ)

definition seg_start :: "nat \<Rightarrow> nat \<Rightarrow> nat" where "seg_start n k = n div 2 ^ Suc k * 2 ^ Suc k"

lemma seg_start: "n div 2 ^ k * 2 ^ k = seg_start n k + (if bit n k then 2 ^ k else 0)"
  using div_double [of n k] by (simp add: seg_start_def algebra_simps)

lemma low_ones: "\<forall>i<k. bit n i \<Longrightarrow> n mod 2 ^ k = 2 ^ k - (1::nat)"
  using take_bit_eq_mod [of k n] mask_eq_exp_minus_1 [of k]
  by (metis bit_eq_iff bit_mask_iff bit_take_bit_iff possible_bit_def)

lemma low_ones_start: "\<forall>i<k. bit n i \<Longrightarrow> n + 1 - 2 ^ k = n div 2 ^ k * 2 ^ k \<and> 2 ^ k \<le> n + (1::nat)"
proof -
  assume "\<forall>i<k. bit n i"
  then have "n mod 2 ^ k = 2 ^ k - 1" by (rule low_ones)
  moreover have "n = n div 2 ^ k * 2 ^ k + n mod 2 ^ k" by (rule div_mult_mod_eq [symmetric])
  moreover have "(1::nat) \<le> 2 ^ k" by simp
  ultimately show ?thesis by linarith
qed

definition subs_ok :: "(nat \<Rightarrow> u32) \<Rightarrow> nat \<Rightarrow> nat list list \<Rightarrow> bool" where
  "subs_ok c n aSub \<longleftrightarrow> length aSub = 13 \<and> (\<forall>k<13. bit n k \<longrightarrow> merged c {seg_start n k..<seg_start n k + 2 ^ k} (aSub ! k))"

lemma merged_adjacent:
  assumes "merged c {i..<j} l" and "merged c {j..<k} r" and "i \<le> j" and "j \<le> k"
  shows "merged c {i..<k} (walMerge c l r)"
proof -
  have "{i..<k} = {i..<j} \<union> {j..<k}" using assms(3,4) by auto
  then show ?thesis using merged_Merge [OF assms(1,2)] by simp
qed

lemma merge_carry_ok:
  assumes "subs_ok c n aSub" and "n < 4096" and "k \<le> 12" and "\<forall>i<k. bit n i" and "merged c {n + 1 - 2 ^ k..<n + 1} m"
  shows "\<exists>j m'. merge_carry c aSub n k m = (j, m') \<and> j \<le> 12 \<and> \<not> bit n j \<and> (\<forall>i<j. bit n i) \<and> merged c {n + 1 - 2 ^ j..<n + 1} m'"
  using assms(3-5)
proof (induction "12 - k" arbitrary: k m rule: less_induct)
  case less
  show ?case
  proof (cases "bit n k")
    case False
    then show ?thesis using less.prems by (intro exI [of _ k] exI [of _ m]) (simp add: merge_carry.simps)
  next
    case True
    have "\<not> bit n 12" using assms(2) by (simp add: bit_nat_def)
    then have k: "k < 12" using True less.prems(1) by (cases "k = 12") auto
    have sub: "merged c {seg_start n k..<seg_start n k + 2 ^ k} (aSub ! k)" using assms(1) True k by (simp add: subs_ok_def)
    have start: "n + 1 - 2 ^ k = seg_start n k + 2 ^ k" using low_ones_start [OF less.prems(2)] seg_start [of n k] True by simp
    have "\<forall>i<Suc k. bit n i" using less.prems(2) True by (auto simp: less_Suc_eq)
    moreover have "n + 1 - 2 ^ Suc k = seg_start n k" using low_ones_start [OF calculation] by (simp add: seg_start_def)
    moreover have "merged c {seg_start n k..<n + 1} (walMerge c (aSub ! k) m)"
      by (rule merged_adjacent [OF sub less.prems(3) [unfolded start]]) (use start in linarith)+
    moreover have "merge_carry c aSub n k m = merge_carry c aSub n (Suc k) (walMerge c (aSub ! k) m)"
      using True k assms(1) by (subst merge_carry.simps) (simp add: subs_ok_def)
    ultimately show ?thesis using less.hyps [of "Suc k" "walMerge c (aSub ! k) m"] k by simp
  qed
qed

lemma div_after_carry:
  assumes "\<not> bit n j" and "\<forall>i<j. bit (n::nat) i"
  shows "j < k \<Longrightarrow> (n + 1) div 2 ^ k = n div 2 ^ k" and "bit (n + 1) j" and "i < j \<Longrightarrow> \<not> bit (n + 1) i"
proof -
  have low: "n mod 2 ^ j = 2 ^ j - 1" by (rule low_ones [OF assms(2)])
  define q where "q = n div 2 ^ Suc j"
  have "n div 2 ^ j = 2 * q" using div_double [of n j] assms(1) by (simp add: q_def)
  then have n: "n = 2 * q * 2 ^ j + (2 ^ j - 1)" using low div_mult_mod_eq [of n "2 ^ j"] by simp
  then have n1: "n + 1 = (2 * q + 1) * 2 ^ j" by (simp add: algebra_simps)
  show "bit (n + 1) j" unfolding n1 by (simp add: bit_nat_def)
  show "\<not> bit (n + 1) i" if "i < j"
  proof -
    have "(2::nat) ^ j = 2 ^ (j - i) * 2 ^ i" using that by (simp flip: power_add)
    then have "(n + 1) div 2 ^ i = (2 * q + 1) * 2 ^ (j - i)" unfolding n1 by simp
    then show ?thesis using that by (simp add: bit_nat_def)
  qed
  show "(n + 1) div 2 ^ k = n div 2 ^ k" if "j < k"
  proof -
    have "(n + 1) div 2 ^ Suc j = q" unfolding n1 div_Suc by simp
    then have "(n + 1) div 2 ^ Suc j = n div 2 ^ Suc j" by (simp add: q_def)
    moreover have "(2::nat) ^ k = 2 ^ Suc j * 2 ^ (k - Suc j)"
      using that by (simp only: power_add [symmetric] le_add_diff_inverse Suc_leI)
    ultimately show ?thesis by (simp only: div_mult2_eq)
  qed
qed

lemma merge_items_ok:
  assumes "subs_ok c n aSub" and "n + k \<le> 4096" and "0 < n \<longrightarrow> j \<le> 12 \<and> bit n j \<and> (\<forall>i<j. \<not> bit n i) \<and> merged c {n - 2 ^ j..<n} m"
  shows "case merge_items c aSub n j m [n..<n + k] of (aSub', j', m') \<Rightarrow>
     subs_ok c (n + k) aSub' \<and> (0 < n + k \<longrightarrow> j' \<le> 12 \<and> bit (n + k) j' \<and> (\<forall>i<j'. \<not> bit (n + k) i) \<and> merged c {n + k - 2 ^ j'..<n + k} m')"
  using assms
proof (induction k arbitrary: n aSub j m)
  case 0
  then show ?case by simp
next
  case (Suc k)
  obtain j1 m1 where c: "merge_carry c aSub n 0 [n] = (j1, m1)" "j1 \<le> 12" "\<not> bit n j1" "\<forall>i<j1. bit n i" "merged c {n + 1 - 2 ^ j1..<n + 1} m1"
    using merge_carry_ok [OF Suc.prems(1), of 0 "[n]"] Suc.prems(2) merged_single [of c n] by (auto simp: atLeastLessThanSuc)
  note d = div_after_carry [OF c(3,4)]
  have start1: "seg_start (n + 1) j1 = n + 1 - 2 ^ j1"
    using low_ones_start [OF c(4)] seg_start [of n j1] d(1) [of "Suc j1"] c(3) by (simp add: seg_start_def)
  have "merged c {seg_start (n + 1) k..<seg_start (n + 1) k + 2 ^ k} (aSub[j1 := m1] ! k)" if k: "k < 13" "bit (n + 1) k" for k
  proof -
    consider "k < j1" | "k = j1" | "j1 < k" by linarith
    then show ?thesis
    proof cases
      case 1
      then show ?thesis using d(3) k(2) by simp
    next
      case 2
      have "seg_start (n + 1) j1 + 2 ^ j1 = n + 1" using start1 low_ones_start [OF c(4)] by linarith
      moreover have "aSub[j1 := m1] ! k = m1" using 2 Suc.prems(1) c(2) by (simp add: subs_ok_def)
      ultimately show ?thesis using c(5) start1 2 by simp
    next
      case 3
      then have "bit n k" "seg_start (n + 1) k = seg_start n k"
        using d(1) k(2) unfolding bit_nat_def seg_start_def by (metis, metis less_SucI)
      then show ?thesis using Suc.prems(1) 3 k(1) by (simp add: subs_ok_def)
    qed
  qed
  then have "subs_ok c (n + 1) (aSub[j1 := m1])" using Suc.prems(1) by (simp add: subs_ok_def)
  moreover have "j1 \<le> 12 \<and> bit (n + 1) j1 \<and> (\<forall>i<j1. \<not> bit (n + 1) i) \<and> merged c {n + 1 - 2 ^ j1..<n + 1} m1"
    using c d by blast
  moreover have "[n..<n + Suc k] = n # [n + 1..<n + 1 + k]" by (simp add: upt_conv_Cons)
  ultimately show ?case using Suc.IH [of "n + 1" "aSub[j1 := m1]" j1 m1] Suc.prems(2) c(1) by simp
qed

lemma walMergesort_merged:
  assumes N: "0 < N" "N \<le> 4096"
  shows "merged c {0..<N} (walMergesort c [0..<N])"
proof -
  have "subs_ok c 0 (replicate 13 [])" by (simp add: subs_ok_def)
  then obtain aSub j m where items: "merge_items c (replicate 13 []) 0 0 [] [0..<N] = (aSub, j, m)"
    and subs: "subs_ok c N aSub" and j: "j \<le> 12" "bit N j" "\<forall>i<j. \<not> bit N i" and m: "merged c {N - 2 ^ j..<N} m"
    using merge_items_ok [of c 0 "replicate 13 []" N 0 "[]"] N
    by (cases "merge_items c (replicate 13 []) 0 0 [] [0..<N]") auto
  define f where "f k l = (if bit N k then walMerge c (aSub ! k) l else l)" for k l
  have low: "N mod 2 ^ j = 0"
  proof -
    have "take_bit j N = 0" by (rule bit_eqI) (use j(3) in \<open>simp add: bit_take_bit_iff\<close>)
    then show ?thesis by (simp add: take_bit_eq_mod)
  qed
  have steps: "merged c {N div 2 ^ k * 2 ^ k..<N} (fold f [j + 1..<k] m)" if "j + 1 \<le> k" "k \<le> 13" for k
    using that
  proof (induction k rule: dec_induct)
    case base
    have "N div 2 ^ j * 2 ^ j = N" using low by (metis add.right_neutral div_mult_mod_eq)
    then have "seg_start N j = N - 2 ^ j" using seg_start [of N j] j(2) by simp
    then show ?case using m by (simp add: seg_start_def)
  next
    case (step k)
    have ih: "merged c {N div 2 ^ k * 2 ^ k..<N} (fold f [j + 1..<k] m)" using step by simp
    have f: "fold f [j + 1..<Suc k] m = f k (fold f [j + 1..<k] m)" using step.hyps by simp
    have goal: "N div 2 ^ Suc k * 2 ^ Suc k = seg_start N k" by (simp add: seg_start_def)
    show ?case
    proof (cases "bit N k")
      case False
      then show ?thesis unfolding f goal using ih seg_start [of N k] by (simp add: f_def)
    next
      case True
      have sub: "merged c {seg_start N k..<seg_start N k + 2 ^ k} (aSub ! k)" using subs True step.prems by (simp add: subs_ok_def)
      have start: "N div 2 ^ k * 2 ^ k = seg_start N k + 2 ^ k" using seg_start [of N k] True by simp
      moreover have "N div 2 ^ k * 2 ^ k \<le> N" by simp
      ultimately have "merged c {seg_start N k..<N} (walMerge c (aSub ! k) (fold f [j + 1..<k] m))"
        using merged_adjacent [OF sub ih [unfolded start]] by simp
      moreover have "f k l = walMerge c (aSub ! k) l" for l using True by (simp add: f_def)
      ultimately show ?thesis unfolding f goal by (simp only:)
    qed
  qed
  have "N div 2 ^ 13 = 0" using N by simp
  then have "merged c {0..<N} (fold f [j + 1..<13] m)" using steps [of 13] j(1) by simp
  then show ?thesis using items by (simp add: walMergesort_def f_def [abs_def] cong: fold_cong)
qed

section \<open>The iterator is correct\<close>

text \<open>The entry of a segment that comes next, as a page and its frame.\<close>

definition cand :: "u32 \<Rightarrow> WalSegment \<Rightarrow> (u32 \<times> nat) option" where
  "cand iMin s =
     (let s = skip_entries iMin s in
      if iNext s < length (aIndex s) then Some (segPgno s (aIndex s ! iNext s), iZero s + aIndex s ! iNext s) else None)"

definition seg_ok :: "u32 \<Rightarrow> nat \<Rightarrow> WalSegment \<Rightarrow> bool" where
  "seg_ok iMin N s \<longleftrightarrow> merged (segPgno s) {0..<N} (aIndex s) \<and> iNext s \<le> length (aIndex s) \<and>
     (\<forall>j<iNext s. segPgno s (aIndex s ! j) \<le> iMin)"

lemma skip_entries_spec:
  "iNext s \<le> length (aIndex s) \<Longrightarrow>
   \<exists>m. skip_entries iMin s = s\<lparr>iNext := m\<rparr> \<and> iNext s \<le> m \<and> m \<le> length (aIndex s) \<and>
     (\<forall>j. iNext s \<le> j \<longrightarrow> j < m \<longrightarrow> segPgno s (aIndex s ! j) \<le> iMin) \<and>
     (m < length (aIndex s) \<longrightarrow> iMin < segPgno s (aIndex s ! m))"
proof (induction iMin s rule: skip_entries.induct)
  case (1 iMin s)
  show ?case
  proof (cases "iNext s < length (aIndex s) \<and> \<not> iMin < segPgno s (aIndex s ! iNext s)")
    case False
    then have "skip_entries iMin s = s\<lparr>iNext := iNext s\<rparr>" by (subst skip_entries.simps) (simp only: if_False, simp)
    then show ?thesis using False "1.prems" by (intro exI [of _ "iNext s"]) auto
  next
    case True
    let ?s = "s\<lparr>iNext := iNext s + 1\<rparr>"
    obtain m where m: "skip_entries iMin ?s = ?s\<lparr>iNext := m\<rparr>" "iNext s + 1 \<le> m" "m \<le> length (aIndex s)"
      "\<forall>j. iNext s + 1 \<le> j \<longrightarrow> j < m \<longrightarrow> segPgno s (aIndex s ! j) \<le> iMin" "m < length (aIndex s) \<longrightarrow> iMin < segPgno s (aIndex s ! m)"
      using "1.IH" [OF True] True by auto
    have "skip_entries iMin s = s\<lparr>iNext := m\<rparr>" using m(1) True by (subst skip_entries.simps) simp
    moreover have "segPgno s (aIndex s ! j) \<le> iMin" if "iNext s \<le> j" "j < m" for j
      using that True m(4) by (cases "j = iNext s") auto
    ultimately show ?thesis using m by (intro exI [of _ m]) auto
  qed
qed

lemma skip_entries_ok:
  assumes "seg_ok iMin N s" and "iMin \<le> iMin'"
  shows "seg_ok iMin' N (skip_entries iMin s)"
    and "segPgno (skip_entries iMin s) = segPgno s" and "iZero (skip_entries iMin s) = iZero s"
proof -
  obtain m where m: "skip_entries iMin s = s\<lparr>iNext := m\<rparr>" "m \<le> length (aIndex s)"
      "\<forall>j. iNext s \<le> j \<longrightarrow> j < m \<longrightarrow> segPgno s (aIndex s ! j) \<le> iMin"
    using skip_entries_spec [of s iMin] assms(1) by (auto simp: seg_ok_def)
  have "segPgno s (aIndex s ! j) \<le> iMin'" if "j < m" for j
  proof -
    have "segPgno s (aIndex s ! j) \<le> iMin" using m(3) assms(1) that by (cases "iNext s \<le> j") (auto simp: seg_ok_def)
    then show ?thesis using assms(2) by simp
  qed
  then show "seg_ok iMin' N (skip_entries iMin s)" "segPgno (skip_entries iMin s) = segPgno s" "iZero (skip_entries iMin s) = iZero s"
    using assms(1) m(1,2) by (simp_all add: seg_ok_def)
qed

lemma cand_spec:
  assumes ok: "seg_ok iMin N s"
  shows "case cand iMin s of
      None \<Rightarrow> (\<forall>x<N. segPgno s x \<le> iMin)
    | Some (q, f) \<Rightarrow> iMin < q \<and> (\<exists>x<N. f = iZero s + x \<and> segPgno s x = q \<and> (\<forall>y<N. segPgno s y = q \<longrightarrow> y \<le> x)) \<and>
        (\<forall>y<N. iMin < segPgno s y \<longrightarrow> q \<le> segPgno s y)"
proof -
  let ?c = "segPgno s"
  obtain m where m: "skip_entries iMin s = s\<lparr>iNext := m\<rparr>" "m \<le> length (aIndex s)"
      "\<forall>j. iNext s \<le> j \<longrightarrow> j < m \<longrightarrow> ?c (aIndex s ! j) \<le> iMin" "m < length (aIndex s) \<longrightarrow> iMin < ?c (aIndex s ! m)"
    using skip_entries_spec [of s iMin] ok by (auto simp: seg_ok_def)
  have below: "?c (aIndex s ! j) \<le> iMin" if "j < m" for j
    using m(3) ok that by (cases "iNext s \<le> j") (auto simp: seg_ok_def)
  have sorted: "by_page ?c (aIndex s)" and set: "set (aIndex s) = latest ?c {0..<N}" using ok by (simp_all add: seg_ok_def merged_def)
  have entry: "\<exists>j<length (aIndex s). ?c (aIndex s ! j) = ?c y" if "y < N" for y
  proof -
    have "?c y \<in> ?c ` set (aIndex s)" using latest_keys [of "{0..<N}" ?c] that by (simp add: set)
    then show ?thesis by (fastforce simp: in_set_conv_nth)
  qed
  show ?thesis
  proof (cases "m < length (aIndex s)")
    case False
    then have "?c y \<le> iMin" if "y < N" for y using entry [OF that] below by (metis linorder_not_less order_less_le_trans)
    then show ?thesis using False m(1) by (simp add: cand_def)
  next
    case True
    let ?x = "aIndex s ! m"
    have x: "?x < N" "\<forall>y<N. ?c y = ?c ?x \<longrightarrow> y \<le> ?x" using nth_mem [OF True] by (auto simp: set latest_def)
    have "?c ?x \<le> ?c y" if y: "y < N" "iMin < ?c y" for y
    proof -
      obtain j where j: "j < length (aIndex s)" "?c (aIndex s ! j) = ?c y" using entry [OF y(1)] by blast
      then have "m \<le> j" using below [of j] y(2) by (metis linorder_not_less)
      then show ?thesis using sorted_wrt_nth_less [OF sorted, of m j] j by (cases "m = j") (auto intro: less_imp_le)
    qed
    then show ?thesis using True m(1,4) x by (auto simp: cand_def)
  qed
qed

lemma next_min_spec:
  "next_min iMin best ss = (best', ss') \<Longrightarrow> ss' = map (skip_entries iMin) ss \<and> fst best' \<le> fst best \<and>
     (\<forall>s \<in> set ss. \<forall>q f. cand iMin s = Some (q, f) \<longrightarrow> fst best' \<le> q) \<and>
     (best' = best \<or> (\<exists>i<length ss. cand iMin (ss ! i) = Some best' \<and> fst best' < fst best \<and>
        (\<forall>j<i. \<forall>q f. cand iMin (ss ! j) = Some (q, f) \<longrightarrow> fst best' < q)))"
proof (induction ss arbitrary: best ss')
  case Nil
  then show ?case by simp
next
  case (Cons s ss)
  define b where "b = (case cand iMin s of Some c \<Rightarrow> if fst c < fst best then c else best | None \<Rightarrow> best)"
  obtain ss1 where run: "next_min iMin b ss = (best', ss1)" and ss': "ss' = skip_entries iMin s # ss1"
    using Cons.prems by (auto simp: b_def cand_def Let_def split: prod.splits if_splits)
  note ih = Cons.IH [OF run]
  have b: "fst b \<le> fst best" "\<And>q f. cand iMin s = Some (q, f) \<Longrightarrow> fst b \<le> q"
    by (auto simp: b_def split: option.splits)
  have "best' = best \<or> (\<exists>i<length (s # ss). cand iMin ((s # ss) ! i) = Some best' \<and> fst best' < fst best \<and>
        (\<forall>j<i. \<forall>q f. cand iMin ((s # ss) ! j) = Some (q, f) \<longrightarrow> fst best' < q))"
  proof (cases "best' = b")
    case True
    then show ?thesis by (auto simp: b_def split: option.splits if_splits intro!: exI [of _ 0])
  next
    case False
    then obtain i where i: "i < length ss" "cand iMin (ss ! i) = Some best'" "fst best' < fst b"
        "\<forall>j<i. \<forall>q f. cand iMin (ss ! j) = Some (q, f) \<longrightarrow> fst best' < q"
      using ih by blast
    have "\<forall>j<Suc i. \<forall>q f. cand iMin ((s # ss) ! j) = Some (q, f) \<longrightarrow> fst best' < q"
      using i(3,4) b(2) by (auto simp: less_Suc_eq_0_disj intro: less_le_trans)
    then show ?thesis using i b(1) by (intro disjI2 exI [of _ "Suc i"]) auto
  qed
  moreover have "fst best' \<le> fst best" using ih b(1) by auto
  moreover have "\<forall>s' \<in> set (s # ss). \<forall>q f. cand iMin s' = Some (q, f) \<longrightarrow> fst best' \<le> q"
    using ih b(2) by (auto intro: order_trans)
  ultimately show ?case using ih ss' by simp
qed

text \<open>The iterator over the first L frames of a log with the pages ps.\<close>

definition n_segments :: "nat \<Rightarrow> nat" where "n_segments L = walFramePage L + 1"

definition n_entries :: "nat \<Rightarrow> nat \<Rightarrow> nat" where
  "n_entries L i = (if i + 1 = n_segments L then L - wal_zero i else table_cap i)"

definition iter_ok :: "u32 list \<Rightarrow> nat \<Rightarrow> WalIterator \<Rightarrow> bool" where
  "iter_ok ps L p \<longleftrightarrow> length (aSegment p) = n_segments L \<and>
     (\<forall>i<n_segments L. seg_ok (iPrior p) (n_entries L i) (aSegment p ! i) \<and> iZero (aSegment p ! i) = wal_zero i + 1 \<and>
        (\<forall>x<n_entries L i. segPgno (aSegment p ! i) x = ps ! (wal_zero i + x)))"

lemma wal_zero_mono: "i \<le> j \<Longrightarrow> wal_zero i \<le> wal_zero j"
  by (induction j rule: dec_induct) (simp_all add: wal_zero_Suc)

lemma segments_cover:
  assumes L: "1 \<le> L"
  shows "i < n_segments L \<Longrightarrow> wal_zero i + n_entries L i \<le> L \<and> 0 < n_entries L i \<and> n_entries L i \<le> table_cap i"
    and "i < j \<Longrightarrow> j < n_segments L \<Longrightarrow> wal_zero i + n_entries L i \<le> wal_zero j"
    and "k < L \<Longrightarrow> \<exists>i<n_segments L. wal_zero i \<le> k \<and> k < wal_zero i + n_entries L i"
proof -
  define t where "t = walFramePage L"
  have t: "wal_zero t < L" "L \<le> wal_zero t + table_cap t" using walFramePage_iff [OF L, of t] by (simp_all add: t_def)
  have n: "n_segments L = Suc t" by (simp add: n_segments_def t_def)
  have below: "wal_zero i + table_cap i \<le> wal_zero t" if "i < t" for i
    using wal_zero_mono [of "Suc i" t] that by (simp add: wal_zero_Suc)
  show "wal_zero i + n_entries L i \<le> L \<and> 0 < n_entries L i \<and> n_entries L i \<le> table_cap i" if "i < n_segments L"
    using that below [of i] t by (cases "i = t") (auto simp: n_entries_def n table_cap_def)
  show "wal_zero i + n_entries L i \<le> wal_zero j" if "i < j" "j < n_segments L"
    using that wal_zero_mono [of "Suc i" j] by (simp add: n_entries_def n wal_zero_Suc)
  show "\<exists>i<n_segments L. wal_zero i \<le> k \<and> k < wal_zero i + n_entries L i" if "k < L"
  proof -
    define i where "i = walFramePage (Suc k)"
    have i: "wal_zero i \<le> k" "k < wal_zero i + table_cap i" using walFramePage_iff [of "Suc k" i] by (simp_all add: i_def Suc_le_eq less_Suc_eq_le)
    have "i \<le> t"
    proof (rule ccontr)
      assume "\<not> i \<le> t"
      then have "wal_zero (Suc t) \<le> wal_zero i" by (intro wal_zero_mono) simp
      then show False using i t that by (simp add: wal_zero_Suc)
    qed
    then show ?thesis using i that by (intro exI [of _ i]) (auto simp: n n_entries_def)
  qed
qed

lemma init_segments_map:
  assumes "\<And>t. mapped w t"
  shows "init_segments w L n i k = (SQLITE_OK, map (\<lambda>i.
     (let nEntry = (if i + 1 = n then L - wal_zero i else if i = 0 then HASHTABLE_NPAGE_ONE else HASHTABLE_NPAGE);
          content = (\<lambda>j. aPgno (apWiData w i) (j + 1))
      in \<lparr>iNext = 0, aIndex = walMergesort content [0..<nEntry], segPgno = content, iZero = wal_zero i + 1\<rparr>)) [i..<i + k])"
  using assms by (induction k arbitrary: i) (simp_all add: walHashGet_def Let_def upt_conv_Cons del: upt_Suc)

lemma walIteratorInit_ok:
  assumes ok: "index_ok w ps" and L: "mxFrame (hdr w) = L" "1 \<le> L" "L \<le> length ps"
  obtains p where "walIteratorInit True True w = (SQLITE_OK, Some p)" "iter_ok ps L p" "iPrior p = 0"
proof -
  define mk where "mk i = (let nEntry = (if i + 1 = n_segments L then L - wal_zero i else if i = 0 then HASHTABLE_NPAGE_ONE else HASHTABLE_NPAGE);
          content = (\<lambda>j. aPgno (apWiData w i) (j + 1))
      in \<lparr>iNext = 0, aIndex = walMergesort content [0..<nEntry], segPgno = content, iZero = wal_zero i + 1\<rparr>)" for i
  have "\<forall>t. mapped w t" using ok by (simp add: index_ok_def)
  then have run: "walIteratorInit True True w = (SQLITE_OK, Some \<lparr>iPrior = 0, aSegment = map mk [0..<n_segments L]\<rparr>)"
    using init_segments_map [of w L "n_segments L" 0 "n_segments L"]
    unfolding walIteratorInit_def L(1) Let_def n_segments_def [symmetric] by (simp add: mk_def [abs_def] Let_def)
  have "iter_ok ps L \<lparr>iPrior = 0, aSegment = map mk [0..<n_segments L]\<rparr>"
    unfolding iter_ok_def
  proof (simp, intro allI impI)
    fix i assume i: "i < n_segments L"
    note c = segments_cover(1) [OF L(2) i]
    have cap: "table_cap i \<le> 4096" by (simp add: table_cap_def)
    let ?c = "\<lambda>j. aPgno (apWiData w i) (Suc j)"
    have "(if i + 1 = n_segments L then L - wal_zero i else if i = 0 then HASHTABLE_NPAGE_ONE else HASHTABLE_NPAGE) = n_entries L i"
      by (simp add: n_entries_def table_cap_def wal_consts)
    then have mk: "mk i = \<lparr>iNext = 0, aIndex = walMergesort ?c [0..<n_entries L i], segPgno = ?c, iZero = wal_zero i + 1\<rparr>"
      by (simp add: mk_def Let_def)
    have "merged ?c {0..<n_entries L i} (walMergesort ?c [0..<n_entries L i])"
      by (rule walMergesort_merged) (use c cap in linarith)+
    moreover have "?c x = ps ! (wal_zero i + x)" if x: "x < n_entries L i" for x
    proof -
      have len: "x < length (seg ps i)" using x c L(3) by (simp add: length_seg) linarith
      then have "seg ps i \<noteq> []" by auto
      then have "table_ok (table_cap i) (apWiData w i) (seg ps i)" using ok by (simp add: index_ok_def)
      then show ?thesis using table_okD(4) [OF _ len] nth_seg [OF len] by simp
    qed
    ultimately show "seg_ok 0 (n_entries L i) (mk i) \<and> iZero (mk i) = Suc (wal_zero i) \<and> (\<forall>x<n_entries L i. segPgno (mk i) x = ps ! (wal_zero i + x))"
      by (simp add: mk seg_ok_def)
  qed
  with run show thesis using that by simp
qed

lemma u32_max: "(q::u32) \<le> 0xFFFFFFFF"
proof -
  have "(-1::u32) = 0xFFFFFFFF" by simp
  then show ?thesis using word_order.extremum [of q] by metis
qed

lemma walIteratorNext_ok:
  assumes ok: "iter_ok ps L p" and L: "1 \<le> L" "L \<le> length ps" and max: "0xFFFFFFFF \<notin> set ps"
    and run: "walIteratorNext p = (r, p')"
  shows "iter_ok ps L p'"
    and "r = None \<Longrightarrow> q \<in> set (take L ps) \<Longrightarrow> q \<le> iPrior p"
    and "r = Some (q, f) \<Longrightarrow> q \<in> set (take L ps) \<and> iPrior p < q \<and> (\<forall>q' \<in> set (take L ps). iPrior p < q' \<longrightarrow> q \<le> q') \<and>
        f = last_frame ps L q \<and> iPrior p' = q"
proof -
  let ?n = "n_segments L"
  let ?S = "aSegment p"
  let ?m = "iPrior p"
  obtain best ss where nm: "next_min ?m (0xFFFFFFFF, 0) (rev ?S) = (best, ss)" by fastforce
  have r: "r = (if fst best = 0xFFFFFFFF then None else Some best)" "p' = p\<lparr>iPrior := fst best, aSegment := rev ss\<rparr>"
    using run nm by (auto simp: walIteratorNext_def)
  note spec = next_min_spec [OF nm]
  have len: "length ?S = ?n" using ok by (simp add: iter_ok_def)
  have S: "seg_ok ?m (n_entries L i) (?S ! i)" "iZero (?S ! i) = wal_zero i + 1" "\<And>x. x < n_entries L i \<Longrightarrow> segPgno (?S ! i) x = ps ! (wal_zero i + x)"
    if "i < ?n" for i using ok that by (simp_all add: iter_ok_def)
  have nth_less: "wal_zero i + x < L" if "i < ?n" "x < n_entries L i" for i x using segments_cover(1) [OF L(1) that(1)] that(2) by simp
  have page_cand: "\<exists>q f. cand ?m (?S ! i) = Some (q, f) \<and> q \<le> ps ! (wal_zero i + x)"
    if "i < ?n" "x < n_entries L i" "?m < ps ! (wal_zero i + x)" for i x
    using cand_spec [OF S(1) [OF that(1)]] S(3) [OF that(1,2)] that(2,3) by (cases "cand ?m (?S ! i)") auto
  have position: "\<exists>i x. i < ?n \<and> x < n_entries L i \<and> q = ps ! (wal_zero i + x)" if q: "q \<in> set (take L ps)" for q
  proof -
    obtain k where k: "k < L" "q = ps ! k" using q L(2) by (auto simp: in_set_conv_nth)
    obtain i where "i < ?n" "wal_zero i \<le> k" "k < wal_zero i + n_entries L i" using segments_cover(3) [OF L(1) k(1)] by blast
    then show ?thesis using k(2) by (intro exI [of _ i] exI [of _ "k - wal_zero i"]) auto
  qed
  have min_all: "fst best \<le> q" if q: "q \<in> set (take L ps)" "?m < q" for q
  proof -
    obtain i x where ix: "i < ?n" "x < n_entries L i" "q = ps ! (wal_zero i + x)" using position [OF q(1)] by blast
    then obtain q' f' where "cand ?m (?S ! i) = Some (q', f')" "q' \<le> q" using page_cand q(2) by blast
    moreover have "?S ! i \<in> set (rev ?S)" using ix(1) len by simp
    ultimately show ?thesis using spec by (meson order_trans)
  qed
  have in_ps: "q \<in> set ps" if "q \<in> set (take L ps)" for q using that by (rule in_set_takeD)
  show "q \<le> iPrior p" if "r = None" "q \<in> set (take L ps)"
  proof (rule ccontr)
    assume "\<not> q \<le> ?m"
    then have "fst best \<le> q" using min_all that(2) by simp
    moreover have "fst best = 0xFFFFFFFF" using that(1) r(1) by (auto split: if_splits)
    moreover have "q \<le> 0xFFFFFFFF" by (rule u32_max)
    ultimately show False using max in_ps [OF that(2)] by (metis order_antisym)
  qed
  have found: "\<exists>i x. i < ?n \<and> x < n_entries L i \<and> snd best = wal_zero i + 1 + x \<and> fst best = ps ! (wal_zero i + x) \<and> ?m < fst best \<and>
     (\<forall>y<n_entries L i. ps ! (wal_zero i + y) = fst best \<longrightarrow> y \<le> x) \<and>
     (\<forall>j. i < j \<longrightarrow> j < ?n \<longrightarrow> (\<forall>y<n_entries L j. ps ! (wal_zero j + y) \<noteq> fst best))"
    if nb: "fst best \<noteq> 0xFFFFFFFF"
  proof -
    obtain i' where i': "i' < ?n" "cand ?m (rev ?S ! i') = Some best" "\<forall>j<i'. \<forall>q f. cand ?m (rev ?S ! j) = Some (q, f) \<longrightarrow> fst best < q"
      using spec nb len by auto
    define i where "i = ?n - Suc i'"
    have i: "i < ?n" "rev ?S ! i' = ?S ! i" using i'(1) len by (simp_all add: i_def rev_nth)
    obtain x where x: "x < n_entries L i" "snd best = iZero (?S ! i) + x" "segPgno (?S ! i) x = fst best" "?m < fst best"
      "\<forall>y<n_entries L i. segPgno (?S ! i) y = fst best \<longrightarrow> y \<le> x"
      using cand_spec [OF S(1) [OF i(1)]] i'(2) i(2) by (cases best) auto
    have later: "ps ! (wal_zero j + y) \<noteq> fst best" if j: "i < j" "j < ?n" "y < n_entries L j" for j y
    proof
      assume eq: "ps ! (wal_zero j + y) = fst best"
      then obtain q f where "cand ?m (?S ! j) = Some (q, f)" "q \<le> fst best" using page_cand [OF j(2,3)] x(4) by auto
      moreover have "rev ?S ! (?n - Suc j) = ?S ! j" "?n - Suc j < i'" using j i'(1) len by (auto simp: rev_nth i_def)
      ultimately show False using i'(3) by (metis linorder_not_less)
    qed
    show ?thesis using i(1) x later S [OF i(1)] by (intro exI [of _ i] exI [of _ x]) auto
  qed
  show "q \<in> set (take L ps) \<and> iPrior p < q \<and> (\<forall>q' \<in> set (take L ps). iPrior p < q' \<longrightarrow> q \<le> q') \<and> f = last_frame ps L q \<and> iPrior p' = q"
    if some: "r = Some (q, f)"
  proof -
    have best: "best = (q, f)" "fst best \<noteq> 0xFFFFFFFF" using some r(1) by (auto split: if_splits)
    then obtain i x where ix: "i < ?n" "x < n_entries L i" "f = wal_zero i + 1 + x" "q = ps ! (wal_zero i + x)" "?m < q"
      "\<forall>y<n_entries L i. ps ! (wal_zero i + y) = q \<longrightarrow> y \<le> x"
      "\<forall>j. i < j \<longrightarrow> j < ?n \<longrightarrow> (\<forall>y<n_entries L j. ps ! (wal_zero j + y) \<noteq> q)"
      using found by auto
    let ?k = "wal_zero i + x"
    have k: "?k < L" by (rule nth_less [OF ix(1,2)])
    have "ps ! k' \<noteq> q" if k': "k' < L" "?k < k'" for k'
    proof
      assume eq: "ps ! k' = q"
      obtain j where j: "j < ?n" "wal_zero j \<le> k'" "k' < wal_zero j + n_entries L j" using segments_cover(3) [OF L(1) k'(1)] by blast
      have y: "wal_zero j + (k' - wal_zero j) = k'" "k' - wal_zero j < n_entries L j" using j by auto
      consider "j < i" | "j = i" | "i < j" by linarith
      then show False
      proof cases
        case 1
        then show False using segments_cover(2) [OF L(1) 1 ix(1)] j(3) k'(2) by simp
      next
        case 2
        then have "k' - wal_zero i \<le> x" using ix(6) y eq by auto
        then show False using k'(2) by simp
      next
        case 3
        then show False using ix(7) j(1) y eq by metis
      qed
    qed
    then have "?k < L \<and> Suc ?k = Suc ?k \<and> ps ! ?k = q \<and> (\<forall>k'<L. ?k < k' \<longrightarrow> ps ! k' \<noteq> q)" using k ix(4) by simp
    then have lf: "last_frame ps L q = Suc ?k" by (intro last_frame_iff [THEN iffD2] disjI2 exI)
    have "q \<in> set (take L ps)"
      unfolding in_set_conv_nth using k L(2) ix(4) by (intro exI [of _ ?k]) simp
    moreover have "f = last_frame ps L q" "iPrior p' = q" using lf ix(3) r(2) best(1) by simp_all
    moreover have "q \<le> q'" if "q' \<in> set (take L ps)" "?m < q'" for q' using min_all [OF that] best(1) by simp
    ultimately show ?thesis using ix(5) by (intro conjI ballI impI)
  qed
  have "?m \<le> fst best"
  proof (cases "fst best = 0xFFFFFFFF")
    case True
    then show ?thesis by (simp add: u32_max)
  next
    case False
    then show ?thesis using found by (auto intro: less_imp_le)
  qed
  then have skip: "seg_ok (fst best) (n_entries L i) (skip_entries ?m (?S ! i))" "segPgno (skip_entries ?m (?S ! i)) = segPgno (?S ! i)"
      "iZero (skip_entries ?m (?S ! i)) = iZero (?S ! i)" if "i < ?n" for i
    using skip_entries_ok [OF S(1) [OF that]] by blast+
  have "ss = map (skip_entries ?m) (rev ?S)" using spec by blast
  then have "aSegment p' = map (skip_entries ?m) ?S" "iPrior p' = fst best" by (simp_all add: r(2) rev_map)
  then show "iter_ok ps L p'" unfolding iter_ok_def using skip S(2,3) len by simp
qed

section \<open>The whole sequence\<close>

text \<open>What a caller sees that asks for k pages at most.\<close>

fun iterate :: "nat \<Rightarrow> WalIterator \<Rightarrow> (u32 \<times> nat) list" where
  "iterate 0 p = []"
| "iterate (Suc k) p = (case walIteratorNext p of (None, _) \<Rightarrow> [] | (Some r, p) \<Rightarrow> r # iterate k p)"

lemma iterate_ok:
  assumes "iter_ok ps L p" and L: "1 \<le> L" "L \<le> length ps" and max: "0xFFFFFFFF \<notin> set ps"
  shows "card {q \<in> set (take L ps). iPrior p < q} \<le> k \<Longrightarrow>
    iterate k p = map (\<lambda>q. (q, last_frame ps L q)) (sorted_list_of_set {q \<in> set (take L ps). iPrior p < q})"
  using assms(1)
proof (induction k arbitrary: p)
  case 0
  moreover have "finite {q \<in> set (take L ps). iPrior p < q}" by simp
  ultimately have "{q \<in> set (take L ps). iPrior p < q} = {}" by (simp only: le_zero_eq card_eq_0_iff) blast
  then show ?case by simp
next
  case (Suc k)
  let ?A = "\<lambda>p. {q \<in> set (take L ps). iPrior p < q}"
  obtain r p' where n: "walIteratorNext p = (r, p')" by fastforce
  note nxt = walIteratorNext_ok [OF Suc.prems(2) L max n]
  show ?case
  proof (cases r)
    case None
    then have "?A p = {}" using nxt(2) by (auto simp: not_less)
    then show ?thesis using n None by simp
  next
    case (Some qf)
    obtain q f where qf: "qf = (q, f)" by fastforce
    have q: "q \<in> ?A p" "f = last_frame ps L q" "iPrior p' = q" and least: "\<And>q'. q' \<in> ?A p \<Longrightarrow> q \<le> q'"
      using nxt(3) [OF Some [unfolded qf]] by auto
    have min: "Min (?A p) = q" using q(1) least by (intro Min_eqI) auto
    have rest: "?A p - {q} = ?A p'" using q least by (auto simp: less_le intro: less_le_trans)
    have "card (?A p') \<le> k" using Suc.prems(1) q(1) unfolding rest [symmetric] by (simp add: card_Diff_singleton)
    then have "iterate k p' = map (\<lambda>q. (q, last_frame ps L q)) (sorted_list_of_set (?A p'))"
      using Suc.IH nxt(1) by blast
    moreover have "sorted_list_of_set (?A p) = q # sorted_list_of_set (?A p')"
      using sorted_list_of_set_nonempty [of "?A p"] q(1) min rest by auto
    ultimately show ?thesis using n Some qf q(2) by simp
  qed
qed

text \<open>
  C21: The iterator that a checkpoint opens over a wal-index returns every page of the log
  once, in ascending order, with its latest frame.
\<close>

theorem iterator_pages_ascending:
  assumes "index_ok w ps" and "mxFrame (hdr w) = L" "1 \<le> L" "L \<le> length ps" and "0xFFFFFFFF \<notin> set ps"
    and "card (set (take L ps)) \<le> k"
  shows "\<exists>p. walIteratorInit True True w = (SQLITE_OK, Some p) \<and>
     iterate k p = map (\<lambda>q. (q, last_frame ps L q)) (sorted_list_of_set (set (take L ps)))"
proof -
  obtain p where p: "walIteratorInit True True w = (SQLITE_OK, Some p)" "iter_ok ps L p" "iPrior p = 0"
    by (rule walIteratorInit_ok [OF assms(1-4)])
  have "0 \<notin> set ps" using assms(1) by (simp add: index_ok_def)
  then have "{q \<in> set (take L ps). iPrior p < q} = set (take L ps)" using p(3) by (auto dest: in_set_takeD intro: gr0I simp: word_gt_0)
  then show ?thesis using p(1) iterate_ok [OF p(2) assms(3-5), of k] assms(6) by auto
qed

theorem iterator_pages_ascending_witness:
  "\<exists>p. walIteratorInit True True example_log = (SQLITE_OK, Some p) \<and>
     iterate 2 p = map (\<lambda>q. (q, last_frame [3, 5, 3] 3 q)) (sorted_list_of_set (set (take 3 [3, 5, 3])))"
  by (rule iterator_pages_ascending) (simp_all add: example_log_ok insert_commute)

end
