(* ===== verification/Wal_Checkpoint.thy ===== *)
theory Wal_Checkpoint
  imports Wal_Recovery Wal_Sort
begin

text \<open>
  walCheckpoint: the log is copied back into the database file, as far as no reader needs the old
  pages.  What the locks of the other connections allow is the environment of a checkpoint: the
  result of a lock call now, and after every further call of the busy handler, which returns 0
  when the list is at its end.
\<close>

section \<open>The model\<close>

record ckpt_env =
  view :: "nat \<Rightarrow> nat \<Rightarrow> result_code"            \<comment> \<open>walLockExclusive by lockIdx and n\<close>
  views :: "(nat \<Rightarrow> nat \<Rightarrow> result_code) list"

function walBusyLock :: "bool \<Rightarrow> ckpt_env \<Rightarrow> nat \<Rightarrow> nat \<Rightarrow> result_code \<times> ckpt_env" where
  "walBusyLock xBusy e lockIdx n =
     (if xBusy \<and> view e lockIdx n = SQLITE_BUSY \<and> views e \<noteq> []
      then walBusyLock xBusy (e\<lparr>view := hd (views e), views := tl (views e)\<rparr>) lockIdx n
      else (view e lockIdx n, e))"
  by pat_completeness auto
termination by (relation "measure (\<lambda>(_, e, _). length (views e))") auto

declare walBusyLock.simps [simp del]

definition walPagesize :: "Wal \<Rightarrow> nat" where
  "walPagesize pWal = unat ((ucast (szPage16 (hdr pWal)) AND 0xfe00) + push_bit 16 (ucast (szPage16 (hdr pWal)) AND 1 :: u32))"

definition WAL_READ_LOCK :: "nat \<Rightarrow> nat" where "WAL_READ_LOCK i = 3 + i"

text \<open>The loop over the read marks.  The flag says that the code leaves the function.\<close>

fun ckpt_marks :: "bool \<Rightarrow> ckpt_env \<Rightarrow> Wal \<Rightarrow> nat \<Rightarrow> result_code \<Rightarrow> nat list \<Rightarrow> bool \<times> result_code \<times> bool \<times> ckpt_env \<times> Wal \<times> nat" where
  "ckpt_marks xBusy e w mxSafeFrame rc [] = (False, rc, xBusy, e, w, mxSafeFrame)"
| "ckpt_marks xBusy e w mxSafeFrame rc (i # is) =
     (let y = aReadMark w ! i in
      if y < mxSafeFrame
      then
        (case walBusyLock xBusy e (WAL_READ_LOCK i) 1 of (rc, e) \<Rightarrow>
           if rc = SQLITE_OK
           then ckpt_marks xBusy e (w\<lparr>aReadMark := (aReadMark w)[i := (if i = 1 then mxSafeFrame else READMARK_NOT_USED)]\<rparr>) mxSafeFrame rc is
           else if rc = SQLITE_BUSY then ckpt_marks False e w y rc is
           else (True, rc, xBusy, e, w, mxSafeFrame))
      else ckpt_marks xBusy e w mxSafeFrame rc is)"

text \<open>The database file db, whose operations take their outcomes from the same list.\<close>

definition db_write :: "Wal \<Rightarrow> bytes \<Rightarrow> bytes \<Rightarrow> nat \<Rightarrow> result_code \<times> Wal \<times> bytes" where
  "db_write w db d off =
     (case os_next w of ((rc, k), w) \<Rightarrow> (rc, w, write_at db off (if rc = SQLITE_OK then d else take k d)))"

definition db_truncate :: "Wal \<Rightarrow> bytes \<Rightarrow> nat \<Rightarrow> result_code \<times> Wal \<times> bytes" where
  "db_truncate w db n = (case os_next w of ((rc, _), w) \<Rightarrow> (rc, w, if rc = SQLITE_OK then take n (db @ replicate n 0) else db))"

lemma skip_entries_exit: "iNext (skip_entries iMin s) < length (aIndex (skip_entries iMin s)) \<Longrightarrow>
  iMin < segPgno (skip_entries iMin s) (aIndex (skip_entries iMin s) ! iNext (skip_entries iMin s))"
proof (induction iMin s rule: skip_entries.induct)
  case (1 iMin s)
  show ?case
  proof (cases "iNext s < length (aIndex s) \<and> \<not> iMin < segPgno s (aIndex s ! iNext s)")
    case True
    then have "skip_entries iMin s = skip_entries iMin (s\<lparr>iNext := iNext s + 1\<rparr>)" by (subst skip_entries.simps) simp
    then show ?thesis using "1.IH" [OF True] "1.prems" by simp
  next
    case False
    then have "skip_entries iMin s = s" by (subst skip_entries.simps) (simp only: if_False)
    then show ?thesis using False "1.prems" by simp
  qed
qed

lemma next_min_greater: "next_min iMin best ss = (best', ss') \<Longrightarrow> best' = best \<or> iMin < fst best'"
proof (induction ss arbitrary: best ss')
  case (Cons s ss)
  let ?s = "skip_entries iMin s"
  define b where "b = (if iNext ?s < length (aIndex ?s) \<and> segPgno ?s (aIndex ?s ! iNext ?s) < fst best
                  then (segPgno ?s (aIndex ?s ! iNext ?s), iZero ?s + aIndex ?s ! iNext ?s) else best)"
  obtain ss1 where "next_min iMin b ss = (best', ss1)" using Cons.prems by (auto simp: b_def Let_def split: prod.splits)
  then have "best' = b \<or> iMin < fst best'" by (rule Cons.IH)
  moreover have "b = best \<or> iMin < fst b" using skip_entries_exit [of iMin s] by (auto simp: b_def)
  ultimately show ?case by auto
qed simp

lemma unat_u32_less: "unat (x::u32) < 2 ^ 32"
  using unsigned_less [of x, where 'a = nat] by simp

lemma walIteratorNext_greater: "walIteratorNext p = (Some r, p') \<Longrightarrow> iPrior p < iPrior p' \<and> iPrior p' = fst r"
  using next_min_greater [of "iPrior p" "(0xFFFFFFFF, 0)" "rev (aSegment p)"]
  by (auto simp: walIteratorNext_def split: prod.splits if_splits)

function backfill_pages :: "nat \<Rightarrow> nat \<Rightarrow> nat \<Rightarrow> u32 \<Rightarrow> Wal \<Rightarrow> bytes \<Rightarrow> WalIterator \<Rightarrow> result_code \<times> Wal \<times> bytes" where
  "backfill_pages szPg nBack mxSafeFrame mxPage w db p =
     (case walIteratorNext p of
        (None, p) \<Rightarrow> (SQLITE_OK, w, db)
      | (Some (iDbpage, iFrame), p) \<Rightarrow>
          if iFrame \<le> nBack \<or> mxSafeFrame < iFrame \<or> mxPage < iDbpage
          then backfill_pages szPg nBack mxSafeFrame mxPage w db p
          else
            (case sqlite3OsRead w szPg (walFrameOffset iFrame szPg + WAL_FRAME_HDRSIZE) of (rc, zBuf, w) \<Rightarrow>
               if rc \<noteq> SQLITE_OK then (rc, w, db)
               else
                 (case db_write w db zBuf ((unat iDbpage - 1) * szPg) of (rc, w, db) \<Rightarrow>
                    if rc \<noteq> SQLITE_OK then (rc, w, db)
                    else backfill_pages szPg nBack mxSafeFrame mxPage w db p)))"
  by pat_completeness auto
termination
proof (relation "measure (\<lambda>(_, _, _, _, _, _, p). 2 ^ 32 - unat (iPrior p))", goal_cases)
  case 1
  then show ?case by simp
next
  case (2 szPg nBack mx mxPage w db p x p' r a b)
  then have "unat (iPrior p) < unat (iPrior p')" using walIteratorNext_greater [of p r p'] by (auto simp: word_less_nat_alt)
  then show ?case using unat_u32_less [of "iPrior p'"] by simp
next
  case (3 szPg nBack mx mxPage w db p x p' r a b)
  then have "unat (iPrior p) < unat (iPrior p')" using walIteratorNext_greater [of p r p'] by (auto simp: word_less_nat_alt)
  then show ?case using unat_u32_less [of "iPrior p'"] by simp
qed

declare backfill_pages.simps [simp del]

datatype ckpt_mode = PASSIVE | FULL | RESTART

text \<open>The copy, between taking and dropping the lock on read mark 0.\<close>

definition ckpt_copy :: "u32 \<Rightarrow> nat \<Rightarrow> Wal \<Rightarrow> bytes \<Rightarrow> WalIterator \<Rightarrow> result_code \<times> Wal \<times> bytes" where
  "ckpt_copy sync_flags mxSafeFrame w db pIter =
     (let szPg = walPagesize w;
          (rc, w) = (if sync_flags \<noteq> 0 then sqlite3OsSync w else (SQLITE_OK, w));
          (rc, w) = (if rc = SQLITE_OK then (case os_next w of ((rc, _), w) \<Rightarrow> (rc, w)) else (rc, w));
          (rc, w, db) = (if rc = SQLITE_OK then backfill_pages szPg (nBackfill w) mxSafeFrame (nPage (hdr w)) w db pIter else (rc, w, db))
      in if rc \<noteq> SQLITE_OK then (rc, w, db)
         else
           (let (rc, w, db) =
                  (if mxSafeFrame = mxFrame (fst (aHdr w))
                   then
                     (case db_truncate w db (unat (nPage (hdr w)) * szPg) of (rc, w, db) \<Rightarrow>
                        if rc = SQLITE_OK \<and> sync_flags \<noteq> 0 then (case sqlite3OsSync w of (rc, w) \<Rightarrow> (rc, w, db)) else (rc, w, db))
                   else (SQLITE_OK, w, db))
            in (rc, if rc = SQLITE_OK then w\<lparr>nBackfill := mxSafeFrame\<rparr> else w, db)))"

definition walCheckpoint ::
  "bool \<Rightarrow> bool \<Rightarrow> ckpt_mode \<Rightarrow> bool \<Rightarrow> u32 \<Rightarrow> Wal \<Rightarrow> bytes \<Rightarrow> ckpt_env \<Rightarrow> result_code \<times> Wal \<times> bytes \<times> ckpt_env" where
  "walCheckpoint ok1 ok2 eMode xBusyCall sync_flags w db e =
     (if mxFrame (hdr w) \<le> nBackfill w then (SQLITE_OK, w, db, e)
      else
        (case walIteratorInit ok1 ok2 w of
           (rc, None) \<Rightarrow> (rc, w, db, e)
         | (rc, Some pIter) \<Rightarrow>
             (case ckpt_marks (eMode \<noteq> PASSIVE \<and> xBusyCall) e w (mxFrame (hdr w)) rc [1..<WAL_NREADER] of
                (leave, rc, xBusy, e, w, mxSafeFrame) \<Rightarrow>
                  if leave then (rc, w, db, e)
                  else
                    (let (rc, w, db, e) =
                           (if nBackfill w < mxSafeFrame
                            then
                              (case walBusyLock xBusy e (WAL_READ_LOCK 0) 1 of (rc, e) \<Rightarrow>
                                 if rc = SQLITE_OK
                                 then (case ckpt_copy sync_flags mxSafeFrame w db pIter of (rc, w, db) \<Rightarrow> (rc, w, db, e))
                                 else (rc, w, db, e))
                            else (rc, w, db, e));
                         rc = (if rc = SQLITE_BUSY then SQLITE_OK else rc)
                     in if rc = SQLITE_OK \<and> eMode \<noteq> PASSIVE
                        then
                          if nBackfill w < mxFrame (hdr w) then (SQLITE_BUSY, w, db, e)
                          else if eMode = RESTART
                          then (case walBusyLock xBusy e (WAL_READ_LOCK 1) (WAL_NREADER - 1) of (rc, e) \<Rightarrow> (rc, w, db, e))
                          else (rc, w, db, e)
                        else (rc, w, db, e)))))"

section \<open>Bytes and pages of the database file\<close>

text \<open>Behind its end the file reads as zeros.\<close>

definition db_byte :: "bytes \<Rightarrow> nat \<Rightarrow> u8" where
  "db_byte db i = (if i < length db then db ! i else 0)"

definition db_page :: "nat \<Rightarrow> bytes \<Rightarrow> u32 \<Rightarrow> bytes" where
  "db_page n db q = map (\<lambda>i. db_byte db ((unat q - 1) * n + i)) [0..<n]"

lemma db_byte_write: "db_byte (write_at db off d) i = (if off \<le> i \<and> i < off + length d then d ! (i - off) else db_byte db i)"
proof -
  define a where "a = take off (db @ replicate (off - length db) 0)"
  have a: "length a = off" "i < off \<Longrightarrow> a ! i = db_byte db i" by (auto simp: a_def db_byte_def nth_append)
  have "write_at db off d = a @ d @ drop (off + length d) db" by (simp add: write_at_def a_def)
  then show ?thesis using a by (auto simp: db_byte_def nth_append)
qed

lemma blocks_apart: "a < b \<Longrightarrow> i < n \<Longrightarrow> a * n + i < b * (n::nat)"
proof -
  assume "a < b" "i < n"
  then have "a * n + i < Suc a * n" by simp
  also have "\<dots> \<le> b * n" using \<open>a < b\<close> by (intro mult_le_mono1) simp
  finally show ?thesis .
qed

lemma page_blocks:
  assumes "p \<noteq> q" and "i < n" and "1 \<le> p" and "1 \<le> q"
  shows "(p - 1) * n + i < (q - 1) * n \<or> (q - 1) * n + n \<le> (p - 1) * n + (i::nat)"
proof (cases "p < q")
  case True
  then show ?thesis using blocks_apart [of "p - 1" "q - 1" i n] assms by simp
next
  case False
  then have "Suc (q - 1) * n \<le> (p - 1) * n" using assms by (intro mult_le_mono1) simp
  then show ?thesis by simp
qed

lemma db_page_write:
  assumes "q \<noteq> 0" "p \<noteq> 0" and "length d \<le> n"
  shows "db_page n (write_at db ((unat q - 1) * n) d) p = (if p = q then d @ drop (length d) (db_page n db q) else db_page n db p)"
proof (cases "p = q")
  case True
  have "db_page n (write_at db ((unat q - 1) * n) d) q = d @ drop (length d) (db_page n db q)"
    by (rule nth_equalityI) (use assms(3) in \<open>auto simp: db_page_def db_byte_write nth_append\<close>)
  then show ?thesis using True by simp
next
  case False
  have ne: "unat p \<noteq> unat q" using False word_unat_eq_iff by blast
  have pos: "1 \<le> unat p" "1 \<le> unat q" using assms(1,2) by (simp_all add: Suc_le_eq unat_gt_0)
  have "db_byte (write_at db ((unat q - 1) * n) d) ((unat p - 1) * n + i) = db_byte db ((unat p - 1) * n + i)" if "i < n" for i
    using page_blocks [OF ne that pos] assms(3) by (auto simp: db_byte_write)
  then show ?thesis using False by (simp add: db_page_def)
qed

lemma db_byte_pad: "db_byte (db @ replicate k 0) j = db_byte db j"
  by (simp add: db_byte_def nth_append)

lemma db_byte_take: "j < m \<Longrightarrow> db_byte (take m db) j = db_byte db j"
  by (auto simp: db_byte_def)

lemma db_page_take:
  assumes "p \<noteq> 0" and "unat p \<le> m"
  shows "db_page n (take (m * n) (db @ replicate k 0)) p = db_page n db p"
proof -
  have "unat p - 1 < m" using assms by (simp add: unat_gt_0 [symmetric] word_less_nat_alt)
  then have "(unat p - 1) * n + i < m * n" if "i < n" for i using that by (rule blocks_apart)
  then show ?thesis by (simp add: db_page_def db_byte_take db_byte_pad)
qed

section \<open>The copy\<close>

definition frame_data :: "frame list \<Rightarrow> nat \<Rightarrow> bytes" where "frame_data gs f = fst (snd (gs ! (f - 1)))"

text \<open>A connection whose log holds the frames gs.\<close>

definition log_held :: "nat \<Rightarrow> frame list \<Rightarrow> Wal \<Rightarrow> bool" where
  "log_held n gs w \<longleftrightarrow> page_size n \<and> sized n gs \<and> (\<exists>seq S tail. length S = 8 \<and> pWalFd w = file_bytes n seq S gs @ tail) \<and>
     szPage16 (hdr w) = size_code n \<and> index_ok w (map fst gs) \<and> 0xFFFFFFFF \<notin> set (map fst gs) \<and>
     1 \<le> mxFrame (hdr w) \<and> mxFrame (hdr w) \<le> length gs"

lemma log_held_cong:
  "pWalFd w' = pWalFd w \<Longrightarrow> hdr w' = hdr w \<Longrightarrow> apWiData w' = apWiData w \<Longrightarrow> mapped w' = mapped w \<Longrightarrow> log_held n gs w' = log_held n gs w"
  by (simp add: log_held_def index_ok_cong [of w' w])

lemma read_data:
  assumes w: "log_held n gs w" and f: "0 < f" "f \<le> length gs" and run: "sqlite3OsRead w n (walFrameOffset f n + WAL_FRAME_HDRSIZE) = (rc, zBuf, w')"
  shows "(rc = SQLITE_OK \<longrightarrow> zBuf = frame_data gs f) \<and> w\<lparr>faults := faults w'\<rparr> = w' \<and> (faults w = [] \<longrightarrow> rc = SQLITE_OK \<and> faults w' = [])"
proof -
  obtain seq S tail where S: "length S = 8" and content: "pWalFd w = file_bytes n seq S gs @ tail" and n: "page_size n" and sz: "sized n gs"
    using w by (auto simp: log_held_def)
  define ck where "ck = log_cksum (head_cksum n seq S) (take (f - 1) gs)"
  define hd' where "hd' = frame_head (gs ! (f - 1)) @ S @ sqlite3Put4byte (fst (frame_cksum (gs ! (f - 1)) ck)) @ sqlite3Put4byte (snd (frame_cksum (gs ! (f - 1)) ck))"
  have i: "f - 1 < length gs" using f by simp
  have gs: "gs = take (f - 1) gs @ gs ! (f - 1) # drop f gs" using id_take_nth_drop [OF i] f(1) by simp
  have d: "length (frame_data gs f) = n" using sz i by (auto simp: sized_def frame_data_def)
  have bytes: "pWalFd w = (file_bytes n seq S (take (f - 1) gs) @ hd') @ frame_data gs f @ (log_bytes S (frame_cksum (gs ! (f - 1)) ck) (drop f gs) @ tail)"
    by (subst content, subst gs) (simp add: file_bytes_append ck_def frame_bytes_def frame_data_def hd'_def)
  have off: "walFrameOffset f n + WAL_FRAME_HDRSIZE = length (file_bytes n seq S (take (f - 1) gs) @ hd')"
    using length_file_bytes [OF sized_take [OF sz, of "f - 1"] S, where seq = seq] i S f by (simp add: hd'_def WAL_FRAME_HDRSIZE_def walFrameOffset_def)
  show ?thesis
    using run unfolding sqlite3OsRead_def off os_next_def
    by (auto simp: bytes d split: list.splits prod.splits if_splits)
qed

text \<open>The pages that a checkpoint up to frame mx copies.\<close>

definition to_copy :: "frame list \<Rightarrow> Wal \<Rightarrow> nat \<Rightarrow> u32 \<Rightarrow> bool" where
  "to_copy gs w mx q \<longleftrightarrow> (let f = last_frame (map fst gs) (mxFrame (hdr w)) q in
     q \<noteq> 0 \<and> nBackfill w < f \<and> f \<le> mx \<and> q \<le> nPage (hdr w))"

lemma os_next_spec: "os_next w = ((rc, k), w') \<Longrightarrow> w\<lparr>faults := faults w'\<rparr> = w' \<and> (faults w = [] \<longrightarrow> rc = SQLITE_OK \<and> faults w' = [])"
  by (auto simp: os_next_def split: list.splits)

lemma same_faults_trans: "w\<lparr>faults := faults w1\<rparr> = w1 \<Longrightarrow> w1\<lparr>faults := faults w2\<rparr> = w2 \<Longrightarrow> w\<lparr>faults := faults w2\<rparr> = w2"
proof -
  assume a: "w\<lparr>faults := faults w1\<rparr> = w1" and b: "w1\<lparr>faults := faults w2\<rparr> = w2"
  have "w\<lparr>faults := faults w2\<rparr> = (w\<lparr>faults := faults w1\<rparr>)\<lparr>faults := faults w2\<rparr>" by simp
  also have "\<dots> = w2" unfolding a b ..
  finally show ?thesis .
qed

lemma db_write_spec:
  assumes "db_write w db d off = (rc, w', db')"
  obtains k where "db' = write_at db off (if rc = SQLITE_OK then d else take k d)" "w\<lparr>faults := faults w'\<rparr> = w'"
    "faults w = [] \<Longrightarrow> rc = SQLITE_OK \<and> faults w' = []"
proof -
  obtain rc1 k w1 where "os_next w = ((rc1, k), w1)" by (metis prod.collapse)
  then show thesis using assms os_next_spec [of w rc1 k w1] that [of k] by (auto simp: db_write_def)
qed

lemma log_held_faults [simp]: "log_held n gs (w\<lparr>faults := fl\<rparr>) = log_held n gs w"
  by (rule log_held_cong) simp_all

lemma to_copy_faults [simp]: "to_copy gs (w\<lparr>faults := fl\<rparr>) mx q = to_copy gs w mx q"
  by (simp add: to_copy_def)

lemma last_frame_mem: "0 < last_frame ps L q \<Longrightarrow> L \<le> length ps \<Longrightarrow> q \<in> set (take L ps) \<and> last_frame ps L q \<le> L"
  using last_frame_iff [of ps L q "last_frame ps L q"] by (auto simp: in_set_conv_nth)

lemma backfill_pages_ok:
  assumes "backfill_pages n (nBackfill w) mx (nPage (hdr w)) w db p = (rc, w', db')"
    and "log_held n gs w" and "iter_ok (map fst gs) (mxFrame (hdr w)) p"
  shows "w\<lparr>faults := faults w'\<rparr> = w' \<and> (faults w = [] \<longrightarrow> rc = SQLITE_OK \<and> faults w' = []) \<and>
    (\<forall>q. q \<noteq> 0 \<longrightarrow> \<not> to_copy gs w mx q \<longrightarrow> db_page n db' q = db_page n db q) \<and>
    (rc = SQLITE_OK \<longrightarrow> (\<forall>q. q \<noteq> 0 \<longrightarrow> q \<le> iPrior p \<longrightarrow> db_page n db' q = db_page n db q) \<and>
      (\<forall>q. to_copy gs w mx q \<longrightarrow> iPrior p < q \<longrightarrow>
      db_page n db' q = frame_data gs (last_frame (map fst gs) (mxFrame (hdr w)) q)))"
  using assms
proof (induction "2 ^ 32 - unat (iPrior p)" arbitrary: w db p rule: less_induct)
  case less
  let ?ps = "map fst gs"
  let ?L = "mxFrame (hdr w)"
  have L: "1 \<le> ?L" "?L \<le> length ?ps" "0xFFFFFFFF \<notin> set ?ps" and sz: "sized n gs" using less.prems(2) by (simp_all add: log_held_def)
  obtain r p1 where nxt: "walIteratorNext p = (r, p1)" by fastforce
  note it = walIteratorNext_ok [OF less.prems(3) L nxt]
  show ?case
  proof (cases r)
    case None
    have "w' = w" "db' = db" "rc = SQLITE_OK" using less.prems(1) None by (simp_all add: backfill_pages.simps [of n] nxt)
    moreover have "\<not> to_copy gs w mx q" if "iPrior p < q" for q
      using that it(2) [OF None, of q] last_frame_mem [of ?ps ?L q] L(2) by (auto simp: to_copy_def Let_def)
    ultimately show ?thesis by auto
  next
    case (Some qf)
    obtain q f where qf: "r = Some (q, f)" using Some by (cases qf) simp
    have q: "q \<in> set (take ?L ?ps)" "iPrior p < q" "f = last_frame ?ps ?L q" "iPrior p1 = q"
      and least: "\<And>q'. q' \<in> set (take ?L ?ps) \<Longrightarrow> iPrior p < q' \<Longrightarrow> q \<le> q'" using it(3) [OF qf] by auto
    have q0: "q \<noteq> 0" using q(2) by (metis word_not_simps(1))
    have f: "0 < f" "f \<le> length gs" 
      using last_frame_iff [of ?ps ?L q f] q(1,3) L(2) by (auto simp: in_set_conv_nth)
    have dec: "2 ^ 32 - unat (iPrior p1) < 2 ^ 32 - unat (iPrior p)"
      using q(2,4) unat_u32_less [of q] by (simp add: word_less_nat_alt)
    have only: "iPrior p1 < q' \<or> q' = q" if "to_copy gs w mx q'" "iPrior p < q'" for q'
      using that least [of q'] last_frame_mem [of ?ps ?L q'] L(2) q(4) by (auto simp: to_copy_def Let_def less_le)
    define skip where "skip \<longleftrightarrow> f \<le> nBackfill w \<or> mx < f \<or> nPage (hdr w) < q"
    have skip: "skip \<longleftrightarrow> \<not> to_copy gs w mx q" using q0 q(3) by (auto simp: skip_def to_copy_def Let_def)
    show ?thesis
    proof (cases skip)
      case True
      have run: "backfill_pages n (nBackfill w) mx (nPage (hdr w)) w db p1 = (rc, w', db')"
        using less.prems(1) True by (simp add: backfill_pages.simps [of n _ _ _ _ _ p] nxt qf skip_def)
      note ih = less.hyps [OF dec run less.prems(2) it(1)]
      have "q' \<le> iPrior p1" if "q' \<le> iPrior p" for q' using that q(2,4) by simp
      then show ?thesis using ih only True skip by metis
    next
      case False
      obtain rc1 z w1 where rd: "sqlite3OsRead w n (walFrameOffset f n + WAL_FRAME_HDRSIZE) = (rc1, z, w1)" by (metis prod_cases3)
      note rd' = read_data [OF less.prems(2) f rd]
      obtain rc2 w2 db2 where wr: "db_write w1 db z ((unat q - 1) * n) = (rc2, w2, db2)" by (metis prod_cases3)
      have rest: "(if rc1 \<noteq> SQLITE_OK then (rc1, w1, db) else if rc2 \<noteq> SQLITE_OK then (rc2, w2, db2)
           else backfill_pages n (nBackfill w) mx (nPage (hdr w)) w2 db2 p1) = (rc, w', db')"
        using less.prems(1) False wr by (simp add: backfill_pages.simps [of n _ _ _ _ _ p] nxt qf skip_def rd cong: if_cong)
      show ?thesis
      proof (cases "rc1 = SQLITE_OK")
        case False
        then show ?thesis using rest rd' by auto
      next
        case ok1: True
        then have z: "z = frame_data gs f" using rd' by simp
        have len: "length z = n" using sz f unfolding z frame_data_def sized_def by simp
        obtain k where db2: "db2 = write_at db ((unat q - 1) * n) (if rc2 = SQLITE_OK then z else take k z)"
          and w2: "w\<lparr>faults := faults w2\<rparr> = w2" "faults w = [] \<longrightarrow> rc2 = SQLITE_OK \<and> faults w2 = []"
          using wr rd' by (elim db_write_spec) (blast intro: same_faults_trans)
        have pages: "db_page n db2 q' = db_page n db q'" if "q' \<noteq> q" "q' \<noteq> 0" for q'
          unfolding db2 using db_page_write [OF q0 that(2)] that(1) len by auto
        have page: "rc2 = SQLITE_OK \<Longrightarrow> db_page n db2 q = z"
          unfolding db2 using db_page_write [OF q0 q0, of z n db] len by (simp add: db_page_def)
        show ?thesis
        proof (cases "rc2 = SQLITE_OK")
          case False
          have "db_page n db2 q' = db_page n db q'" if "q' \<noteq> 0" "\<not> to_copy gs w mx q'" for q'
            using that pages [of q'] skip \<open>\<not> skip\<close> by blast
          then show ?thesis using rest ok1 w2 False by auto
        next
          case True
          have same: "nBackfill w2 = nBackfill w" "hdr w2 = hdr w" "log_held n gs w2 = log_held n gs w" "to_copy gs w2 = to_copy gs w"
          proof -
            obtain fl where "w2 = w\<lparr>faults := fl\<rparr>" using w2(1) by metis
            then show "nBackfill w2 = nBackfill w" "hdr w2 = hdr w" "log_held n gs w2 = log_held n gs w" "to_copy gs w2 = to_copy gs w"
              by (simp_all add: fun_eq_iff)
          qed
          have run: "backfill_pages n (nBackfill w2) mx (nPage (hdr w2)) w2 db2 p1 = (rc, w', db')" using rest ok1 True by (simp add: same)
          note ih = less.hyps [OF dec run, unfolded same, OF less.prems(2) it(1)]
          have "w\<lparr>faults := faults w'\<rparr> = w'" using ih same_faults_trans [OF w2(1)] by blast
          moreover have "q' \<noteq> q \<and> q' \<le> iPrior p1" if "q' \<le> iPrior p" for q' using that q(2,4) by auto
          moreover have "db_page n db' q = frame_data gs f" if "rc = SQLITE_OK" using ih that page [OF True] q0 q(4) z by simp
          ultimately show ?thesis using ih only pages True w2 skip \<open>\<not> skip\<close> q(3) by metis
        qed
      qed
    qed
  qed
qed

text \<open>What a checkpoint up to frame mx may do with the connection and the database.\<close>

definition copied :: "nat \<Rightarrow> frame list \<Rightarrow> nat \<Rightarrow> Wal \<Rightarrow> bytes \<Rightarrow> Wal \<Rightarrow> bytes \<Rightarrow> bool" where
  "copied n gs mx w db w' db' \<longleftrightarrow> (\<exists>fl. w' = w\<lparr>faults := fl, nBackfill := nBackfill w'\<rparr>) \<and> nBackfill w' \<in> {nBackfill w, mx} \<and>
     (\<forall>q. q \<noteq> 0 \<longrightarrow> (mx = mxFrame (fst (aHdr w)) \<longrightarrow> q \<le> nPage (hdr w)) \<longrightarrow> \<not> to_copy gs w mx q \<longrightarrow> db_page n db' q = db_page n db q) \<and>
     (nBackfill w' = mx \<longrightarrow> (\<forall>q. to_copy gs w mx q \<longrightarrow> db_page n db' q = frame_data gs (last_frame (map fst gs) (mxFrame (hdr w)) q)))"

lemma ckpt_copy_ok:
  assumes run: "ckpt_copy sync_flags mx w db p = (rc, w', db')"
    and w: "log_held n gs w" and p: "iter_ok (map fst gs) (mxFrame (hdr w)) p" "iPrior p = 0" and mx: "nBackfill w < mx"
  shows "copied n gs mx w db w' db'"
    and "faults w = [] \<Longrightarrow> rc = SQLITE_OK \<and> nBackfill w' = mx \<and> faults w' = [] \<and>
      (mx = mxFrame (fst (aHdr w)) \<longrightarrow> length db' = unat (nPage (hdr w)) * n)"
proof -
  let ?to = "to_copy gs w mx"
  let ?data = "\<lambda>q. frame_data gs (last_frame (map fst gs) (mxFrame (hdr w)) q)"
  have sz: "walPagesize w = n" using w page_size_code by (simp add: log_held_def walPagesize_def)
  obtain rc1 w1 where s1: "(if sync_flags \<noteq> 0 then sqlite3OsSync w else (SQLITE_OK, w)) = (rc1, w1)" by fastforce
  have w1: "w\<lparr>faults := faults w1\<rparr> = w1" "faults w = [] \<longrightarrow> rc1 = SQLITE_OK \<and> faults w1 = []"
    using s1 os_next_spec [of w] by (auto simp: sqlite3OsSync_def split: if_splits prod.splits)
  obtain rc2 w2 where s2: "(if rc1 = SQLITE_OK then (case os_next w1 of ((rc, _), w) \<Rightarrow> (rc, w)) else (rc1, w1)) = (rc2, w2)" by fastforce
  have w2': "w1\<lparr>faults := faults w2\<rparr> = w2" "faults w = [] \<longrightarrow> rc2 = SQLITE_OK \<and> faults w2 = []"
    using s2 w1 os_next_spec [of w1] by (auto split: if_splits prod.splits)
  note w2 = same_faults_trans [OF w1(1) w2'(1)] w2'(2)
  obtain fl2 where fl2: "w2 = w\<lparr>faults := fl2\<rparr>" using w2(1) by metis
  obtain rc3 w3 db3 where s3: "(if rc2 = SQLITE_OK then backfill_pages n (nBackfill w2) mx (nPage (hdr w2)) w2 db p else (rc2, w2, db)) = (rc3, w3, db3)"
    by (metis prod_cases3)
  have w3: "\<exists>fl. w3 = w\<lparr>faults := fl\<rparr>" "faults w = [] \<longrightarrow> rc3 = SQLITE_OK \<and> faults w3 = []"
      and pages3: "\<And>q. q \<noteq> 0 \<Longrightarrow> \<not> ?to q \<Longrightarrow> db_page n db3 q = db_page n db q"
        "\<And>q. rc3 = SQLITE_OK \<Longrightarrow> ?to q \<Longrightarrow> db_page n db3 q = ?data q"
  proof -
    have sub: "(\<exists>fl. w3 = w\<lparr>faults := fl\<rparr>) \<and> (faults w = [] \<longrightarrow> rc3 = SQLITE_OK \<and> faults w3 = []) \<and>
      (\<forall>q. q \<noteq> 0 \<longrightarrow> \<not> ?to q \<longrightarrow> db_page n db3 q = db_page n db q) \<and> (rc3 = SQLITE_OK \<longrightarrow> (\<forall>q. ?to q \<longrightarrow> db_page n db3 q = ?data q))"
    proof (cases "rc2 = SQLITE_OK")
      case False
      then show ?thesis using s3 w2 fl2 by auto
    next
      case True
      have run3: "backfill_pages n (nBackfill w2) mx (nPage (hdr w2)) w2 db p = (rc3, w3, db3)" using s3 True by simp
      have pre: "log_held n gs w2" "iter_ok (map fst gs) (mxFrame (hdr w2)) p" using w p(1) by (simp_all add: fl2)
      note b = backfill_pages_ok [OF run3 pre]
      have fl3: "w3 = w\<lparr>faults := faults w3\<rparr>" using same_faults_trans [OF w2(1)] b by simp
      have to: "to_copy gs w2 mx = ?to" by (simp add: fl2 fun_eq_iff)
      have old: "db_page n db3 q = db_page n db q" if "q \<noteq> 0" "\<not> ?to q" for q using b that unfolding to by blast
      have new: "db_page n db3 q = ?data q" if "rc3 = SQLITE_OK" "?to q" for q
      proof -
        have "iPrior p < q" using that(2) p(2) by (simp add: to_copy_def Let_def word_gt_0)
        then show ?thesis using b that unfolding to by (simp add: fl2)
      qed
      have "faults w = [] \<longrightarrow> rc3 = SQLITE_OK \<and> faults w3 = []" using b w2(2) by simp
      moreover have "\<exists>fl. w3 = w\<lparr>faults := fl\<rparr>" by (rule exI) (rule fl3)
      ultimately show ?thesis using old new by simp
    qed
    then show "\<exists>fl. w3 = w\<lparr>faults := fl\<rparr>" "faults w = [] \<longrightarrow> rc3 = SQLITE_OK \<and> faults w3 = []"
      "\<And>q. q \<noteq> 0 \<Longrightarrow> \<not> ?to q \<Longrightarrow> db_page n db3 q = db_page n db q"
      "\<And>q. rc3 = SQLITE_OK \<Longrightarrow> ?to q \<Longrightarrow> db_page n db3 q = ?data q" by blast+
  qed
  obtain fl3 where fl3: "w3 = w\<lparr>faults := fl3\<rparr>" using w3(1) by blast
  define fin where "fin = (if mx = mxFrame (fst (aHdr w3))
     then (case db_truncate w3 db3 (unat (nPage (hdr w3)) * n) of (rc, w, db) \<Rightarrow>
        if rc = SQLITE_OK \<and> sync_flags \<noteq> 0 then (case sqlite3OsSync w of (rc, w) \<Rightarrow> (rc, w, db)) else (rc, w, db))
     else (SQLITE_OK, w3, db3))"
  obtain rc4 w4 db4 where s4: "fin = (rc4, w4, db4)" by (metis prod_cases3)
  have run': "(if rc3 \<noteq> SQLITE_OK then (rc3, w3, db3)
      else (rc4, if rc4 = SQLITE_OK then w4\<lparr>nBackfill := mx\<rparr> else w4, db4)) = (rc, w', db')"
    using run s1 s2 s3 s4 unfolding ckpt_copy_def sz Let_def fin_def by (simp add: fl2 cong: if_cong split: prod.splits)
  have tail: "w3\<lparr>faults := faults w4\<rparr> = w4" "faults w = [] \<longrightarrow> rc3 = SQLITE_OK \<and> rc4 = SQLITE_OK \<and> faults w4 = []"
    using s4 w3(2) unfolding fin_def db_truncate_def sqlite3OsSync_def os_next_def
    by (auto split: if_splits prod.splits list.splits)
  have trunc: "db4 = db3 \<or> mx = mxFrame (fst (aHdr w)) \<and> db4 = take (unat (nPage (hdr w)) * n) (db3 @ replicate (unat (nPage (hdr w)) * n) 0)"
    "rc4 = SQLITE_OK \<Longrightarrow> mx = mxFrame (fst (aHdr w)) \<Longrightarrow> length db4 = unat (nPage (hdr w)) * n"
    using s4 unfolding fin_def db_truncate_def by (auto simp: fl3 split: if_splits prod.splits)
  have page4: "db_page n db4 q = db_page n db3 q" if "q \<noteq> 0" "mx = mxFrame (fst (aHdr w)) \<longrightarrow> q \<le> nPage (hdr w)" for q
    using trunc(1)
  proof
    assume t: "mx = mxFrame (fst (aHdr w)) \<and> db4 = take (unat (nPage (hdr w)) * n) (db3 @ replicate (unat (nPage (hdr w)) * n) 0)"
    then have "unat q \<le> unat (nPage (hdr w))" using that(2) by (simp add: word_le_nat_alt)
    then show ?thesis unfolding t [THEN conjunct2] by (rule db_page_take [OF that(1)])
  qed simp
  obtain fl4 where fl4: "w4 = w\<lparr>faults := fl4\<rparr>" 
  proof -
    have "w3\<lparr>faults := faults w4\<rparr> = w\<lparr>faults := faults w4\<rparr>" by (simp add: fl3)
    then show thesis using tail(1) that by simp
  qed
  show "copied n gs mx w db w' db'"
  proof (cases "rc3 = SQLITE_OK")
    case False
    then show ?thesis using run' fl3 mx pages3(1) unfolding copied_def by auto
  next
    case True
    have to_ok: "q \<noteq> 0 \<and> q \<le> nPage (hdr w)" if "?to q" for q using that by (simp add: to_copy_def Let_def)
    have new: "db_page n db4 q = ?data q" if "?to q" for q using pages3(2) [OF True that] page4 to_ok [OF that] by simp
    have old: "db_page n db4 q = db_page n db q" if "q \<noteq> 0" "mx = mxFrame (fst (aHdr w)) \<longrightarrow> q \<le> nPage (hdr w)" "\<not> ?to q" for q
      using page4 [OF that(1,2)] pages3(1) [OF that(1,3)] by simp
    have "db' = db4" "w' = (if rc4 = SQLITE_OK then w\<lparr>faults := fl4, nBackfill := mx\<rparr> else w\<lparr>faults := fl4\<rparr>)"
      using run' True fl4 by (auto split: if_splits)
    then show ?thesis using old new unfolding copied_def by (cases "rc4 = SQLITE_OK") (auto intro: exI [of _ fl4])
  qed
  show "rc = SQLITE_OK \<and> nBackfill w' = mx \<and> faults w' = [] \<and>
      (mx = mxFrame (fst (aHdr w)) \<longrightarrow> length db' = unat (nPage (hdr w)) * n)" if "faults w = []"
    using that run' tail(2) trunc(2) by (auto split: if_splits)
qed

section \<open>The locks\<close>

definition all_views :: "ckpt_env \<Rightarrow> (nat \<Rightarrow> nat \<Rightarrow> result_code) set" where
  "all_views e = insert (view e) (set (views e))"

text \<open>Another connection keeps the lock of a read mark; no lock is taken.\<close>

definition held :: "ckpt_env \<Rightarrow> nat \<Rightarrow> bool" where
  "held e i \<longleftrightarrow> (\<forall>v \<in> all_views e. v (WAL_READ_LOCK i) 1 = SQLITE_BUSY)"

definition no_locks :: "ckpt_env \<Rightarrow> bool" where
  "no_locks e \<longleftrightarrow> (\<forall>v \<in> all_views e. \<forall>l n. v l n = SQLITE_OK)"

lemma held_mono: "all_views e' \<subseteq> all_views e \<Longrightarrow> held e i \<Longrightarrow> held e' i"
  by (auto simp: held_def)

lemma walBusyLock_spec:
  "walBusyLock xBusy e l n = (rc, e') \<Longrightarrow> all_views e' \<subseteq> all_views e \<and> (\<exists>v \<in> all_views e. rc = v l n)"
proof (induction xBusy e l n rule: walBusyLock.induct)
  case (1 xBusy e l n)
  show ?case
  proof (cases "xBusy \<and> view e l n = SQLITE_BUSY \<and> views e \<noteq> []")
    case True
    let ?e = "e\<lparr>view := hd (views e), views := tl (views e)\<rparr>"
    have "walBusyLock xBusy ?e l n = (rc, e')" using "1.prems" True unfolding walBusyLock.simps [of xBusy e] by (simp only: simp_thms if_True)
    moreover have "all_views ?e \<subseteq> all_views e" using True by (cases "views e") (auto simp: all_views_def)
    ultimately show ?thesis using "1.IH" [OF True] by blast
  next
    case False
    then have "(rc, e') = (view e l n, e)" using "1.prems" unfolding walBusyLock.simps [of xBusy e] by (simp only: if_False)
    then show ?thesis by (simp add: all_views_def)
  qed
qed

lemma walBusyLock_no_locks: "no_locks e \<Longrightarrow> walBusyLock xBusy e l n = (SQLITE_OK, e)"
  by (simp add: walBusyLock.simps [of xBusy e] no_locks_def all_views_def)

lemma walBusyLock_held: "held e i \<Longrightarrow> walBusyLock xBusy e (WAL_READ_LOCK i) 1 = (rc, e') \<Longrightarrow> rc = SQLITE_BUSY"
  using walBusyLock_spec [of xBusy e "WAL_READ_LOCK i" 1 rc e'] by (auto simp: held_def)

lemma ckpt_marks_no_locks:
  "no_locks e \<Longrightarrow> \<exists>rs. ckpt_marks xBusy e w mx SQLITE_OK is = (False, SQLITE_OK, xBusy, e, w\<lparr>aReadMark := rs\<rparr>, mx)"
proof (induction "is" arbitrary: w)
  case Nil
  then show ?case by (intro exI [of _ "aReadMark w"]) simp
next
  case (Cons i "is")
  show ?case
  proof (cases "aReadMark w ! i < mx")
    case True
    obtain rs where "ckpt_marks xBusy e (w\<lparr>aReadMark := (aReadMark w)[i := (if i = 1 then mx else READMARK_NOT_USED)]\<rparr>) mx SQLITE_OK is =
        (False, SQLITE_OK, xBusy, e, w\<lparr>aReadMark := rs\<rparr>, mx)"
      using Cons.IH [OF Cons.prems, of "w\<lparr>aReadMark := (aReadMark w)[i := (if i = 1 then mx else READMARK_NOT_USED)]\<rparr>"] by auto
    then show ?thesis using True walBusyLock_no_locks [OF Cons.prems] by (intro exI [of _ rs]) simp
  next
    case False
    then show ?thesis using Cons by simp
  qed
qed

lemma ckpt_marks_cases:
  assumes "ckpt_marks xBusy e w mx rc (j # is) = (leave, rc', xBusy', e', w', mx')"
  obtains (skip) "\<not> aReadMark w ! j < mx" "ckpt_marks xBusy e w mx rc is = (leave, rc', xBusy', e', w', mx')"
    | (take) e1 where "all_views e1 \<subseteq> all_views e" "\<not> held e j"
        "ckpt_marks xBusy e1 (w\<lparr>aReadMark := (aReadMark w)[j := (if j = 1 then mx else READMARK_NOT_USED)]\<rparr>) mx SQLITE_OK is =
          (leave, rc', xBusy', e', w', mx')"
    | (busy) e1 where "all_views e1 \<subseteq> all_views e" "aReadMark w ! j < mx"
        "ckpt_marks False e1 w (aReadMark w ! j) SQLITE_BUSY is = (leave, rc', xBusy', e', w', mx')"
    | (error) "leave" "all_views e' \<subseteq> all_views e" "w' = w" "mx' = mx"
proof -
  obtain rc1 e1 where lock: "walBusyLock xBusy e (WAL_READ_LOCK j) 1 = (rc1, e1)" by fastforce
  have l: "all_views e1 \<subseteq> all_views e" using walBusyLock_spec [OF lock] by blast
  have h: "\<not> held e j" if "rc1 = SQLITE_OK" using walBusyLock_held [OF _ lock] that by auto
  show thesis using assms lock l h that by (auto simp: Let_def split: if_splits)
qed

lemma ckpt_marks_spec:
  assumes "ckpt_marks xBusy e w mx rc is = (leave, rc', xBusy', e', w', mx')" and "distinct is"
  shows "mx' \<le> mx \<and> all_views e' \<subseteq> all_views e" and "w\<lparr>aReadMark := aReadMark w'\<rparr> = w'"
    and "i \<notin> set is \<or> held e i \<Longrightarrow> aReadMark w' ! i = aReadMark w ! i"
    and "i \<in> set is \<Longrightarrow> held e i \<Longrightarrow> \<not> leave \<Longrightarrow> mx' \<le> aReadMark w ! i"
  using assms
proof (induction "is" arbitrary: xBusy e w mx rc)
  case Nil
  { case 1 then show ?case by simp }
  { case 2 then show ?case by simp }
  { case 3 then show ?case by simp }
  { case 4 then show ?case by simp }
next
  case (Cons j "is")
  { case 1
    from 1(1) show ?case
    proof (cases rule: ckpt_marks_cases)
      case skip
      then show ?thesis using Cons.IH(1) 1(2) by simp
    next
      case (take e1)
      then show ?thesis using Cons.IH(1) [OF take(3)] 1(2) by auto
    next
      case (busy e1)
      then show ?thesis using Cons.IH(1) [OF busy(3)] 1(2) by auto
    qed simp }
  { case 2
    from 2(1) show ?case
    proof (cases rule: ckpt_marks_cases)
      case (take e1)
      then show ?thesis using Cons.IH(2) [OF take(3)] 2(2) by simp
    qed (use Cons.IH(2) 2(2) in auto) }
  { case 3
    from 3(2) show ?case
    proof (cases rule: ckpt_marks_cases)
      case (take e1)
      have "i \<noteq> j" using 3(1) take(2) by auto
      then show ?thesis using Cons.IH(3) [OF _ take(3)] 3(1,3) held_mono [OF take(1)] by auto
    next
      case skip
      then show ?thesis using Cons.IH(3) [OF _ skip(2)] 3(1,3) by auto
    next
      case (busy e1)
      then show ?thesis using Cons.IH(3) [OF _ busy(3)] 3(1,3) held_mono [OF busy(1)] by auto
    qed auto }
  { case 4
    from 4(4) show ?case
    proof (cases rule: ckpt_marks_cases)
      case (take e1)
      have "i \<noteq> j" using 4(2) take(2) by auto
      then show ?thesis using Cons.IH(4) [OF _ held_mono [OF take(1) 4(2)] 4(3) take(3)] 4(1,5) by auto
    next
      case skip
      then show ?thesis using Cons.IH(1) [OF skip(2)] Cons.IH(4) [OF _ 4(2,3) skip(2)] 4(1,5) by (cases "i = j") auto
    next
      case (busy e1)
      then show ?thesis using Cons.IH(1) [OF busy(3)] Cons.IH(4) [OF _ held_mono [OF busy(1) 4(2)] 4(3) busy(3)] 4(1,5)
        by (cases "i = j") auto
    qed (use 4(3) in simp) }
qed

section \<open>The checkpoint\<close>

text \<open>Either nothing is copied, or frames up to one that no reader is behind.\<close>

definition marks_kept :: "ckpt_env \<Rightarrow> Wal \<Rightarrow> nat list \<Rightarrow> bool" where
  "marks_kept e w rs \<longleftrightarrow> (\<forall>i. i = 0 \<or> held e i \<longrightarrow> rs ! i = aReadMark w ! i)"

lemma walCheckpoint_cases:
  assumes run: "walCheckpoint ok1 ok2 eMode xBusyCall sync_flags w db e = (rc, w', db', e')" and w: "log_held n gs w"
  obtains (idle) rs where "w' = w\<lparr>aReadMark := rs\<rparr>" "db' = db" "marks_kept e w rs"
    | (copy) rs mx where "copied n gs mx (w\<lparr>aReadMark := rs\<rparr>) db w' db'" "nBackfill w < mx" "mx \<le> mxFrame (hdr w)" "marks_kept e w rs"
        "\<not> held e 0" "\<And>i. 1 \<le> i \<Longrightarrow> i < WAL_NREADER \<Longrightarrow> held e i \<Longrightarrow> mx \<le> aReadMark w ! i"
proof (cases "mxFrame (hdr w) \<le> nBackfill w \<or> \<not> ok1 \<or> \<not> ok2")
  case True
  have "w' = w \<and> db' = db"
  proof (cases "mxFrame (hdr w) \<le> nBackfill w")
    case False
    then have "walIteratorInit ok1 ok2 w = (SQLITE_NOMEM, None)" using True by (auto simp: walIteratorInit_def Let_def)
    then show ?thesis using run False by (simp add: walCheckpoint_def)
  qed (use run in \<open>simp add: walCheckpoint_def\<close>)
  then show thesis using idle [of "aReadMark w"] by (simp add: marks_kept_def)
next
  case False
  have ix: "index_ok w (map fst gs)" "1 \<le> mxFrame (hdr w)" "mxFrame (hdr w) \<le> length (map fst gs)" using w by (simp_all add: log_held_def)
  obtain p where p: "walIteratorInit ok1 ok2 w = (SQLITE_OK, Some p)" "iter_ok (map fst gs) (mxFrame (hdr w)) p" "iPrior p = 0"
    using walIteratorInit_ok [OF ix(1) refl ix(2,3)] False by auto
  obtain leave rc1 xb e1 w1 mx where marks: "ckpt_marks (eMode \<noteq> PASSIVE \<and> xBusyCall) e w (mxFrame (hdr w)) SQLITE_OK [1..<WAL_NREADER] = (leave, rc1, xb, e1, w1, mx)"
    by (metis prod.collapse)
  note m = ckpt_marks_spec [OF marks, simplified]
  define rs where "rs = aReadMark w1"
  have w1: "w1 = w\<lparr>aReadMark := rs\<rparr>" using m(2) by (simp add: rs_def)
  have kept: "marks_kept e w rs" unfolding marks_kept_def using m(3) by (auto simp: rs_def)
  obtain rc2 e2 where lock: "walBusyLock xb e1 (WAL_READ_LOCK 0) 1 = (rc2, e2)" by fastforce
  obtain rc3 w3 db3 where copy: "ckpt_copy sync_flags mx w1 db p = (rc3, w3, db3)" by (metis prod_cases3)
  show thesis
  proof (cases "\<not> leave \<and> nBackfill w1 < mx \<and> rc2 = SQLITE_OK")
    case True
    have "\<not> held e1 0" using walBusyLock_held [OF _ lock] True by auto
    then have free: "\<not> held e 0" using held_mono m(1) by blast
    have log: "log_held n gs w1" using w log_held_cong [of w1 w n gs] by (simp add: w1)
    have iter: "iter_ok (map fst gs) (mxFrame (hdr w1)) p" using p(2) by (simp add: w1)
    have "copied n gs mx w1 db w3 db3" using ckpt_copy_ok(1) [OF copy log iter p(3)] True by simp
    moreover have "w' = w3" "db' = db3"
      using run False p(1) marks lock copy True unfolding walCheckpoint_def Let_def by (simp_all split: if_split_asm prod.split_asm)
    moreover have "mx \<le> aReadMark w ! i" if "1 \<le> i" "i < WAL_NREADER" "held e i" for i using m(4) [of i] that True by simp
    ultimately show thesis using that(2) [of mx rs] m(1) kept free True w1 by simp
  next
    case idle_case: False
    then have "w' = w1" "db' = db"
      using run False p(1) marks lock idle_case unfolding walCheckpoint_def Let_def by (simp_all split: if_split_asm prod.split_asm)
    then show thesis using that(1) [of rs] w1 kept by simp
  qed
qed

lemma to_copy_marks [simp]: "to_copy gs (w\<lparr>aReadMark := rs\<rparr>) mx q = to_copy gs w mx q"
  by (simp add: to_copy_def)

text \<open>The state of a log that has been copied in part, and a reader of the log.\<close>

definition ckpt_inv :: "nat \<Rightarrow> frame list \<Rightarrow> Wal \<Rightarrow> bytes \<Rightarrow> bool" where
  "ckpt_inv n gs w db \<longleftrightarrow> log_held n gs w \<and> nBackfill w \<le> mxFrame (hdr w) \<and> mxFrame (hdr w) \<le> mxFrame (fst (aHdr w)) \<and>
     (\<forall>q. let f = last_frame (map fst gs) (mxFrame (hdr w)) q in
        q \<noteq> 0 \<longrightarrow> q \<le> nPage (hdr w) \<longrightarrow> 0 < f \<longrightarrow> f \<le> nBackfill w \<longrightarrow> db_page n db q = frame_data gs f)"



lemma copied_marks:
  "copied n gs mx (w\<lparr>aReadMark := rs\<rparr>) db w' db' \<Longrightarrow> hdr w' = hdr w \<and> aHdr w' = aHdr w \<and> aReadMark w' = rs \<and> log_held n gs w' = log_held n gs w"
proof -
  assume "copied n gs mx (w\<lparr>aReadMark := rs\<rparr>) db w' db'"
  then obtain fl nb where "w' = w\<lparr>aReadMark := rs, faults := fl, nBackfill := nb\<rparr>" by (auto simp: copied_def)
  then show ?thesis using log_held_cong [of w' w n gs] by simp
qed

lemma checkpoint_inv_step:
  assumes inv: "ckpt_inv n gs w db" and c: "copied n gs mx (w\<lparr>aReadMark := rs\<rparr>) db w' db'" and mx: "nBackfill w < mx" "mx \<le> mxFrame (hdr w)"
  shows "ckpt_inv n gs w' db'"
proof -
  let ?f = "last_frame (map fst gs) (mxFrame (hdr w))"
  note same = copied_marks [OF c]
  have nb: "nBackfill w' = nBackfill w \<or> nBackfill w' = mx" using c by (simp add: copied_def)
  have "db_page n db' q = frame_data gs (?f q)" if q: "q \<noteq> 0" "q \<le> nPage (hdr w)" "0 < ?f q" "?f q \<le> nBackfill w'" for q
  proof (cases "?f q \<le> nBackfill w")
    case True
    then have "db_page n db' q = db_page n db q" using c q by (auto simp: copied_def to_copy_def Let_def)
    then show ?thesis using inv q True by (auto simp: ckpt_inv_def Let_def)
  next
    case False
    then have "nBackfill w' = mx" using nb q(4) by auto
    then show ?thesis using c q False by (auto simp: copied_def to_copy_def Let_def)
  qed
  then show ?thesis using inv same nb mx by (auto simp: ckpt_inv_def Let_def)
qed

lemma checkpoint_runs:
  assumes run: "walCheckpoint True True eMode xBusyCall sync_flags w db e = (rc, w', db', e')" and w: "log_held n gs w"
    and more: "nBackfill w < mxFrame (hdr w)" and shared: "mxFrame (fst (aHdr w)) = mxFrame (hdr w)" and env: "no_locks e" "faults w = []"
  shows "rc = SQLITE_OK \<and> nBackfill w' = mxFrame (hdr w) \<and> length db' = unat (nPage (hdr w)) * n \<and>
    (\<exists>rs. copied n gs (mxFrame (hdr w)) (w\<lparr>aReadMark := rs\<rparr>) db w' db')"
proof -
  have ix: "index_ok w (map fst gs)" "1 \<le> mxFrame (hdr w)" "mxFrame (hdr w) \<le> length (map fst gs)" using w by (simp_all add: log_held_def)
  obtain p where p: "walIteratorInit True True w = (SQLITE_OK, Some p)" "iter_ok (map fst gs) (mxFrame (hdr w)) p" "iPrior p = 0"
    using walIteratorInit_ok [OF ix(1) refl ix(2,3)] by auto
  obtain rs where marks: "ckpt_marks (eMode \<noteq> PASSIVE \<and> xBusyCall) e w (mxFrame (hdr w)) SQLITE_OK [1..<WAL_NREADER] =
      (False, SQLITE_OK, eMode \<noteq> PASSIVE \<and> xBusyCall, e, w\<lparr>aReadMark := rs\<rparr>, mxFrame (hdr w))"
    using ckpt_marks_no_locks [OF env(1)] by blast
  let ?w = "w\<lparr>aReadMark := rs\<rparr>"
  obtain rc3 w3 db3 where copy: "ckpt_copy sync_flags (mxFrame (hdr w)) ?w db p = (rc3, w3, db3)" by (metis prod_cases3)
  have log: "log_held n gs ?w" using w log_held_cong [of ?w w n gs] by simp
  have iter: "iter_ok (map fst gs) (mxFrame (hdr ?w)) p" using p(2) by simp
  have more': "nBackfill ?w < mxFrame (hdr w)" using more by simp
  have c: "copied n gs (mxFrame (hdr w)) ?w db w3 db3"
    and ok: "rc3 = SQLITE_OK" "nBackfill w3 = mxFrame (hdr w)" "length db3 = unat (nPage (hdr w)) * n"
    using ckpt_copy_ok [OF copy log iter p(3) more'] env(2) shared by simp_all
  have "rc = SQLITE_OK" "w' = w3" "db' = db3"
    using run p(1) marks copy more ok walBusyLock_no_locks [OF env(1)] copied_marks [OF c] unfolding walCheckpoint_def Let_def
    by (simp_all split: if_split_asm prod.split_asm)
  then show ?thesis using c ok by blast
qed

section \<open>An example\<close>

definition example_frames :: "frame list" where
  "example_frames = [(3, replicate 512 7, 0), (5, replicate 512 8, 0), (3, replicate 512 9, 5)]"

definition example_ckpt :: Wal where
  "example_ckpt = example_log\<lparr>pWalFd := file_bytes 512 0 [1, 2, 3, 4, 5, 6, 7, 8] example_frames, aReadMark := [0, 2, 3, 0, 0]\<rparr>"

definition one_reader :: ckpt_env where
  "one_reader = \<lparr>view = (\<lambda>l _. if l = WAL_READ_LOCK 1 then SQLITE_BUSY else SQLITE_OK), views = []\<rparr>"

definition no_reader :: ckpt_env where
  "no_reader = \<lparr>view = (\<lambda>_ _. SQLITE_OK), views = []\<rparr>"

lemma example_ckpt_ok: "ckpt_inv 512 example_frames example_ckpt db"
proof -
  have "index_ok example_ckpt (map fst example_frames)"
    using example_log_ok(1) index_ok_cong [of example_ckpt example_log "[3, 5, 3]"] by (simp add: example_ckpt_def example_frames_def)
  moreover have "sized 512 example_frames" by (simp add: sized_def example_frames_def)
  moreover have "szPage16 (hdr example_ckpt) = size_code 512" using example_log_ok by (simp add: example_ckpt_def size_code_def)
  moreover have "\<exists>seq S tail. length S = 8 \<and> pWalFd example_ckpt = file_bytes 512 seq S example_frames @ tail"
    by (rule exI [of _ 0], rule exI [of _ "[1, 2, 3, 4, 5, 6, 7, 8]"], rule exI [of _ "[]"]) (simp add: example_ckpt_def)
  ultimately have "log_held 512 example_frames example_ckpt"
    using example_log_ok by (simp add: log_held_def page_size_def example_ckpt_def example_frames_def)
  then show ?thesis using example_log_ok by (simp add: ckpt_inv_def Let_def example_ckpt_def)
qed

section \<open>Properties\<close>

text \<open>
  C3: A checkpoint keeps the invariant of a partly copied log, whatever locks the other
  connections hold, whichever allocation or file operation fails and wherever a write is cut
  short: every frame up to nBackfill that is the latest of its page is in the database file;
  nBackfill does not decrease, and a page of the database that is not in the log keeps its
  content.
\<close>

theorem checkpoint_invariant:
  assumes "ckpt_inv n gs w db" and "walCheckpoint ok1 ok2 eMode xBusyCall sync_flags w db e = (rc, w', db', e')"
  shows "ckpt_inv n gs w' db' \<and> nBackfill w \<le> nBackfill w' \<and>
     (q \<noteq> 0 \<and> q \<le> nPage (hdr w) \<and> q \<notin> set (take (mxFrame (hdr w)) (map fst gs)) \<longrightarrow> db_page n db' q = db_page n db q)"
proof -
  have log: "log_held n gs w" using assms(1) by (simp add: ckpt_inv_def)
  from assms(2) log show ?thesis
  proof (cases rule: walCheckpoint_cases)
    case (idle rs)
    then show ?thesis using assms(1) log_held_cong [of w' w n gs] by (simp add: ckpt_inv_def)
  next
    case (copy rs mx)
    have "\<not> to_copy gs w mx q" if "q \<notin> set (take (mxFrame (hdr w)) (map fst gs))"
      using that last_frame_mem [of "map fst gs" "mxFrame (hdr w)" q] log by (auto simp: to_copy_def Let_def log_held_def)
    then show ?thesis using checkpoint_inv_step [OF assms(1) copy(1-3)] copy(1,2) by (auto simp: copied_def)
  qed
qed

theorem checkpoint_invariant_witness:
  "\<exists>rc w' db' e'. walCheckpoint True True FULL True 2 (example_ckpt\<lparr>faults := [(SQLITE_OK, 0), (SQLITE_FULL, 9)]\<rparr>) [] one_reader = (rc, w', db', e') \<and>
     ckpt_inv 512 example_frames w' db' \<and> nBackfill (example_ckpt\<lparr>faults := [(SQLITE_OK, 0), (SQLITE_FULL, 9)]\<rparr>) \<le> nBackfill w' \<and>
     ((4 :: u32) \<noteq> 0 \<and> 4 \<le> nPage (hdr (example_ckpt\<lparr>faults := [(SQLITE_OK, 0), (SQLITE_FULL, 9)]\<rparr>)) \<and>
        4 \<notin> set (take (mxFrame (hdr (example_ckpt\<lparr>faults := [(SQLITE_OK, 0), (SQLITE_FULL, 9)]\<rparr>))) (map fst example_frames))
      \<longrightarrow> db_page 512 db' 4 = db_page 512 [] 4)"
proof -
  let ?w = "example_ckpt\<lparr>faults := [(SQLITE_OK, 0), (SQLITE_FULL, 9)]\<rparr>"
  obtain rc w' db' e' where run: "walCheckpoint True True FULL True 2 ?w [] one_reader = (rc, w', db', e')" by (metis prod.collapse)
  have "ckpt_inv 512 example_frames ?w []" using example_ckpt_ok [of "[]"] by (simp add: ckpt_inv_def)
  from checkpoint_invariant [OF this run, of 4] run show ?thesis by blast
qed



text \<open>
  C20: A checkpoint that meets no lock and no fault ends: it returns SQLITE_OK in every mode,
  nBackfill reaches mxFrame, and the database file has nPage pages, each with the content of
  its latest frame, or its old content when it has none.
\<close>

theorem checkpoint_completes:
  assumes "ckpt_inv n gs w db" and "nBackfill w < mxFrame (hdr w)" and "mxFrame (fst (aHdr w)) = mxFrame (hdr w)"
    and "no_locks e" and "faults w = []"
  shows "\<exists>w' db' e'. walCheckpoint True True eMode xBusyCall sync_flags w db e = (SQLITE_OK, w', db', e') \<and>
     nBackfill w' = mxFrame (hdr w) \<and> length db' = unat (nPage (hdr w)) * n \<and>
     (\<forall>q. q \<noteq> 0 \<and> q \<le> nPage (hdr w) \<longrightarrow>
        db_page n db' q = (case last_frame (map fst gs) (mxFrame (hdr w)) q of 0 \<Rightarrow> db_page n db q | Suc k \<Rightarrow> fst (snd (gs ! k))))"
proof -
  obtain rc w' db' e' where run: "walCheckpoint True True eMode xBusyCall sync_flags w db e = (rc, w', db', e')" by (metis prod.collapse)
  have log: "log_held n gs w" using assms(1) by (simp add: ckpt_inv_def)
  note c = checkpoint_runs [OF run log assms(2-5)]
  obtain rs where cp: "copied n gs (mxFrame (hdr w)) (w\<lparr>aReadMark := rs\<rparr>) db w' db'" using c by blast
  have inv: "ckpt_inv n gs w' db'" by (rule checkpoint_inv_step [OF assms(1) cp]) (use assms(2) in simp_all)
  note same = copied_marks [OF cp]
  have "db_page n db' q = (case last_frame (map fst gs) (mxFrame (hdr w)) q of 0 \<Rightarrow> db_page n db q | Suc k \<Rightarrow> fst (snd (gs ! k)))"
    if q: "q \<noteq> 0" "q \<le> nPage (hdr w)" for q
  proof (cases "last_frame (map fst gs) (mxFrame (hdr w)) q")
    case 0
    then have "db_page n db' q = db_page n db q" using cp q by (simp add: copied_def to_copy_def Let_def)
    then show ?thesis using 0 by simp
  next
    case (Suc k)
    have "Suc k \<le> mxFrame (hdr w)" using last_frame_mem [of "map fst gs" "mxFrame (hdr w)" q] log Suc by (simp add: log_held_def)
    then show ?thesis using inv same c q Suc by (auto simp: ckpt_inv_def Let_def frame_data_def)
  qed
  then show ?thesis using run c by blast
qed

theorem checkpoint_completes_witness:
  "\<exists>w' db' e'. walCheckpoint True True RESTART True 2 example_ckpt [] no_reader = (SQLITE_OK, w', db', e') \<and>
     nBackfill w' = mxFrame (hdr example_ckpt) \<and> length db' = unat (nPage (hdr example_ckpt)) * 512 \<and>
     (\<forall>q. q \<noteq> 0 \<and> q \<le> nPage (hdr example_ckpt) \<longrightarrow>
        db_page 512 db' q = (case last_frame (map fst example_frames) (mxFrame (hdr example_ckpt)) q of 0 \<Rightarrow> db_page 512 [] q | Suc k \<Rightarrow> fst (snd (example_frames ! k))))"
  by (rule checkpoint_completes [OF example_ckpt_ok])
    (use example_log_ok in \<open>simp_all add: no_locks_def all_views_def no_reader_def example_ckpt_def\<close>)

end
