(* ===== verification/Btree_Bytes.thy ===== *)
theory Btree_Bytes
  imports Varint_Roundtrip
begin

text \<open>
  Bytes of a database page, the parameters of a b-tree file, and the pager as far as the b-tree
  uses it here: a store of pages whose get and write calls may fail.  Offsets and sizes, C integers
  that stay small, are natural numbers; what is stored in a field of 16 bits is written out modulo
  2^16.  A read or a write outside of the page is None, and so is a loop that does not end.
\<close>

section \<open>Bytes of a page\<close>

definition get2byte :: "bytes \<Rightarrow> nat \<Rightarrow> nat option" where
  "get2byte d i = do { a \<leftarrow> rd d i; b \<leftarrow> rd d (i + 1); Some (unat a * 256 + unat b) }"

definition get2byteNotZero :: "bytes \<Rightarrow> nat \<Rightarrow> nat option" where
  "get2byteNotZero d i = do { x \<leftarrow> get2byte d i; Some ((x + 0xffff) mod 0x10000 + 1) }"

definition mem_write :: "bytes \<Rightarrow> nat \<Rightarrow> bytes \<Rightarrow> bytes option" where
  "mem_write d off s = (if off + length s \<le> length d then Some (take off d @ s @ drop (off + length s) d) else None)"

definition mem_read :: "bytes \<Rightarrow> nat \<Rightarrow> nat \<Rightarrow> bytes option" where
  "mem_read d off n = (if off + n \<le> length d then Some (take n (drop off d)) else None)"

definition put2byte :: "bytes \<Rightarrow> nat \<Rightarrow> nat \<Rightarrow> bytes option" where
  "put2byte d i v = mem_write d i [of_nat (v div 256), of_nat v]"

section \<open>The file\<close>

record BtShared =
  bts_secure_delete :: bool
  autoVacuum :: bool
  max1bytePayload :: nat
  maxLocal :: nat
  minLocal :: nat
  maxLeaf :: nat
  minLeaf :: nat
  pageSize :: nat
  usableSize :: nat

text \<open>The limits that lockBtree computes from the usable size.\<close>

definition bt_limits :: "BtShared \<Rightarrow> BtShared" where
  "bt_limits pBt = pBt\<lparr>
     maxLocal := (usableSize pBt - 12) * 64 div 255 - 23,
     minLocal := (usableSize pBt - 12) * 32 div 255 - 23,
     maxLeaf := usableSize pBt - 35,
     minLeaf := (usableSize pBt - 12) * 32 div 255 - 23,
     max1bytePayload := (if 127 < (usableSize pBt - 12) * 64 div 255 - 23 then 127 else (usableSize pBt - 12) * 64 div 255 - 23)\<rparr>"

section \<open>The pager\<close>

text \<open>The results of the coming calls of sqlite3PagerGet and sqlite3PagerWrite; success at its end.\<close>

record Pager =
  dbPage :: "u32 \<Rightarrow> bytes"
  pgFaults :: "result_code list"

definition pager_next :: "Pager \<Rightarrow> result_code \<times> Pager" where
  "pager_next p = (case pgFaults p of [] \<Rightarrow> (SQLITE_OK, p) | rc # rcs \<Rightarrow> (rc, p\<lparr>pgFaults := rcs\<rparr>))"

definition sqlite3PagerGet :: "Pager \<Rightarrow> u32 \<Rightarrow> result_code \<times> Pager" where
  "sqlite3PagerGet p pgno = pager_next p"

definition sqlite3PagerWrite :: "Pager \<Rightarrow> result_code \<times> Pager" where
  "sqlite3PagerWrite p = pager_next p"

lemma pager_next_page [simp]: "pager_next p = (rc, p') \<Longrightarrow> dbPage p' = dbPage p"
  by (auto simp: pager_next_def split: list.splits)

section \<open>Two-byte fields\<close>

text \<open>The value of a field inside of the page.\<close>

definition b2 :: "bytes \<Rightarrow> nat \<Rightarrow> nat" where
  "b2 d i = unat (d ! i) * 256 + unat (d ! Suc i)"

lemma get2byte_b2: "i + 1 < length d \<Longrightarrow> get2byte d i = Some (b2 d i)"
  by (simp add: get2byte_def b2_def)

lemma unat_u8_less: "unat (x::u8) < 256"
  using unsigned_less [of x, where 'a = nat] by simp

lemma unat_u32_of_nat: "v < 4294967296 \<Longrightarrow> unat (of_nat v :: u32) = v"
  by (simp add: unat_of_nat take_bit_eq_mod)

lemma unat_u32_mult: "unat x * unat y < 4294967296 \<Longrightarrow> unat (x * y :: u32) = unat x * unat y"
  by (simp add: unat_word_ariths)

lemma unat_u32_add: "unat x + unat y < 4294967296 \<Longrightarrow> unat (x + y :: u32) = unat x + unat y"
  by (simp add: unat_word_ariths)

lemma unat_u32_diff: "unat y \<le> unat x \<Longrightarrow> unat (x - y :: u32) = unat x - unat y"
  by (simp add: unat_sub word_le_nat_alt)

lemma sint_u32_nonneg: "unat x < 2147483648 \<Longrightarrow> 0 \<le> sint (x :: u32)"
proof -
  assume "unat x < 2147483648"
  then have "unat (drop_bit 31 x) = 0" unfolding unat_drop_bit_eq by (simp add: drop_bit_eq_div)
  then have "drop_bit 31 x = 0" by (simp only: unsigned_eq_0_iff)
  then have "\<not> bit x 31" unfolding bit_iff_odd_drop_bit by simp
  then show ?thesis using bit_last_iff [of x] by simp
qed

lemma b2_less: "b2 d i < 65536"
  using unat_u8_less [of "d ! i"] unat_u8_less [of "d ! Suc i"] by (simp add: b2_def)

lemma b2_cong: "d' ! i = d ! i \<Longrightarrow> d' ! Suc i = d ! Suc i \<Longrightarrow> b2 d' i = b2 d i"
  by (simp add: b2_def)

lemma get2byteNotZero_b2:
  "i + 1 < length d \<Longrightarrow> get2byteNotZero d i = Some (if b2 d i = 0 then 65536 else b2 d i)"
  using b2_less [of d i] by (auto simp: get2byteNotZero_def get2byte_b2 mod_if)

section \<open>Writing bytes\<close>

lemma mem_write_ok: "off + length s \<le> length d \<Longrightarrow> \<exists>d'. mem_write d off s = Some d'"
  by (simp add: mem_write_def)

lemma mem_write_length: "mem_write d off s = Some d' \<Longrightarrow> length d' = length d \<and> off + length s \<le> length d"
  by (auto simp: mem_write_def split: if_splits)

lemma mem_write_nth:
  "mem_write d off s = Some d' \<Longrightarrow> i < length d \<Longrightarrow> d' ! i = (if off \<le> i \<and> i < off + length s then s ! (i - off) else d ! i)"
  by (auto simp: mem_write_def nth_append split: if_splits)

lemma put2byte_length: "put2byte d i v = Some d' \<Longrightarrow> length d' = length d"
  by (auto simp: put2byte_def dest: mem_write_length)

lemma put2byte_nth:
  "put2byte d i v = Some d' \<Longrightarrow> j < length d \<Longrightarrow> d' ! j = (if j = i then of_nat (v div 256) else if j = Suc i then of_nat v else d ! j)"
  unfolding put2byte_def using mem_write_nth [of d i "[of_nat (v div 256), of_nat v]" d' j] by (auto simp: nth_Cons' less_Suc_eq)

lemma put2byte_ok: "i + 1 < length d \<Longrightarrow> \<exists>d'. put2byte d i v = Some d'"
  by (simp add: put2byte_def mem_write_def)

lemma u16_split: "unat (of_nat (v div 256) :: u8) * 256 + unat (of_nat v :: u8) = v mod 65536"
  using mod_mult2_eq [of v 256 256] by (simp add: unat_of_nat take_bit_eq_mod)

lemma b2_put2byte: "put2byte d i v = Some d' \<Longrightarrow> i + 1 < length d \<Longrightarrow> b2 d' i = v mod 65536"
  by (simp add: b2_def put2byte_nth u16_split)

end
