(* ===== verification/Btree_Ptrmap.thy ===== *)
theory Btree_Ptrmap
  imports Btree_Bytes
begin

text \<open>
  The pointer map of an auto-vacuum database (btree.c): every page but page 1 and the map pages has
  an entry of five bytes, its type and its parent, on the last map page before it.
\<close>

section \<open>The model\<close>

abbreviation "PTRMAP_ROOTPAGE \<equiv> (1 :: u8)"
abbreviation "PTRMAP_FREEPAGE \<equiv> (2 :: u8)"
abbreviation "PTRMAP_OVERFLOW1 \<equiv> (3 :: u8)"
abbreviation "PTRMAP_OVERFLOW2 \<equiv> (4 :: u8)"
abbreviation "PTRMAP_BTREE \<equiv> (5 :: u8)"

definition PENDING_BYTE_PAGE :: "BtShared \<Rightarrow> u32" where
  "PENDING_BYTE_PAGE pBt = 0x40000000 div of_nat (pageSize pBt) + 1"

definition ptrmapPageno :: "BtShared \<Rightarrow> u32 \<Rightarrow> u32" where
  "ptrmapPageno pBt pgno =
     (if pgno < 2 then 0
      else
        (let nPagesPerMapPage = of_nat (usableSize pBt div 5 + 1);
             iPtrMap = (pgno - 2) div nPagesPerMapPage;
             ret = iPtrMap * nPagesPerMapPage + 2
         in if ret = PENDING_BYTE_PAGE pBt then ret + 1 else ret))"

definition PTRMAP_PTROFFSET :: "u32 \<Rightarrow> u32 \<Rightarrow> u32" where
  "PTRMAP_PTROFFSET pgptrmap pgno = 5 * (pgno - pgptrmap - 1)"

definition ptrmapPut :: "BtShared \<Rightarrow> Pager \<Rightarrow> u32 \<Rightarrow> u8 \<Rightarrow> u32 \<Rightarrow> (result_code \<times> Pager) option" where
  "ptrmapPut pBt p key eType parent =
     (if key = 0 then Some (SQLITE_CORRUPT, p)
      else do {
        let iPtrmap = ptrmapPageno pBt key;
        let (rc, p) = sqlite3PagerGet p iPtrmap;
        if rc \<noteq> SQLITE_OK then Some (rc, p)
        else do {
          let offset = PTRMAP_PTROFFSET iPtrmap key;
          if sint offset < 0 then Some (SQLITE_CORRUPT, p)
          else do {
            let pPtrmap = dbPage p iPtrmap;
            t \<leftarrow> rd pPtrmap (unat offset);
            old \<leftarrow> sqlite3Get4byte (drop (unat offset + 1) pPtrmap);
            if eType \<noteq> t \<or> old \<noteq> parent
            then do {
              let (rc, p) = sqlite3PagerWrite p;
              if rc = SQLITE_OK
              then do {
                data \<leftarrow> mem_write pPtrmap (unat offset) (eType # sqlite3Put4byte parent);
                Some (SQLITE_OK, p\<lparr>dbPage := (dbPage p)(iPtrmap := data)\<rparr>) }
              else Some (rc, p) }
            else Some (SQLITE_OK, p) } } })"

definition ptrmapGet :: "BtShared \<Rightarrow> Pager \<Rightarrow> u32 \<Rightarrow> (result_code \<times> u8 \<times> u32 \<times> Pager) option" where
  "ptrmapGet pBt p key = do {
     let iPtrmap = ptrmapPageno pBt key;
     let (rc, p) = sqlite3PagerGet p iPtrmap;
     if rc \<noteq> SQLITE_OK then Some (rc, 0, 0, p)
     else do {
       let offset = PTRMAP_PTROFFSET iPtrmap key;
       if sint offset < 0 then Some (SQLITE_CORRUPT, 0, 0, p)
       else do {
         let pPtrmap = dbPage p iPtrmap;
         t \<leftarrow> rd pPtrmap (unat offset);
         parent \<leftarrow> sqlite3Get4byte (drop (unat offset + 1) pPtrmap);
         Some (if t < 1 \<or> 5 < t then SQLITE_CORRUPT else SQLITE_OK, t, parent, p) } } }"

section \<open>The map pages\<close>

text \<open>The file has pages of a size that lockBtree accepts; the pages that have an entry.\<close>

definition bt_sizes :: "BtShared \<Rightarrow> bool" where
  "bt_sizes pBt \<longleftrightarrow> pageSize pBt \<in> {512, 1024, 2048, 4096, 8192, 16384, 32768, 65536} \<and> 480 \<le> usableSize pBt \<and> usableSize pBt \<le> pageSize pBt"

definition mapped_page :: "BtShared \<Rightarrow> u32 \<Rightarrow> bool" where
  "mapped_page pBt k \<longleftrightarrow> 2 < k \<and> k \<noteq> PENDING_BYTE_PAGE pBt \<and> ptrmapPageno pBt k \<noteq> k"

text \<open>The entry of page k as a map page and an offset.\<close>

definition map_pos :: "BtShared \<Rightarrow> nat \<Rightarrow> nat \<times> nat" where
  "map_pos pBt k =
     (let n = usableSize pBt div 5 + 1; r = (k - 2) div n * n + 2; m = (if r = unat (PENDING_BYTE_PAGE pBt) then r + 1 else r)
      in (m, 5 * (k - m - 1)))"

lemma pageSize_bounds: "bt_sizes pBt \<Longrightarrow> 512 \<le> pageSize pBt \<and> pageSize pBt \<le> 65536"
  by (auto simp: bt_sizes_def)

lemma pending_page: "bt_sizes pBt \<Longrightarrow> unat (PENDING_BYTE_PAGE pBt) = 0x40000000 div pageSize pBt + 1 \<and> unat (PENDING_BYTE_PAGE pBt) \<le> 2097153"
proof -
  assume s: "bt_sizes pBt"
  have size: "512 \<le> pageSize pBt" "pageSize pBt \<le> 65536" using pageSize_bounds [OF s] by auto
  have "0x40000000 div pageSize pBt \<le> 0x40000000 div 512" by (rule div_le_mono2) (use size in simp_all)
  then have le: "0x40000000 div pageSize pBt \<le> 2097152" by simp
  have "unat (of_nat (pageSize pBt) :: u32) = pageSize pBt" using size by (simp add: unat_u32_of_nat)
  then have d: "unat (0x40000000 div of_nat (pageSize pBt) :: u32) = 0x40000000 div pageSize pBt" by (simp add: unat_div_distrib)
  then have "unat (PENDING_BYTE_PAGE pBt) = 0x40000000 div pageSize pBt + 1"
    unfolding PENDING_BYTE_PAGE_def using unat_u32_add [of "0x40000000 div of_nat (pageSize pBt)" 1] le by simp
  then show ?thesis using le by simp
qed

lemma map_pos:
  assumes s: "bt_sizes pBt" and k: "mapped_page pBt k"
  shows "unat (ptrmapPageno pBt k) = fst (map_pos pBt (unat k))"
    and "unat (PTRMAP_PTROFFSET (ptrmapPageno pBt k) k) = snd (map_pos pBt (unat k))"
    and "0 \<le> sint (PTRMAP_PTROFFSET (ptrmapPageno pBt k) k)"
    and "snd (map_pos pBt (unat k)) + 5 \<le> usableSize pBt" and "fst (map_pos pBt (unat k)) < unat k"
proof -
  define n where "n = usableSize pBt div 5 + 1"
  define r where "r = (unat k - 2) div n * n + 2"
  define m where "m = (if r = unat (PENDING_BYTE_PAGE pBt) then r + 1 else r)"
  have n: "0 < n" "n \<le> 13108" using s pageSize_bounds [OF s] by (auto simp: bt_sizes_def n_def)
  have k2: "2 < unat k" using k by (simp add: mapped_page_def word_less_nat_alt)
  have r: "r \<le> unat k" "unat k < r + n" "2 \<le> r"
  proof -
    let ?q = "(unat k - 2) div n * n"
    have "?q + (unat k - 2) mod n = unat k - 2" "(unat k - 2) mod n < n" using n(1) by simp_all
    then have "?q \<le> unat k - 2" "unat k - 2 < ?q + n" by linarith+
    then show "r \<le> unat k" "unat k < r + n" "2 \<le> r" unfolding r_def using k2 by linarith+
  qed
  have pos: "map_pos pBt (unat k) = (m, 5 * (unat k - m - 1))" by (simp add: map_pos_def n_def r_def m_def Let_def)
  have un: "unat (of_nat n :: u32) = n" using n(2) by (simp add: unat_u32_of_nat)
  have sub: "unat (k - 2) = unat k - 2" using k2 by (simp add: unat_u32_diff)
  have w1: "unat ((k - 2) div of_nat n) = (unat k - 2) div n" by (simp add: unat_div_distrib un sub)
  have bound: "unat k < 4294967296" using unsigned_less [of k, where 'a = nat] by simp
  have "(unat k - 2) div n * n < 4294967296" using r(1) bound by (simp add: r_def)
  then have w2: "unat ((k - 2) div of_nat n * of_nat n) = (unat k - 2) div n * n"
    using unat_u32_mult [of "(k - 2) div of_nat n" "of_nat n"] by (simp only: w1 un)
  then have w3: "unat ((k - 2) div of_nat n * of_nat n + 2) = r"
    using unat_u32_add [of "(k - 2) div of_nat n * of_nat n" 2] r(1) bound by (simp add: r_def)
  have w4: "((k - 2) div of_nat n * of_nat n + 2 = PENDING_BYTE_PAGE pBt) = (r = unat (PENDING_BYTE_PAGE pBt))"
    using w3 by (simp add: word_unat_eq_iff)
  have no: "\<not> k < 2" using k2 by (simp add: word_less_nat_alt)
  have pm: "ptrmapPageno pBt k = (if (k - 2) div of_nat n * of_nat n + 2 = PENDING_BYTE_PAGE pBt then (k - 2) div of_nat n * of_nat n + 2 + 1
      else (k - 2) div of_nat n * of_nat n + 2)"
    unfolding ptrmapPageno_def Let_def n_def using no by (simp only: if_False)
  have w5: "unat (ptrmapPageno pBt k) = m"
  proof (cases "r = unat (PENDING_BYTE_PAGE pBt)")
    case True
    then have small: "r \<le> 2097153" using pending_page [OF s] by simp
    have "(k - 2) div of_nat n * of_nat n + 2 = PENDING_BYTE_PAGE pBt" using True w4 by blast
    then have "ptrmapPageno pBt k = (k - 2) div of_nat n * of_nat n + 2 + 1" unfolding pm by (rule if_P)
    moreover have "unat ((k - 2) div of_nat n * of_nat n + 2 + 1 :: u32) = r + 1" using unat_u32_add [of "(k - 2) div of_nat n * of_nat n + 2" 1] w3 small by simp
    ultimately show ?thesis using True by (simp add: m_def)
  next
    case False
    then have "(k - 2) div of_nat n * of_nat n + 2 \<noteq> PENDING_BYTE_PAGE pBt" using w4 by blast
    then have "ptrmapPageno pBt k = (k - 2) div of_nat n * of_nat n + 2" unfolding pm by (rule if_not_P)
    then show ?thesis using w3 False by (simp add: m_def)
  qed
  have mk: "m < unat k"
  proof -
    have "m \<noteq> unat k" using k w5 by (auto simp: mapped_page_def word_unat_eq_iff)
    moreover have "r = unat (PENDING_BYTE_PAGE pBt) \<Longrightarrow> r \<noteq> unat k" using k by (auto simp: mapped_page_def word_unat_eq_iff)
    ultimately show ?thesis using r(1) by (auto simp: m_def split: if_splits)
  qed
  have off: "5 * (unat k - m - 1) + 5 \<le> usableSize pBt"
  proof -
    have "unat k - m - 1 + 1 \<le> n - 1" using mk r(2) by (auto simp: m_def split: if_splits)
    then have "5 * (unat k - m - 1 + 1) \<le> 5 * (usableSize pBt div 5)" by (simp add: n_def)
    also have "\<dots> \<le> usableSize pBt" by simp
    finally show ?thesis by simp
  qed
  have us: "usableSize pBt \<le> 65536" using s pageSize_bounds [OF s] by (simp add: bt_sizes_def)
  have mk': "ptrmapPageno pBt k < k" using w5 mk by (simp add: word_less_nat_alt)
  have d: "unat (k - ptrmapPageno pBt k) = unat k - m" using unat_u32_diff [of "ptrmapPageno pBt k" k] mk w5 by simp
  have d1: "unat (k - ptrmapPageno pBt k - 1) = unat k - m - 1" using unat_u32_diff [of 1 "k - ptrmapPageno pBt k"] d mk by simp
  have w6: "unat (PTRMAP_PTROFFSET (ptrmapPageno pBt k) k) = 5 * (unat k - m - 1)"
    unfolding PTRMAP_PTROFFSET_def using unat_u32_mult [of 5 "k - ptrmapPageno pBt k - 1"] d1 off us by simp
  show "unat (ptrmapPageno pBt k) = fst (map_pos pBt (unat k))" "unat (PTRMAP_PTROFFSET (ptrmapPageno pBt k) k) = snd (map_pos pBt (unat k))"
    "snd (map_pos pBt (unat k)) + 5 \<le> usableSize pBt" "fst (map_pos pBt (unat k)) < unat k"
    using w5 w6 off mk by (simp_all add: pos)
  have "unat (PTRMAP_PTROFFSET (ptrmapPageno pBt k) k) < 2147483648" using w6 off us by simp
  then show "0 \<le> sint (PTRMAP_PTROFFSET (ptrmapPageno pBt k) k)"
    by (rule sint_u32_nonneg)
qed

lemma map_pos_apart:
  "bt_sizes pBt \<Longrightarrow> mapped_page pBt k \<Longrightarrow> mapped_page pBt k' \<Longrightarrow> k \<noteq> k' \<Longrightarrow> fst (map_pos pBt (unat k)) = fst (map_pos pBt (unat k')) \<Longrightarrow>
   snd (map_pos pBt (unat k)) + 5 \<le> snd (map_pos pBt (unat k')) \<or> snd (map_pos pBt (unat k')) + 5 \<le> snd (map_pos pBt (unat k))"
proof -
  assume a: "bt_sizes pBt" "mapped_page pBt k" "mapped_page pBt k'" "k \<noteq> k'" and m: "fst (map_pos pBt (unat k)) = fst (map_pos pBt (unat k'))"
  have "unat k \<noteq> unat k'" using a(4) word_unat_eq_iff by blast
  moreover have "snd (map_pos pBt j) = 5 * (j - fst (map_pos pBt j) - 1)" for j by (simp add: map_pos_def Let_def)
  ultimately show ?thesis using map_pos(5) [OF a(1,2)] map_pos(5) [OF a(1,3)] m by simp linarith
qed

section \<open>Entries\<close>

text \<open>What a reader of the map finds for a page.\<close>

definition ptrmap_entry :: "BtShared \<Rightarrow> Pager \<Rightarrow> u32 \<Rightarrow> (result_code \<times> u8 \<times> u32) option" where
  "ptrmap_entry pBt p k = map_option (\<lambda>(rc, t, parent, _). (rc, t, parent)) (ptrmapGet pBt (p\<lparr>pgFaults := []\<rparr>) k)"

definition entry_result :: "u8 \<Rightarrow> u32 \<Rightarrow> result_code \<times> u8 \<times> u32" where
  "entry_result t parent = (if t < 1 \<or> 5 < t then SQLITE_CORRUPT else SQLITE_OK, t, parent)"

lemma ptrmap_entry_bytes:
  assumes s: "bt_sizes pBt" and k: "mapped_page pBt k" and len: "\<forall>q. length (dbPage p q) = pageSize pBt"
  defines "m \<equiv> ptrmapPageno pBt k" and "off \<equiv> snd (map_pos pBt (unat k))"
  obtains parent where "sqlite3Get4byte (drop (off + 1) (dbPage p m)) = Some parent" "rd (dbPage p m) off = Some (dbPage p m ! off)"
    "ptrmap_entry pBt p k = Some (entry_result (dbPage p m ! off) parent)"
proof -
  note pos = map_pos [OF s k]
  have inside: "off + 5 \<le> length (dbPage p m)" using pos(4) len s by (simp add: off_def bt_sizes_def)
  then have t: "rd (dbPage p m) off = Some (dbPage p m ! off)" by simp
  have "\<exists>parent. sqlite3Get4byte (drop (off + 1) (dbPage p m)) = Some parent"
    using inside by (simp add: sqlite3Get4byte_def)
  then obtain parent where parent: "sqlite3Get4byte (drop (off + 1) (dbPage p m)) = Some parent" by blast
  have "ptrmap_entry pBt p k = Some (entry_result (dbPage p m ! off) parent)"
    using t parent pos(2,3) unfolding ptrmap_entry_def ptrmapGet_def sqlite3PagerGet_def pager_next_def m_def off_def
    by (simp add: entry_result_def Let_def)
  then show thesis using that parent t by blast
qed

text \<open>The five bytes of an entry decide it.\<close>

lemma Get4byte_cong:
  assumes "\<And>i. i < 4 \<Longrightarrow> d' ! (off + i) = d ! (off + i)" and "length d' = length d" and "off + 4 \<le> length d"
  shows "sqlite3Get4byte (drop off d') = sqlite3Get4byte (drop off d)"
  using assms(1) [of 0] assms(1) [of 1] assms(1) [of 2] assms(1) [of 3] assms(2,3)
  by (simp add: sqlite3Get4byte_def eval_nat_numeral)

section \<open>Properties\<close>

text \<open>
  C18: The pointer map is a map from pages to entries: ptrmapPut either fails and changes no
  entry, or changes the entry of its key to the given type and parent, as ptrmapGet reads it,
  and no other; whichever pager call fails.
\<close>

theorem ptrmap_map:
  assumes "bt_sizes pBt" and "mapped_page pBt key" and "\<forall>q. length (dbPage p q) = pageSize pBt"
  shows "\<exists>rc p'. ptrmapPut pBt p key eType parent = Some (rc, p') \<and> (\<forall>q. length (dbPage p' q) = pageSize pBt) \<and>
     (\<forall>k. mapped_page pBt k \<longrightarrow>
        ptrmap_entry pBt p' k = (if rc = SQLITE_OK \<and> k = key then Some (entry_result eType parent) else ptrmap_entry pBt p k))"
proof -
  define m where "m = ptrmapPageno pBt key"
  define off where "off = snd (map_pos pBt (unat key))"
  note pos = map_pos [OF assms(1,2)]
  obtain old where old: "sqlite3Get4byte (drop (off + 1) (dbPage p m)) = Some old" "rd (dbPage p m) off = Some (dbPage p m ! off)"
      "ptrmap_entry pBt p key = Some (entry_result (dbPage p m ! off) old)"
    using ptrmap_entry_bytes [OF assms] by (auto simp: m_def off_def)
  have inside: "off + 5 \<le> length (dbPage p m)" using pos(4) assms(1,3) by (simp add: off_def bt_sizes_def)
  have key: "key \<noteq> 0" using assms(2) by (auto simp: mapped_page_def)
  have same: "ptrmap_entry pBt q k = ptrmap_entry pBt p k" if "dbPage q = dbPage p" for q k
  proof -
    have "q\<lparr>pgFaults := []\<rparr> = p\<lparr>pgFaults := []\<rparr>" using that by simp
    then show ?thesis by (simp only: ptrmap_entry_def)
  qed
  obtain rc1 p1 where get: "sqlite3PagerGet p m = (rc1, p1)" by fastforce
  then have p1: "dbPage p1 = dbPage p" by (simp add: sqlite3PagerGet_def)
  obtain rc2 p2 where wr: "sqlite3PagerWrite p1 = (rc2, p2)" by fastforce
  then have p2: "dbPage p2 = dbPage p" using p1 by (simp add: sqlite3PagerWrite_def)
  obtain data where data: "mem_write (dbPage p m) off (eType # sqlite3Put4byte parent) = Some data"
    using mem_write_ok [of off "eType # sqlite3Put4byte parent" "dbPage p m"] inside by (auto simp: sqlite3Put4byte_def)
  have five: "length (eType # sqlite3Put4byte parent) = 5" by (simp add: sqlite3Put4byte_def)
  have len: "length data = length (dbPage p m)" using mem_write_length [OF data] by simp
  let ?p = "p2\<lparr>dbPage := (dbPage p2)(m := data)\<rparr>"
  have put: "ptrmapPut pBt p key eType parent = Some
      (if rc1 \<noteq> SQLITE_OK then (rc1, p1)
       else if eType \<noteq> dbPage p m ! off \<or> old \<noteq> parent then (if rc2 = SQLITE_OK then (SQLITE_OK, ?p) else (rc2, p2))
       else (SQLITE_OK, p1))"
    using key get wr old(1,2) data pos(2,3) unfolding ptrmapPut_def m_def off_def by (simp add: Let_def p1 p2 m_def)
  show ?thesis
  proof (cases "rc1 = SQLITE_OK \<and> (eType \<noteq> dbPage p m ! off \<or> old \<noteq> parent) \<and> rc2 = SQLITE_OK")
    case False
    then show ?thesis using put same [OF p1] same [OF p2] assms(3) p1 p2 old(3) by (auto split: if_splits)
  next
    case True
    have lens: "\<forall>q. length (dbPage ?p q) = pageSize pBt" using assms(3) len p2 by simp
    have "ptrmap_entry pBt ?p k = (if k = key then Some (entry_result eType parent) else ptrmap_entry pBt p k)" if k: "mapped_page pBt k" for k
    proof -
      define mk where "mk = ptrmapPageno pBt k"
      define ok where "ok = snd (map_pos pBt (unat k))"
      obtain a where a: "sqlite3Get4byte (drop (ok + 1) (dbPage ?p mk)) = Some a" "ptrmap_entry pBt ?p k = Some (entry_result (dbPage ?p mk ! ok) a)"
        using ptrmap_entry_bytes [OF assms(1) k lens] by (auto simp: mk_def ok_def)
      obtain b where b: "sqlite3Get4byte (drop (ok + 1) (dbPage p mk)) = Some b" "ptrmap_entry pBt p k = Some (entry_result (dbPage p mk ! ok) b)"
        using ptrmap_entry_bytes [OF assms(1) k assms(3)] by (auto simp: mk_def ok_def)
      show ?thesis
      proof (cases "k = key")
        case eq: True
        have "data = take off (dbPage p m) @ (eType # sqlite3Put4byte parent) @ drop (off + 5) (dbPage p m)"
          using data inside five unfolding mem_write_def by (simp only: if_True option.inject)
        moreover have "length (take off (dbPage p m)) = off" using inside by simp
        ultimately have d: "drop off data = eType # sqlite3Put4byte parent @ drop (off + 5) (dbPage p m)" by simp
        have "data ! off = drop off data ! 0" using inside len by simp
        then have "data ! off = eType" by (simp add: d)
        moreover have "drop (off + 1) data = drop 1 (drop off data)" by (simp add: add.commute)
        then have "drop (off + 1) data = sqlite3Put4byte parent @ drop (off + 5) (dbPage p m)" by (simp add: d)
        ultimately show ?thesis using a eq Get4byte_Put4byte by (simp add: mk_def ok_def m_def off_def)
      next
        case ne: False
        have "ptrmap_entry pBt ?p k = ptrmap_entry pBt p k"
        proof (cases "mk = m")
          case mm: True
          have "fst (map_pos pBt (unat k)) = fst (map_pos pBt (unat key))"
            using mm map_pos(1) [OF assms(1) k] pos(1) by (simp add: mk_def m_def)
          then have apart: "ok + 5 \<le> off \<or> off + 5 \<le> ok" using map_pos_apart [OF assms(1) k assms(2) ne] by (simp add: ok_def off_def)
          have in_k: "ok + 5 \<le> length (dbPage p m)" using map_pos(4) [OF assms(1) k] assms(1,3) by (simp add: ok_def bt_sizes_def)
          have bytes: "data ! (ok + i) = dbPage p m ! (ok + i)" if "i < 5" for i
          proof -
            have "\<not> (off \<le> ok + i \<and> ok + i < off + 5)" "ok + i < length (dbPage p m)" using apart in_k that by linarith+
            then show ?thesis using mem_write_nth [OF data, of "ok + i"] unfolding five by (simp only: if_False)
          qed
          have "sqlite3Get4byte (drop (ok + 1) data) = sqlite3Get4byte (drop (ok + 1) (dbPage p m))"
          proof (rule Get4byte_cong)
            show "data ! (ok + 1 + i) = dbPage p m ! (ok + 1 + i)" if "i < 4" for i using bytes [of "1 + i"] that by (simp add: add.assoc)
          qed (use in_k len in simp_all)
          then show ?thesis using a b mm bytes [of 0] p2 by simp
        next
          case False
          then show ?thesis using a b p2 by simp
        qed
        then show ?thesis using ne by simp
      qed
    qed
    then show ?thesis using put True lens by auto
  qed
qed

definition example_bt :: BtShared where
  "example_bt = bt_limits \<lparr>bts_secure_delete = False, autoVacuum = True, max1bytePayload = 0, maxLocal = 0, minLocal = 0, maxLeaf = 0,
     minLeaf = 0, pageSize = 512, usableSize = 512\<rparr>"

definition example_pager :: Pager where
  "example_pager = \<lparr>dbPage = (\<lambda>_. replicate 512 0), pgFaults = [SQLITE_OK, SQLITE_OK]\<rparr>"

theorem ptrmap_map_witness:
  "\<exists>rc p'. ptrmapPut example_bt example_pager 7 PTRMAP_BTREE 4 = Some (rc, p') \<and> (\<forall>q. length (dbPage p' q) = pageSize example_bt) \<and>
     (\<forall>k. mapped_page example_bt k \<longrightarrow>
        ptrmap_entry example_bt p' k = (if rc = SQLITE_OK \<and> k = 7 then Some (entry_result PTRMAP_BTREE 4) else ptrmap_entry example_bt example_pager k))"
  by (rule ptrmap_map)
    (simp_all add: example_bt_def bt_limits_def bt_sizes_def example_pager_def mapped_page_def ptrmapPageno_def PENDING_BYTE_PAGE_def Let_def)

end
