(* ===== verification/Btree_Page.thy ===== *)
theory Btree_Page
  imports Btree_Ptrmap
begin

text \<open>
  A b-tree page (btree.c): the size of a cell, and the space of a page: allocating and freeing
  bytes, collecting the free space, initialising a page, adding and removing cells.
\<close>

section \<open>The page and its cells\<close>

record MemPage =
  isInit :: bool
  intKey :: bool
  leaf :: bool
  hasData :: bool
  hdrOffset :: nat
  childPtrSize :: nat
  pgMax1byte :: nat            \<comment> \<open>max1bytePayload, maxLocal and minLocal of this struct\<close>
  pgMaxLocal :: nat
  pgMinLocal :: nat
  cellOffset :: nat
  nFree :: nat
  nCell :: nat
  maskPage :: nat
  ovfl :: "(nat \<times> bytes) list"   \<comment> \<open>aiOvfl and apOvfl, nOverflow is the length\<close>
  pBt :: BtShared
  aData :: bytes
  pgno :: u32

record CellInfo =
  nKey :: u64
  nData :: u32
  nPayload :: u32
  nHeader :: nat
  nLocal :: nat
  iOverflow :: nat
  nSize :: nat

definition btreeParseCellPtr :: "MemPage \<Rightarrow> bytes \<Rightarrow> CellInfo option" where
  "btreeParseCellPtr pPage pCell = do {
     (n, pay, data, key) \<leftarrow>
       (if intKey pPage
        then do {
          (n1, pay) \<leftarrow> (if hasData pPage then getVarint32 (drop (childPtrSize pPage) pCell) else Some (0, 0));
          (n2, key) \<leftarrow> sqlite3GetVarint (drop (childPtrSize pPage + n1) pCell);
          Some (childPtrSize pPage + n1 + n2, pay, pay, key) }
        else do {
          (n1, pay) \<leftarrow> getVarint32 (drop (childPtrSize pPage) pCell);
          Some (childPtrSize pPage + n1, pay, 0, ucast pay) });
     Some
       (if unat pay \<le> pgMaxLocal pPage
        then
          (let sz = (n + unat pay) mod 2 ^ 16 in
           \<lparr>nKey = key, nData = data, nPayload = pay, nHeader = n, nLocal = unat pay, iOverflow = 0, nSize = (if sz < 4 then 4 else sz)\<rparr>)
        else
          (let surplus = pgMinLocal pPage + (unat pay - pgMinLocal pPage) mod (usableSize (pBt pPage) - 4);
               loc = (if surplus \<le> pgMaxLocal pPage then surplus else pgMinLocal pPage) mod 2 ^ 16
           in \<lparr>nKey = key, nData = data, nPayload = pay, nHeader = n, nLocal = loc, iOverflow = (loc + n) mod 2 ^ 16,
               nSize = ((loc + n) mod 2 ^ 16 + 4) mod 2 ^ 16\<rparr>)) }"

text \<open>The do loop over the bytes of the key.\<close>

fun skip_key :: "nat \<Rightarrow> bytes \<Rightarrow> nat option" where
  "skip_key 0 p = Some 0"
| "skip_key (Suc k) p = do {
     b \<leftarrow> rd p 0;
     if b AND 0x80 \<noteq> 0 \<and> 0 < k then do { n \<leftarrow> skip_key k (tl p); Some (Suc n) } else Some 1 }"

definition cellSizePtr :: "MemPage \<Rightarrow> bytes \<Rightarrow> nat option" where
  "cellSizePtr pPage pCell = do {
     (i, sz) \<leftarrow>
       (if intKey pPage
        then do {
          (n1, sz) \<leftarrow> (if hasData pPage then getVarint32 (drop (childPtrSize pPage) pCell) else Some (0, 0));
          n2 \<leftarrow> skip_key 9 (drop (childPtrSize pPage + n1) pCell);
          Some (childPtrSize pPage + n1 + n2, sz) }
        else do {
          (n1, sz) \<leftarrow> getVarint32 (drop (childPtrSize pPage) pCell);
          Some (childPtrSize pPage + n1, sz) });
     let sz = unat sz;
     let sz = (if pgMaxLocal pPage < sz
               then (let s = pgMinLocal pPage + (sz - pgMinLocal pPage) mod (usableSize (pBt pPage) - 4)
                     in (if pgMaxLocal pPage < s then pgMinLocal pPage else s) + 4)
               else sz);
     let sz = sz + i;
     let sz = (if sz < 4 then 4 else sz);
     Some (sz mod 2 ^ 16) }"

text \<open>findCell, the address of a cell.\<close>

definition findCell :: "MemPage \<Rightarrow> nat \<Rightarrow> nat option" where
  "findCell pPage i = do { x \<leftarrow> get2byte (aData pPage) (cellOffset pPage + 2 * i); Some (maskPage pPage AND x) }"

section \<open>Space\<close>

abbreviation usable :: "MemPage \<Rightarrow> nat" where "usable p \<equiv> usableSize (pBt p)"

text \<open>The loop over the cells; the last component is cbrk.\<close>

fun defrag_cells :: "MemPage \<Rightarrow> bytes \<Rightarrow> nat list \<Rightarrow> bytes \<Rightarrow> nat \<Rightarrow> (result_code \<times> bytes \<times> nat) option" where
  "defrag_cells pPage temp [] data cbrk = Some (SQLITE_OK, data, cbrk)"
| "defrag_cells pPage temp (i # is) data cbrk = do {
     let iCellFirst = cellOffset pPage + 2 * nCell pPage;
     pc \<leftarrow> get2byte data (cellOffset pPage + 2 * i);
     if pc < iCellFirst \<or> usable pPage - 4 < pc then Some (SQLITE_CORRUPT, data, cbrk)
     else do {
       sz \<leftarrow> cellSizePtr pPage (drop pc temp);
       if cbrk < iCellFirst + sz \<or> usable pPage < pc + sz then Some (SQLITE_CORRUPT, data, cbrk - sz)
       else do {
         src \<leftarrow> mem_read temp pc sz;
         data \<leftarrow> mem_write data (cbrk - sz) src;
         data \<leftarrow> put2byte data (cellOffset pPage + 2 * i) (cbrk - sz);
         defrag_cells pPage temp is data (cbrk - sz) } } }"

definition defragmentPage :: "MemPage \<Rightarrow> bytes \<Rightarrow> (result_code \<times> MemPage) option" where
  "defragmentPage pPage temp = do {
     let hdr = hdrOffset pPage;
     let iCellFirst = cellOffset pPage + 2 * nCell pPage;
     cbrk \<leftarrow> get2byte (aData pPage) (hdr + 5);
     src \<leftarrow> (if cbrk \<le> usable pPage then mem_read (aData pPage) cbrk (usable pPage - cbrk) else None);
     temp \<leftarrow> mem_write temp cbrk src;
     (rc, data, cbrk) \<leftarrow> defrag_cells pPage temp [0..<nCell pPage] (aData pPage) (usable pPage);
     if rc \<noteq> SQLITE_OK then Some (rc, pPage\<lparr>aData := data\<rparr>)
     else do {
       data \<leftarrow> put2byte data (hdr + 5) cbrk;
       data \<leftarrow> mem_write data (hdr + 1) [0, 0];
       data \<leftarrow> mem_write data (hdr + 7) [0];
       data \<leftarrow> mem_write data iCellFirst (replicate (cbrk - iCellFirst) 0);
       Some (if cbrk - iCellFirst \<noteq> nFree pPage then SQLITE_CORRUPT else SQLITE_OK, pPage\<lparr>aData := data\<rparr>) } }"

text \<open>The search of the free list: None when no slot is large enough.\<close>

partial_function (option) alloc_search :: "MemPage \<Rightarrow> nat \<Rightarrow> nat \<Rightarrow> bytes \<Rightarrow> nat \<Rightarrow> (result_code \<times> bytes \<times> nat option) option" where
  "alloc_search pPage nByte nFrag data addr = do {
     pc \<leftarrow> get2byte data addr;
     if pc = 0 then Some (SQLITE_OK, data, None)
     else if usable pPage - 4 < pc \<or> pc < addr + 4 then Some (SQLITE_CORRUPT, data, None)
     else do {
       sz \<leftarrow> get2byte data (pc + 2);
       if nByte \<le> sz
       then
         (if sz - nByte < 4
          then do {
            link \<leftarrow> mem_read data pc 2;
            data \<leftarrow> mem_write data addr link;
            data \<leftarrow> mem_write data (hdrOffset pPage + 7) [of_nat (nFrag + (sz - nByte))];
            Some (SQLITE_OK, data, Some (pc + (sz - nByte))) }
          else if usable pPage < sz + pc then Some (SQLITE_CORRUPT, data, None)
          else do {
            data \<leftarrow> put2byte data (pc + 2) (sz - nByte);
            Some (SQLITE_OK, data, Some (pc + (sz - nByte))) })
       else alloc_search pPage nByte nFrag data pc } }"

text \<open>From the gap between the cell pointers and the content.\<close>

definition alloc_gap :: "MemPage \<Rightarrow> nat \<Rightarrow> nat \<Rightarrow> (result_code \<times> MemPage \<times> nat) option" where
  "alloc_gap pPage nByte iTop = do {
     data \<leftarrow> (if nByte \<le> iTop then put2byte (aData pPage) (hdrOffset pPage + 5) (iTop - nByte) else None);
     Some (SQLITE_OK, pPage\<lparr>aData := data\<rparr>, iTop - nByte) }"

definition alloc_top :: "MemPage \<Rightarrow> bytes \<Rightarrow> nat \<Rightarrow> nat \<Rightarrow> (result_code \<times> MemPage \<times> nat) option" where
  "alloc_top pPage temp nByte iTop = do {
     let gap = cellOffset pPage + 2 * nCell pPage;
     if iTop < gap + 2 + nByte
     then do {
       (rc, pPage) \<leftarrow> defragmentPage pPage temp;
       if rc \<noteq> SQLITE_OK then Some (rc, pPage, 0)
       else do { iTop \<leftarrow> get2byteNotZero (aData pPage) (hdrOffset pPage + 5); alloc_gap pPage nByte iTop } }
     else alloc_gap pPage nByte iTop }"

definition allocateSpace :: "MemPage \<Rightarrow> bytes \<Rightarrow> nat \<Rightarrow> (result_code \<times> MemPage \<times> nat) option" where
  "allocateSpace pPage temp nByte = do {
     let hdr = hdrOffset pPage;
     let gap = cellOffset pPage + 2 * nCell pPage;
     nFrag \<leftarrow> rd (aData pPage) (hdr + 7);
     iTop \<leftarrow> get2byteNotZero (aData pPage) (hdr + 5);
     if iTop < gap then Some (SQLITE_CORRUPT, pPage, 0)
     else if 60 \<le> unat nFrag
     then do {
       (rc, pPage) \<leftarrow> defragmentPage pPage temp;
       if rc \<noteq> SQLITE_OK then Some (rc, pPage, 0)
       else do { iTop \<leftarrow> get2byteNotZero (aData pPage) (hdr + 5); alloc_top pPage temp nByte iTop } }
     else if gap + 2 \<le> iTop
     then do {
       (rc, data, found) \<leftarrow> alloc_search pPage nByte (unat nFrag) (aData pPage) (hdr + 1);
       if rc \<noteq> SQLITE_OK then Some (rc, pPage\<lparr>aData := data\<rparr>, 0)
       else (case found of Some idx \<Rightarrow> Some (SQLITE_OK, pPage\<lparr>aData := data\<rparr>, idx) | None \<Rightarrow> alloc_top pPage temp nByte iTop) }
     else alloc_top pPage temp nByte iTop }"

text \<open>The place of a freed block in the list: the address of the link and the next block.\<close>

partial_function (option) free_find :: "bytes \<Rightarrow> nat \<Rightarrow> nat \<Rightarrow> (result_code \<times> nat \<times> nat) option" where
  "free_find data start addr = do {
     pbegin \<leftarrow> get2byte data addr;
     if pbegin < start \<and> 0 < pbegin
     then (if pbegin < addr + 4 then Some (SQLITE_CORRUPT, addr, pbegin) else free_find data start pbegin)
     else Some (SQLITE_OK, addr, pbegin) }"

partial_function (option) free_coalesce :: "nat \<Rightarrow> bytes \<Rightarrow> nat \<Rightarrow> (result_code \<times> bytes) option" where
  "free_coalesce hdr data addr = do {
     pbegin \<leftarrow> get2byte data addr;
     if pbegin = 0 then Some (SQLITE_OK, data)
     else do {
       pnext \<leftarrow> get2byte data pbegin;
       psize \<leftarrow> get2byte data (pbegin + 2);
       if pnext \<le> pbegin + psize + 3 \<and> 0 < pnext
       then do {
         nFrag \<leftarrow> rd data (hdr + 7);
         if pnext < pbegin + psize \<or> unat nFrag < pnext - (pbegin + psize) then Some (SQLITE_CORRUPT, data)
         else do {
           data \<leftarrow> mem_write data (hdr + 7) [nFrag - of_nat (pnext - (pbegin + psize))];
           x \<leftarrow> get2byte data pnext;
           data \<leftarrow> put2byte data pbegin x;
           x \<leftarrow> get2byte data (pnext + 2);
           data \<leftarrow> put2byte data (pbegin + 2) (pnext + x - pbegin);
           free_coalesce hdr data addr } }
       else free_coalesce hdr data pbegin } }"

definition freeSpace :: "MemPage \<Rightarrow> nat \<Rightarrow> nat \<Rightarrow> (result_code \<times> MemPage) option" where
  "freeSpace pPage start sz = do {
     let hdr = hdrOffset pPage;
     data \<leftarrow> (if bts_secure_delete (pBt pPage) then mem_write (aData pPage) start (replicate sz 0) else Some (aData pPage));
     (rc, addr, pbegin) \<leftarrow> free_find data start (hdr + 1);
     if rc \<noteq> SQLITE_OK \<or> usable pPage - 4 < pbegin then Some (SQLITE_CORRUPT, pPage\<lparr>aData := data\<rparr>)
     else do {
       data \<leftarrow> put2byte data addr start;
       data \<leftarrow> put2byte data start pbegin;
       data \<leftarrow> put2byte data (start + 2) sz;
       let pPage = pPage\<lparr>nFree := (nFree pPage + sz mod 2 ^ 16) mod 2 ^ 16\<rparr>;
       (rc, data) \<leftarrow> free_coalesce hdr data (hdr + 1);
       if rc \<noteq> SQLITE_OK then Some (rc, pPage\<lparr>aData := data\<rparr>)
       else do {
         pbegin \<leftarrow> get2byte data (hdr + 1);
         raw \<leftarrow> get2byte data (hdr + 5);
         if pbegin = raw
         then do {
           link \<leftarrow> mem_read data pbegin 2;
           data \<leftarrow> mem_write data (hdr + 1) link;
           x \<leftarrow> get2byte data (pbegin + 2);
           data \<leftarrow> put2byte data (hdr + 5) (raw + x);
           Some (SQLITE_OK, pPage\<lparr>aData := data\<rparr>) }
         else Some (SQLITE_OK, pPage\<lparr>aData := data\<rparr>) } } }"


section \<open>Initialising a page\<close>

definition PTF_INTKEY :: nat where "PTF_INTKEY = 1"
definition PTF_ZERODATA :: nat where "PTF_ZERODATA = 2"
definition PTF_LEAFDATA :: nat where "PTF_LEAFDATA = 4"
definition PTF_LEAF :: nat where "PTF_LEAF = 8"

definition decodeFlags :: "MemPage \<Rightarrow> nat \<Rightarrow> result_code \<times> MemPage" where
  "decodeFlags pPage flagByte =
     (let lf = flagByte div 8;
          flagByte = flagByte - (flagByte AND PTF_LEAF);
          pPage = pPage\<lparr>leaf := lf \<noteq> 0, childPtrSize := (260 - 4 * lf) mod 256\<rparr>
      in if flagByte = PTF_LEAFDATA + PTF_INTKEY
         then (SQLITE_OK, pPage\<lparr>intKey := True, hasData := lf \<noteq> 0, pgMaxLocal := maxLeaf (pBt pPage), pgMinLocal := minLeaf (pBt pPage),
                 pgMax1byte := max1bytePayload (pBt pPage)\<rparr>)
         else if flagByte = PTF_ZERODATA
         then (SQLITE_OK, pPage\<lparr>intKey := False, hasData := False, pgMaxLocal := maxLocal (pBt pPage), pgMinLocal := minLocal (pBt pPage),
                 pgMax1byte := max1bytePayload (pBt pPage)\<rparr>)
         else (SQLITE_CORRUPT, pPage))"

definition MX_CELL :: "BtShared \<Rightarrow> nat" where "MX_CELL bt = (pageSize bt - 8) div 6"

text \<open>The loop over the free blocks.\<close>

partial_function (option) init_free :: "bytes \<Rightarrow> nat \<Rightarrow> nat \<Rightarrow> nat \<Rightarrow> nat \<Rightarrow> (result_code \<times> nat) option" where
  "init_free data iCellFirst uSize pc nfree =
     (if pc = 0 then Some (SQLITE_OK, nfree)
      else if pc < iCellFirst \<or> uSize - 4 < pc then Some (SQLITE_CORRUPT, nfree)
      else do {
        nxt \<leftarrow> get2byte data pc;
        sz \<leftarrow> get2byte data (pc + 2);
        if 0 < nxt \<and> nxt \<le> pc + sz + 3 \<or> uSize < pc + sz then Some (SQLITE_CORRUPT, nfree)
        else init_free data iCellFirst uSize nxt (nfree + sz) })"

definition btreeInitPage :: "MemPage \<Rightarrow> (result_code \<times> MemPage) option" where
  "btreeInitPage pPage =
     (if isInit pPage then Some (SQLITE_OK, pPage)
      else do {
        let hdr = hdrOffset pPage;
        let data = aData pPage;
        flags \<leftarrow> rd data hdr;
        let (rc, pPage) = decodeFlags pPage (unat flags);
        if rc \<noteq> SQLITE_OK then Some (SQLITE_CORRUPT, pPage)
        else do {
          let pPage = pPage\<lparr>maskPage := pageSize (pBt pPage) - 1, ovfl := [], cellOffset := hdr + 12 - 4 * (if leaf pPage then 1 else 0)\<rparr>;
          iTop \<leftarrow> get2byteNotZero data (hdr + 5);
          n \<leftarrow> get2byte data (hdr + 3);
          let pPage = pPage\<lparr>nCell := n\<rparr>;
          if MX_CELL (pBt pPage) < n then Some (SQLITE_CORRUPT, pPage)
          else do {
            let iCellFirst = cellOffset pPage + 2 * n;
            pc \<leftarrow> get2byte data (hdr + 1);
            nFrag \<leftarrow> rd data (hdr + 7);
            (rc, nfree) \<leftarrow> init_free data iCellFirst (usable pPage) pc (unat nFrag + iTop);
            if rc \<noteq> SQLITE_OK \<or> usable pPage < nfree then Some (SQLITE_CORRUPT, pPage)
            else Some (SQLITE_OK, pPage\<lparr>nFree := (nfree + 2 ^ 16 - iCellFirst) mod 2 ^ 16, isInit := True\<rparr>) } } })"

definition zeroPage :: "MemPage \<Rightarrow> nat \<Rightarrow> MemPage option" where
  "zeroPage pPage flags = do {
     let hdr = hdrOffset pPage;
     let bt = pBt pPage;
     data \<leftarrow> (if bts_secure_delete bt then mem_write (aData pPage) hdr (replicate (usableSize bt - hdr) 0) else Some (aData pPage));
     data \<leftarrow> mem_write data hdr [of_nat flags];
     let first = hdr + 8 + 4 * (if flags AND PTF_LEAF = 0 then 1 else 0);
     data \<leftarrow> mem_write data (hdr + 1) [0, 0, 0, 0];
     data \<leftarrow> mem_write data (hdr + 7) [0];
     data \<leftarrow> put2byte data (hdr + 5) (usableSize bt);
     let pPage = snd (decodeFlags (pPage\<lparr>aData := data, nFree := (usableSize bt - first) mod 2 ^ 16\<rparr>) flags);
     Some (pPage\<lparr>cellOffset := first, ovfl := [], maskPage := pageSize bt - 1, nCell := 0, isInit := True\<rparr>) }"

section \<open>Cells\<close>

text \<open>The loops over the cell pointers move two bytes each.\<close>

fun copy_ptrs :: "bytes \<Rightarrow> (nat \<times> nat) list \<Rightarrow> bytes option" where
  "copy_ptrs data [] = Some data"
| "copy_ptrs data ((dst, src) # js) = do { s \<leftarrow> mem_read data src 2; data \<leftarrow> mem_write data dst s; copy_ptrs data js }"

definition dropCell :: "MemPage \<Rightarrow> nat \<Rightarrow> nat \<Rightarrow> (result_code \<times> MemPage) option" where
  "dropCell pPage idx sz = do {
     let hdr = hdrOffset pPage;
     pc \<leftarrow> get2byte (aData pPage) (cellOffset pPage + 2 * idx);
     iTop \<leftarrow> get2byte (aData pPage) (hdr + 5);
     if pc < iTop \<or> usable pPage < pc + sz then Some (SQLITE_CORRUPT, pPage)
     else do {
       (rc, pPage) \<leftarrow> freeSpace pPage pc sz;
       if rc \<noteq> SQLITE_OK then Some (rc, pPage)
       else do {
         data \<leftarrow> copy_ptrs (aData pPage) (map (\<lambda>j. (cellOffset pPage + 2 * j, cellOffset pPage + 2 * j + 2)) [idx..<nCell pPage - 1]);
         let n = (nCell pPage + 0xffff) mod 2 ^ 16;
         data \<leftarrow> put2byte data (hdr + 3) n;
         Some (SQLITE_OK, pPage\<lparr>aData := data, nCell := n, nFree := (nFree pPage + 2) mod 2 ^ 16\<rparr>) } } }"

definition ptrmapPutOvflPtr :: "MemPage \<Rightarrow> Pager \<Rightarrow> bytes \<Rightarrow> (result_code \<times> Pager) option" where
  "ptrmapPutOvflPtr pPage p pCell = do {
     info \<leftarrow> btreeParseCellPtr pPage pCell;
     if iOverflow info \<noteq> 0
     then do { pg \<leftarrow> sqlite3Get4byte (drop (iOverflow info) pCell); ptrmapPut (pBt pPage) p pg PTRMAP_OVERFLOW1 (pgno pPage) }
     else Some (SQLITE_OK, p) }"

text \<open>With iChild the first four bytes of the cell are replaced, on the page or in the overflow cell;
  pTemp, where the caller has given one, only says where an overflow cell is kept.\<close>

definition insertCell ::
  "MemPage \<Rightarrow> Pager \<Rightarrow> bytes \<Rightarrow> nat \<Rightarrow> bytes \<Rightarrow> nat \<Rightarrow> u32 \<Rightarrow> (result_code \<times> MemPage \<times> Pager) option" where
  "insertCell pPage p temp i pCell sz iChild = do {
     cell \<leftarrow> (if iChild \<noteq> 0 then do { rest \<leftarrow> mem_read pCell 4 (sz - 4); Some (sqlite3Put4byte iChild @ rest) } else mem_read pCell 0 sz);
     if ovfl pPage \<noteq> [] \<or> nFree pPage < sz + 2
     then (if length (ovfl pPage) < 5 then Some (SQLITE_OK, pPage\<lparr>ovfl := ovfl pPage @ [(i, cell)]\<rparr>, p) else None)
     else do {
       let (rc, p) = sqlite3PagerWrite p;
       if rc \<noteq> SQLITE_OK then Some (rc, pPage, p)
       else do {
         (rc, pPage, idx) \<leftarrow> allocateSpace pPage temp sz;
         if rc \<noteq> SQLITE_OK then Some (rc, pPage, p)
         else do {
           data \<leftarrow> mem_write (aData pPage) idx cell;
           data \<leftarrow> copy_ptrs data (map (\<lambda>j. (cellOffset pPage + 2 * j + 2, cellOffset pPage + 2 * j)) (rev [i..<nCell pPage]));
           data \<leftarrow> put2byte data (cellOffset pPage + 2 * i) idx;
           data \<leftarrow> put2byte data (hdrOffset pPage + 3) (nCell pPage + 1);
           let pPage = pPage\<lparr>aData := data, nCell := nCell pPage + 1, nFree := nFree pPage - (2 + sz)\<rparr>;
           if autoVacuum (pBt pPage)
           then do { (rc, p) \<leftarrow> ptrmapPutOvflPtr pPage p pCell; Some (rc, pPage, p) }
           else Some (SQLITE_OK, pPage, p) } } } }"

text \<open>From the last cell to the first; the second component is cellbody.\<close>

fun assemble_cells :: "nat \<Rightarrow> (nat \<times> bytes) list \<Rightarrow> bytes \<Rightarrow> nat \<Rightarrow> (bytes \<times> nat) option" where
  "assemble_cells off [] data cellbody = Some (data, cellbody)"
| "assemble_cells off ((i, c) # cs) data cellbody = do {
     data \<leftarrow> (if length c \<le> cellbody then put2byte data (off + 2 * i) (cellbody - length c) else None);
     data \<leftarrow> mem_write data (cellbody - length c) c;
     assemble_cells off cs data (cellbody - length c) }"

definition assemblePage :: "MemPage \<Rightarrow> bytes list \<Rightarrow> MemPage option" where
  "assemblePage pPage apCell = do {
     let hdr = hdrOffset pPage;
     let n = length apCell;
     (data, cellbody) \<leftarrow> assemble_cells (cellOffset pPage) (rev (zip [0..<n] apCell)) (aData pPage) (usable pPage);
     data \<leftarrow> put2byte data (hdr + 3) n;
     data \<leftarrow> put2byte data (hdr + 5) cellbody;
     Some (pPage\<lparr>aData := data, nFree := (nFree pPage + 2 ^ 16 - (n * 2 + usable pPage - cellbody) mod 2 ^ 16) mod 2 ^ 16, nCell := n mod 2 ^ 16\<rparr>) }"

end
