(* ===== verification/Btree_Cell.thy ===== *)
theory Btree_Cell
  imports Btree_Page
begin

text \<open>
  The size of a cell: the two routines that compute it agree, and the bytes of the cell itself
  determine it.
\<close>

section \<open>Reading the header of a cell\<close>

text \<open>A varint is a prefix that decides itself.\<close>

lemma varint_ref_local:
  "varint_ref n acc p = Some (m, v) \<Longrightarrow> n \<le> 8 \<Longrightarrow>
     n < m \<and> m \<le> 9 \<and> (\<exists>h t. p = h @ t \<and> length h = m - n \<and> (\<forall>q. varint_ref n acc (h @ q) = Some (m, v)))"
proof (induction n acc p rule: varint_ref.induct)
  case (2 n acc b p)
  show ?case
  proof (cases "n = 8 \<or> \<not> bit b 7")
    case True
    then have "m = Suc n" "\<forall>q. varint_ref n acc ([b] @ q) = Some (m, v)" using "2.prems" by (auto split: if_splits)
    then show ?thesis using "2.prems"(2) by (intro conjI exI [of _ "[b]"] exI [of _ p]) auto
  next
    case False
    then have n: "n < 8" "bit b 7" using "2.prems"(2) by auto
    then obtain h t where ih: "Suc n < m" "m \<le> 9" "p = h @ t" "length h = m - Suc n"
      "\<forall>q. varint_ref (Suc n) (push_bit 7 acc OR ucast (b AND 0x7f)) (h @ q) = Some (m, v)"
      using "2.IH" "2.prems" by auto
    then show ?thesis using n by (intro conjI exI [of _ "b # h"] exI [of _ t]) auto
  qed
qed simp

lemma GetVarint_local:
  assumes "sqlite3GetVarint p = Some (m, v)"
  obtains h t where "p = h @ t" "length h = m" "1 \<le> m" "m \<le> 9" "\<And>q. sqlite3GetVarint (h @ q) = Some (m, v)"
  using varint_ref_local [of 0 0 p m v] assms by (auto simp: GetVarint_eq_ref Suc_le_eq)

lemma getVarint32_local:
  assumes "getVarint32 p = Some (m, v)"
  obtains h t where "p = h @ t" "length h = m" "1 \<le> m" "m \<le> 9" "\<And>q. getVarint32 (h @ q) = Some (m, v)"
proof -
  obtain w where w: "sqlite3GetVarint p = Some (m, w)" "clamp_u32 (m, w) = (m, v)"
    using assms by (auto simp: getVarint32_clamp clamp_u32_def)
  obtain h t where "p = h @ t" "length h = m" "1 \<le> m" "m \<le> 9" "\<And>q. sqlite3GetVarint (h @ q) = Some (m, w)"
    using w(1) by (rule GetVarint_local) blast
  then show thesis using that w(2) by (simp add: getVarint32_clamp)
qed

lemma skip_key_ref: "n \<le> 8 \<Longrightarrow> skip_key (9 - n) p = map_option (\<lambda>(m, _). m - n) (varint_ref n acc p)"
proof (induction n acc p rule: varint_ref.induct)
  case (1 n acc)
  then have "9 - n = Suc (8 - n)" by simp
  then show ?case by simp
next
  case (2 n acc b p)
  have e: "9 - n = Suc (8 - n)" using "2.prems" by simp
  show ?case
  proof (cases "n = 8 \<or> \<not> bit b 7")
    case True
    then show ?thesis unfolding e using "2.prems" by (auto simp: flag_clear)
  next
    case False
    then have n: "n < 8" "bit b 7" using "2.prems" by auto
    have "skip_key (9 - Suc n) p = map_option (\<lambda>(m, _). m - Suc n) (varint_ref (Suc n) (push_bit 7 acc OR ucast (b AND 0x7f)) p)"
      using "2.IH" n by auto
    moreover have "9 - Suc n = 8 - n" by simp
    ultimately have ih: "skip_key (8 - n) p = map_option (\<lambda>(m, _). m - Suc n) (varint_ref (Suc n) (push_bit 7 acc OR ucast (b AND 0x7f)) p)"
      by simp
    show ?thesis
    proof (cases "varint_ref (Suc n) (push_bit 7 acc OR ucast (b AND 0x7f)) p")
      case None
      then show ?thesis unfolding e using n ih by (simp add: flag_clear)
    next
      case (Some mv)
      obtain m v where mv: "mv = (m, v)" by fastforce
      have "Suc n < m" using varint_ref_local [OF Some [unfolded mv]] n(1) by simp
      then show ?thesis unfolding e using n ih Some mv by (simp add: flag_clear)
    qed
  qed
qed

lemma skip_key_GetVarint: "skip_key 9 p = map_option fst (sqlite3GetVarint p)"
  using skip_key_ref [of 0 p 0] by (simp add: GetVarint_eq_ref case_prod_beta')

text \<open>The length of the header and of the payload.\<close>

definition cell_head :: "MemPage \<Rightarrow> bytes \<Rightarrow> (nat \<times> u32) option" where
  "cell_head pPage pCell =
     (if intKey pPage
      then do {
        (n1, sz) \<leftarrow> (if hasData pPage then getVarint32 (drop (childPtrSize pPage) pCell) else Some (0, 0));
        (n2, key) \<leftarrow> sqlite3GetVarint (drop (childPtrSize pPage + n1) pCell);
        Some (childPtrSize pPage + n1 + n2, sz) }
      else do {
        (n1, sz) \<leftarrow> getVarint32 (drop (childPtrSize pPage) pCell);
        Some (childPtrSize pPage + n1, sz) })"

definition head_size :: "MemPage \<Rightarrow> nat \<times> u32 \<Rightarrow> nat" where
  "head_size pPage = (\<lambda>(n, pay).
     (if pgMaxLocal pPage < unat pay
      then (let s = pgMinLocal pPage + (unat pay - pgMinLocal pPage) mod (usable pPage - 4)
            in (if pgMaxLocal pPage < s then pgMinLocal pPage else s) + 4 + n)
      else (if unat pay + n < 4 then 4 else unat pay + n)))"

text \<open>What lockBtree makes sure of.\<close>

definition local_ok :: "MemPage \<Rightarrow> bool" where
  "local_ok pPage \<longleftrightarrow> childPtrSize pPage \<le> 4 \<and> pgMinLocal pPage \<le> pgMaxLocal pPage \<and> pgMaxLocal pPage \<le> 65501"

lemma drop_eq_append: "drop c p = h @ t \<Longrightarrow> h \<noteq> [] \<Longrightarrow> p = take c p @ h @ t \<and> length (take c p) = c"
  using append_take_drop_id [of c p] by (cases "c \<le> length p") auto

lemma cell_head_local:
  assumes "cell_head P p = Some (n, pay)" and "local_ok P"
  obtains h t where "p = h @ t" "length h = n" "1 \<le> n" "n \<le> 22" "\<And>q. cell_head P (h @ q) = Some (n, pay)"
proof -
  let ?c = "childPtrSize P"
  have c: "?c \<le> 4" using assms(2) by (simp add: local_ok_def)
  show thesis
  proof (cases "intKey P")
    case False
    then obtain n1 where g: "getVarint32 (drop ?c p) = Some (n1, pay)" "n = ?c + n1"
      using assms(1) by (auto simp: cell_head_def split: Option.bind_splits)
    obtain h t where h: "drop ?c p = h @ t" "length h = n1" "1 \<le> n1" "n1 \<le> 9" "\<And>q. getVarint32 (h @ q) = Some (n1, pay)"
      using g(1) by (rule getVarint32_local) blast
    then have p: "p = take ?c p @ h @ t" "length (take ?c p) = ?c" using drop_eq_append [OF h(1)] h(2,3) by fastforce+
    have "cell_head P ((take ?c p @ h) @ q) = Some (n, pay)" for q
      using False p(2) h(5) g(2) by (simp add: cell_head_def)
    then show thesis using that [of "take ?c p @ h" t] p h g(2) c by simp
  next
    case True
    obtain n1 n2 key where g: "(if hasData P then getVarint32 (drop ?c p) else Some (0, 0)) = Some (n1, pay)"
        "sqlite3GetVarint (drop (?c + n1) p) = Some (n2, key)" "n = ?c + n1 + n2"
      using assms(1) True by (auto simp: cell_head_def split: Option.bind_splits)
    obtain h2 t2 where h2: "drop (?c + n1) p = h2 @ t2" "length h2 = n2" "1 \<le> n2" "n2 \<le> 9" "\<And>q. sqlite3GetVarint (h2 @ q) = Some (n2, key)"
      using g(2) by (rule GetVarint_local) blast
    then have p: "p = take (?c + n1) p @ h2 @ t2" "length (take (?c + n1) p) = ?c + n1" using drop_eq_append [OF h2(1)] h2(2,3) by fastforce+
    have first: "(if hasData P then getVarint32 (drop ?c (take (?c + n1) p @ q)) else Some (0, 0)) = Some (n1, pay) \<and> n1 \<le> 9" for q
    proof (cases "hasData P")
      case True
      then obtain h t where h: "drop ?c p = h @ t" "length h = n1" "n1 \<le> 9" "\<And>q. getVarint32 (h @ q) = Some (n1, pay)"
        using g(1) getVarint32_local [of "drop ?c p" n1 pay] by metis
      have "drop ?c (take (?c + n1) p) = take n1 (drop ?c p)" by (simp add: take_drop add.commute)
      also have "\<dots> = h" using h(1,2) by simp
      finally show ?thesis using True h(3,4) p(2) by simp
    qed (use g(1) in simp)
    have "cell_head P ((take (?c + n1) p @ h2) @ q) = Some (n, pay)" for q
    proof -
      define a where "a = take (?c + n1) p"
      have "drop (?c + n1) (a @ h2 @ q) = h2 @ q" using p(2) by (simp add: a_def)
      then show ?thesis unfolding cell_head_def a_def [symmetric] using first [of "h2 @ q", folded a_def] h2(5)
        by (simp only: True if_True append_assoc Option.bind.simps prod.case g(3))
    qed
    then show thesis using that [of "take (?c + n1) p @ h2" t2] p h2 g(3) c first [of "[]"] by simp
  qed
qed

lemma head_size_bounds:
  assumes "local_ok P" and "n \<le> 22"
  shows "4 \<le> head_size P (n, pay)" "n \<le> head_size P (n, pay)" "head_size P (n, pay) < 65536"
  using assms by (auto simp: head_size_def local_ok_def Let_def)

lemma bind_key: "map_option fst x \<bind> f = x \<bind> (\<lambda>(n, _). f n)"
  by (cases x) auto

lemma cellSizePtr_head:
  assumes ok: "local_ok P"
  shows "cellSizePtr P p = map_option (head_size P) (cell_head P p)"
proof -
  have "cellSizePtr P p = cell_head P p \<bind> (\<lambda>(n, pay). Some (head_size P (n, pay) mod 65536))"
    unfolding cellSizePtr_def cell_head_def head_size_def skip_key_GetVarint bind_key Let_def
    by (cases "intKey P") (auto simp: algebra_simps split: Option.bind_splits prod.splits)
  then show ?thesis
  proof (cases "cell_head P p")
    case (Some np)
    obtain n pay where np: "np = (n, pay)" by fastforce
    have "n \<le> 22" using cell_head_local [OF Some [unfolded np] ok] by blast
    then have "head_size P np mod 65536 = head_size P np" using head_size_bounds(3) [OF ok, of n pay] by (simp add: np)
    then show ?thesis using \<open>cellSizePtr P p = _\<close> Some by (simp add: np)
  qed simp
qed

text \<open>The bytes of a cell as long as its size.\<close>

definition is_cell :: "MemPage \<Rightarrow> bytes \<Rightarrow> bool" where
  "is_cell P c \<longleftrightarrow> cellSizePtr P c = Some (length c)"

lemma cellSizePtr_local:
  assumes ok: "local_ok P" and s: "cellSizePtr P p = Some s"
  shows "4 \<le> s" "s < 65536" "cellSizePtr P (take s p @ q) = Some s"
proof -
  obtain n pay where h: "cell_head P p = Some (n, pay)" "s = head_size P (n, pay)" using s by (auto simp: cellSizePtr_head [OF ok])
  obtain a b where a: "p = a @ b" "length a = n" "1 \<le> n" "n \<le> 22" "\<And>q. cell_head P (a @ q) = Some (n, pay)"
    using h(1) ok by (rule cell_head_local) blast
  note bounds = head_size_bounds [OF ok a(4), of pay]
  have "take s p @ q = a @ (take (s - n) b @ q)" using a(1,2) bounds(2) h(2) by simp
  then show "4 \<le> s" "s < 65536" "cellSizePtr P (take s p @ q) = Some s"
    using bounds a(5) h(2) by (simp_all add: cellSizePtr_head [OF ok])
qed

lemma is_cellD:
  assumes "local_ok P" and "is_cell P c"
  shows "4 \<le> length c" "length c < 65536" "cellSizePtr P (c @ q) = Some (length c)"
  using cellSizePtr_local [OF assms(1) assms(2) [unfolded is_cell_def]] by simp_all

definition parse_size :: "MemPage \<Rightarrow> nat \<times> u32 \<Rightarrow> nat" where
  "parse_size P = (\<lambda>(n, pay).
     (if unat pay \<le> pgMaxLocal P
      then (let sz = (n + unat pay) mod 65536 in if sz < 4 then 4 else sz)
      else
        (let surplus = pgMinLocal P + (unat pay - pgMinLocal P) mod (usable P - 4);
             loc = (if surplus \<le> pgMaxLocal P then surplus else pgMinLocal P) mod 65536
         in ((loc + n) mod 65536 + 4) mod 65536)))"

lemma parse_size: "local_ok P \<Longrightarrow> n \<le> 22 \<Longrightarrow> parse_size P (n, pay) = head_size P (n, pay)"
  by (auto simp: parse_size_def head_size_def local_ok_def Let_def)

lemma ParseCell_size: "map_option nSize (btreeParseCellPtr P p) = map_option (parse_size P) (cell_head P p)"
  unfolding btreeParseCellPtr_def cell_head_def parse_size_def
  by (cases "intKey P"; cases "hasData P") (simp_all add: Let_def split: Option.bind_split prod.split)

section \<open>Properties\<close>

text \<open>
  C19: cellSizePtr, which only skips the key, computes on every cell the size that the full
  parse of btreeParseCellPtr yields.
\<close>

theorem cellSizePtr_ParseCell:
  assumes "local_ok P"
  shows "cellSizePtr P p = map_option nSize (btreeParseCellPtr P p)"
proof -
  have "map_option nSize (btreeParseCellPtr P p) = map_option (parse_size P) (cell_head P p)" by (rule ParseCell_size)
  also have "\<dots> = map_option (head_size P) (cell_head P p)"
  proof (cases "cell_head P p")
    case (Some np)
    obtain n pay where np: "np = (n, pay)" by fastforce
    have "n \<le> 22" using cell_head_local [OF Some [unfolded np] assms] by blast
    then show ?thesis using parse_size [OF assms] Some np by simp
  qed simp
  finally show ?thesis by (simp add: cellSizePtr_head [OF assms])
qed

definition example_leaf :: MemPage where
  "example_leaf = \<lparr>isInit = True, intKey = True, leaf = True, hasData = True, hdrOffset = 0, childPtrSize = 0, pgMax1byte = 102,
     pgMaxLocal = 477, pgMinLocal = 39, cellOffset = 8, nFree = 504, nCell = 0, maskPage = 511, ovfl = [], pBt = example_bt, aData = [], pgno = 2\<rparr>"

theorem cellSizePtr_ParseCell_witness:
  "cellSizePtr example_leaf [135, 104, 5] = map_option nSize (btreeParseCellPtr example_leaf [135, 104, 5])"
  by (rule cellSizePtr_ParseCell) (simp add: local_ok_def example_leaf_def)

end
