(* ===== verification/Btree_Space.thy ===== *)
theory Btree_Space
  imports Btree_Cell
begin

text \<open>
  The space of a b-tree page: below the content the gap, in the content the used regions, the free
  blocks in a list by ascending address with at least four bytes between them, and fragments, which
  are counted only.
\<close>

section \<open>Regions\<close>

type_synonym region = "nat \<times> nat"    \<comment> \<open>the first byte and the size\<close>

definition apart :: "region \<Rightarrow> region \<Rightarrow> bool" where
  "apart r s \<longleftrightarrow> fst r + snd r \<le> fst s \<or> fst s + snd s \<le> fst r"

definition inside :: "nat \<Rightarrow> region \<Rightarrow> bool" where
  "inside i r \<longleftrightarrow> fst r \<le> i \<and> i < fst r + snd r"

lemma apart_sym: "apart r s \<longleftrightarrow> apart s r"
  by (auto simp: apart_def)

lemma apart_sub: "apart r s \<Longrightarrow> fst r \<le> fst r' \<Longrightarrow> fst r' + snd r' \<le> fst r + snd r \<Longrightarrow> apart r' s"
  by (auto simp: apart_def)

lemma apart_inside: "apart r s \<Longrightarrow> inside i r \<Longrightarrow> \<not> inside i s"
  by (auto simp: apart_def inside_def)

text \<open>The blocks of the list; g is the least distance between two of them.\<close>

fun ascending :: "nat \<Rightarrow> nat \<Rightarrow> region list \<Rightarrow> bool" where
  "ascending g lo [] = True"
| "ascending g lo ((p, s) # fs) = (lo \<le> p \<and> 4 \<le> s \<and> ascending g (p + s + g) fs)"

lemma ascending_mono: "ascending g lo fs \<Longrightarrow> lo' \<le> lo \<Longrightarrow> ascending g lo' fs"
  by (cases fs) auto

lemma ascending_ge: "ascending g lo fs \<Longrightarrow> f \<in> set fs \<Longrightarrow> lo \<le> fst f \<and> 4 \<le> snd f"
  by (induction g lo fs rule: ascending.induct) auto

lemma ascending_append: "ascending g lo (xs @ (p, s) # ys) \<longleftrightarrow>
    ascending g lo xs \<and> (if xs = [] then lo \<le> p else fst (last xs) + snd (last xs) + g \<le> p) \<and> 4 \<le> s \<and> ascending g (p + s + g) ys"
  by (induction g lo xs rule: ascending.induct) auto

lemma ascending_delete: "ascending g lo (xs @ (p, s) # ys) \<Longrightarrow> ascending g lo (xs @ ys)"
  by (induction g lo xs rule: ascending.induct) (auto elim: ascending_mono)

lemma ascending_before: "ascending g lo (xs @ (p, s) # ys) \<Longrightarrow> f \<in> set xs \<Longrightarrow> fst f + snd f + g \<le> p"
proof (induction g lo xs rule: ascending.induct)
  case (2 g lo q t fs)
  then have "ascending g (q + t + g) (fs @ (p, s) # ys)" by simp
  moreover then have "q + t + g \<le> p" using ascending_ge [of g "q + t + g" "fs @ (p, s) # ys" "(p, s)"] by simp
  ultimately show ?case using 2 by auto
qed simp

lemma ascending_after: "ascending g lo (xs @ (p, s) # ys) \<Longrightarrow> f \<in> set ys \<Longrightarrow> p + s + g \<le> fst f"
  using ascending_ge [of g "p + s + g" ys f] by (simp add: ascending_append)

lemma ascending_apart: "ascending g lo (xs @ f # ys) \<Longrightarrow> h \<in> set (xs @ ys) \<Longrightarrow> apart f h"
  using ascending_before [of g lo xs "fst f" "snd f" ys h] ascending_after [of g lo xs "fst f" "snd f" ys h]
  by (auto simp: apart_def)

section \<open>The list of free blocks\<close>

text \<open>From the link at a through the blocks of fs; the last one points to e.\<close>

fun chain :: "bytes \<Rightarrow> nat \<Rightarrow> region list \<Rightarrow> nat \<Rightarrow> bool" where
  "chain d a [] e \<longleftrightarrow> b2 d a = e"
| "chain d a ((p, s) # fs) e \<longleftrightarrow> b2 d a = p \<and> 0 < p \<and> b2 d (p + 2) = s \<and> chain d p fs e"

definition link_end :: "nat \<Rightarrow> region list \<Rightarrow> nat" where
  "link_end a xs = (if xs = [] then a else fst (last xs))"

lemma link_end_simps [simp]: "link_end a [] = a" "link_end a (xs @ [f]) = fst f"
  by (simp_all add: link_end_def)

lemma chain_split: "chain d a (xs @ (p, s) # ys) e \<longleftrightarrow> chain d a xs p \<and> 0 < p \<and> b2 d (p + 2) = s \<and> chain d p ys e"
  by (induction xs arbitrary: a) auto

lemma chain_cong:
  "b2 d' a = b2 d a \<Longrightarrow> (\<And>p s. (p, s) \<in> set fs \<Longrightarrow> b2 d' p = b2 d p \<and> b2 d' (p + 2) = b2 d (p + 2)) \<Longrightarrow> chain d' a fs e = chain d a fs e"
proof (induction fs arbitrary: a)
  case (Cons f fs)
  obtain p s where f: "f = (p, s)" by fastforce
  have "b2 d' p = b2 d p \<and> b2 d' (p + 2) = b2 d (p + 2)" using Cons.prems(2) [of p s] f by simp
  moreover have "chain d' p fs e = chain d p fs e" using calculation Cons.prems(2) by (intro Cons.IH) auto
  ultimately show ?case using Cons.prems(1) by (simp add: f)
qed simp

lemma chain_end: "chain d a xs e \<Longrightarrow> b2 d (link_end a xs) = e"
  by (induction d a xs e rule: chain.induct) (auto simp: link_end_def)

text \<open>The last link is changed.\<close>

lemma chain_relink:
  assumes "chain d a xs e" and "b2 d' (link_end a xs) = e'" and "xs \<noteq> [] \<longrightarrow> b2 d' a = b2 d a"
    and "\<And>p s. (p, s) \<in> set xs \<Longrightarrow> b2 d' (p + 2) = b2 d (p + 2) \<and> (p \<noteq> link_end a xs \<longrightarrow> b2 d' p = b2 d p)"
    and "distinct (map fst xs)"
  shows "chain d' a xs e'"
proof (cases xs rule: rev_cases)
  case Nil
  then show ?thesis using assms(2) by simp
next
  case (snoc zs f)
  obtain p s where f: "f = (p, s)" by fastforce
  have c: "chain d a zs p" "0 < p" "b2 d (p + 2) = s" using assms(1) unfolding snoc f chain_split by auto
  have "chain d' a zs p = chain d a zs p"
  proof (rule chain_cong)
    show "b2 d' a = b2 d a" using assms(3) snoc by simp
    show "b2 d' q = b2 d q \<and> b2 d' (q + 2) = b2 d (q + 2)" if "(q, t) \<in> set zs" for q t
    proof -
      have "q \<noteq> p" using assms(5) that unfolding snoc f by (auto simp: rev_image_eqI)
      then show ?thesis using assms(4) [of q t] that unfolding snoc f by simp
    qed
  qed
  then show ?thesis using c assms(2) assms(4) [of p s] unfolding snoc f chain_split by simp
qed

section \<open>The layout of a page\<close>

definition b2nz :: "bytes \<Rightarrow> nat \<Rightarrow> nat" where "b2nz d i = (if b2 d i = 0 then 65536 else b2 d i)"

text \<open>
  Up to lo header and cell pointers, then the gap up to t, then the content with the regions R and
  the free blocks fs; g is 4 except while blocks are joined.
\<close>

definition space :: "nat \<Rightarrow> nat \<Rightarrow> nat \<Rightarrow> nat \<Rightarrow> bytes \<Rightarrow> region set \<Rightarrow> region list \<Rightarrow> nat \<Rightarrow> bool" where
  "space g u hdr lo d R fs t \<longleftrightarrow> u \<le> length d \<and> u \<le> 65536 \<and> hdr + 8 \<le> lo \<and> lo \<le> t \<and> t \<le> u \<and> b2nz d (hdr + 5) = t \<and>
     chain d (hdr + 1) fs 0 \<and> ascending g t fs \<and> (\<forall>f \<in> set fs. fst f + snd f \<le> u) \<and>
     finite R \<and> (\<forall>r \<in> R. t \<le> fst r \<and> fst r + snd r \<le> u \<and> 4 \<le> snd r \<and> (\<forall>f \<in> set fs. apart r f)) \<and> pairwise apart R \<and>
     sum snd R + sum_list (map snd fs) + unat (d ! (hdr + 7)) = u - t"

lemma ascending_distinct: "ascending g lo fs \<Longrightarrow> distinct (map fst fs)"
proof (induction g lo fs rule: ascending.induct)
  case (2 g lo p s fs)
  then show ?case using ascending_ge [of g "p + s + g" fs] by fastforce
qed simp

text \<open>Bytes that a change of the free space leaves alone.\<close>

definition kept :: "nat \<Rightarrow> nat \<Rightarrow> region set \<Rightarrow> bytes \<Rightarrow> bytes \<Rightarrow> bool" where
  "kept hdr lo R d d' \<longleftrightarrow> length d' = length d \<and>
     (\<forall>i < length d. i < lo \<and> i \<notin> {hdr + 1, hdr + 2, hdr + 5, hdr + 6, hdr + 7} \<or> (\<exists>r \<in> R. inside i r) \<longrightarrow> d' ! i = d ! i)"

lemma kept_refl [simp]: "kept hdr lo R d d"
  by (simp add: kept_def)

lemma kept_trans: "kept hdr lo R d d' \<Longrightarrow> kept hdr lo R' d' d'' \<Longrightarrow> R \<subseteq> R' \<Longrightarrow> kept hdr lo R d d''"
  unfolding kept_def by (metis subsetD)

lemma sum_regions:
  fixes R :: "region set"
  assumes "finite R" and "pairwise apart R" and "\<forall>r \<in> R. 0 < snd r"
  shows "card (\<Union>r \<in> R. {i. inside i r}) = sum snd R"
proof -
  have I: "{i. inside i r} = {fst r..<fst r + snd r}" for r by (auto simp: inside_def)
  have "card (\<Union>r \<in> R. {i. inside i r}) = (\<Sum>r \<in> R. card {i. inside i r})"
  proof (rule card_UN_disjoint)
    show "\<forall>r \<in> R. \<forall>s \<in> R. r \<noteq> s \<longrightarrow> {i. inside i r} \<inter> {i. inside i s} = {}"
      using assms(2) apart_inside by (fastforce simp: pairwise_def)
  qed (use assms(1) in \<open>simp_all add: I\<close>)
  then show ?thesis by (simp add: I)
qed

lemma ascending_pairwise: "ascending g lo fs \<Longrightarrow> pairwise apart (set fs) \<and> distinct fs"
proof (induction g lo fs rule: ascending.induct)
  case (2 g lo p s fs)
  then have a: "ascending g (p + s + g) fs" "4 \<le> s" by auto
  have "apart (p, s) f \<and> apart f (p, s)" if "f \<in> set fs" for f using ascending_ge [OF a(1) that] by (simp add: apart_def)
  moreover have "(p, s) \<notin> set fs" using ascending_ge [OF a(1), of "(p, s)"] a(2) by auto
  ultimately show ?case using 2 by (simp add: pairwise_insert)
qed simp

lemma not_apart_self: "0 < snd r \<Longrightarrow> \<not> apart r r"
  by (simp add: apart_def)

lemma gap_fits:
  assumes sp: "space g u hdr lo d R fs t" and b: "t \<le> b" "b + k \<le> u"
    and r: "\<And>r. r \<in> R \<Longrightarrow> apart (b, k) r" and f: "\<And>f. f \<in> set fs \<Longrightarrow> apart (b, k) f"
  shows "k \<le> unat (d ! (hdr + 7))"
proof (cases "k = 0")
  case False
  have fs: "pairwise apart (set fs)" "distinct fs" "\<And>f. f \<in> set fs \<Longrightarrow> t \<le> fst f \<and> 4 \<le> snd f"
    using sp ascending_pairwise [of g t fs] ascending_ge [of g t fs] by (auto simp: space_def)
  have disj: "R \<inter> set fs = {}"
  proof -
    have "r \<notin> set fs" if "r \<in> R" for r using that sp fs(3) not_apart_self [of r] by (fastforce simp: space_def)
    then show ?thesis by blast
  qed
  let ?X = "insert (b, k) (R \<union> set fs)"
  have new: "(b, k) \<notin> R \<union> set fs" using r f not_apart_self [of "(b, k)"] False by auto
  have fin: "finite ?X" using sp by (simp add: space_def)
  have "pairwise apart (R \<union> set fs)"
    using sp fs(1) apart_sym unfolding pairwise_def space_def by blast
  then have pw: "pairwise apart ?X" using r f apart_sym unfolding pairwise_insert by blast
  have pos: "\<forall>x \<in> ?X. 0 < snd x"
  proof
    fix x assume "x \<in> ?X"
    then consider "x = (b, k)" | "x \<in> R" | "x \<in> set fs" by blast
    then show "0 < snd x" using False sp fs(3) [of x] by cases (auto simp: space_def)
  qed
  have range: "t \<le> fst x \<and> fst x + snd x \<le> u" if "x \<in> ?X" for x using that sp fs(3) [of x] b by (auto simp: space_def)
  have "card (\<Union>x \<in> ?X. {i. inside i x}) \<le> card {t..<u}"
  proof (rule card_mono)
    show "(\<Union>x \<in> ?X. {i. inside i x}) \<subseteq> {t..<u}"
    proof
      fix i assume "i \<in> (\<Union>x \<in> ?X. {i. inside i x})"
      then obtain x where "x \<in> ?X" "inside i x" by blast
      then show "i \<in> {t..<u}" using range [of x] by (auto simp: inside_def)
    qed
  qed simp
  moreover have "card (\<Union>x \<in> ?X. {i. inside i x}) = sum snd ?X" by (rule sum_regions [OF fin pw pos])
  moreover have "sum snd ?X = k + (sum snd R + sum_list (map snd fs))"
    using new fin disj fs(2) by (simp add: sum.union_disjoint sum_list_distinct_conv_sum_set)
  ultimately show ?thesis using sp by (simp add: space_def)
qed simp

section \<open>Searching a free block\<close>

lemma unat_u8_of_nat: "v < 256 \<Longrightarrow> unat (of_nat v :: u8) = v"
  by (simp add: unat_of_nat take_bit_eq_mod)

text \<open>Fields that a write leaves alone.\<close>

lemma mem_write_b2:
  "mem_write d off s = Some d' \<Longrightarrow> i + 1 < length d \<Longrightarrow> i + 1 < off \<or> off + length s \<le> i \<Longrightarrow> b2 d' i = b2 d i"
  by (rule b2_cong) (auto simp: mem_write_nth)

lemma put2byte_b2_other: "put2byte d i v = Some d' \<Longrightarrow> j + 1 < length d \<Longrightarrow> j + 1 < i \<or> i + 2 \<le> j \<Longrightarrow> b2 d' j = b2 d j"
  by (rule b2_cong) (auto simp: put2byte_nth)

lemma b2nz_eq: "b2 d' i = b2 d i \<Longrightarrow> b2nz d' i = b2nz d i"
  by (simp add: b2nz_def)

text \<open>A block is taken out of the list.\<close>

lemma chain_bypass:
  assumes "chain d a (xs @ (p, s) # ys) e" and "b2 d' (link_end a xs) = b2 d p" and "xs \<noteq> [] \<longrightarrow> b2 d' a = b2 d a"
    and "\<And>q t. (q, t) \<in> set (xs @ ys) \<Longrightarrow> b2 d' (q + 2) = b2 d (q + 2) \<and> (q \<noteq> link_end a xs \<longrightarrow> b2 d' q = b2 d q)"
    and "distinct (map fst (xs @ ys))" and "\<And>q t. (q, t) \<in> set ys \<Longrightarrow> q \<noteq> link_end a xs"
  shows "chain d' a (xs @ ys) e"
proof -
  have c: "chain d a xs p" "chain d p ys e" using assms(1) by (auto simp: chain_split)
  have x: "chain d' a xs m" if "b2 d p = m" for m
    by (rule chain_relink [OF c(1)]) (use assms(2-5) that in auto)
  show ?thesis
  proof (cases ys)
    case Nil
    then show ?thesis using x c(2) by simp
  next
    case (Cons f zs)
    obtain q r where f: "f = (q, r)" by fastforce
    have "chain d' q zs e = chain d q zs e"
    proof (rule chain_cong)
      show "b2 d' q = b2 d q" using assms(4) [of q r] assms(6) [of q r] Cons f by simp
      show "b2 d' v = b2 d v \<and> b2 d' (v + 2) = b2 d (v + 2)" if "(v, w) \<in> set zs" for v w
        using assms(4) [of v w] assms(6) [of v w] that Cons by simp
    qed
    moreover have "b2 d' (q + 2) = b2 d (q + 2)" using assms(4) [of q r] Cons f by simp
    ultimately show ?thesis using c(2) x unfolding Cons f chain_split by simp
  qed
qed

lemma blocks_far: "ascending g t fs \<Longrightarrow> f \<in> set fs \<Longrightarrow> f' \<in> set fs \<Longrightarrow> fst f \<noteq> fst f' \<Longrightarrow> fst f + 4 \<le> fst f' \<or> fst f' + 4 \<le> fst f"
proof -
  assume a: "ascending g t fs" "f \<in> set fs" "f' \<in> set fs" "fst f \<noteq> fst f'"
  then have "apart f f'" using ascending_pairwise [OF a(1)] by (auto simp: pairwise_def)
  then show ?thesis using ascending_ge [OF a(1,2)] ascending_ge [OF a(1,3)] by (auto simp: apart_def)
qed

text \<open>Where the link to the block after xs lies.\<close>

lemma link_place:
  assumes asc: "ascending g t (xs @ ys)" and h: "h + 8 \<le> t"
  defines "a \<equiv> link_end (h + 1) xs"
  shows "a = h + 1 \<or> t \<le> a" and "\<And>f. f \<in> set (xs @ ys) \<Longrightarrow> fst f = a \<or> fst f + 4 \<le> a \<or> a + 4 \<le> fst f"
    and "xs = [] \<Longrightarrow> a = h + 1" and "xs \<noteq> [] \<Longrightarrow> \<exists>f \<in> set xs. a = fst f" and "\<And>f. f \<in> set ys \<Longrightarrow> a + 4 \<le> fst f"
proof -
  have cases: "xs = [] \<and> a = h + 1 \<or> xs \<noteq> [] \<and> (\<exists>f \<in> set xs. a = fst f)" by (auto simp: a_def link_end_def)
  have ge: "t \<le> fst f" "4 \<le> snd f" if "f \<in> set (xs @ ys)" for f using ascending_ge [OF asc that] by auto
  show "a = h + 1 \<or> t \<le> a" "xs = [] \<Longrightarrow> a = h + 1" "xs \<noteq> [] \<Longrightarrow> \<exists>f \<in> set xs. a = fst f" using cases ge by auto
  show "fst f = a \<or> fst f + 4 \<le> a \<or> a + 4 \<le> fst f" if "f \<in> set (xs @ ys)" for f
    using cases
  proof
    assume "xs \<noteq> [] \<and> (\<exists>f \<in> set xs. a = fst f)"
    then obtain f' where "f' \<in> set (xs @ ys)" "a = fst f'" by auto
    then show ?thesis using blocks_far [OF asc that, of f'] by auto
  qed (use ge(1) [OF that] h in auto)
  show "a + 4 \<le> fst f" if "f \<in> set ys" for f
  proof (cases xs rule: rev_cases)
    case Nil
    then show ?thesis using ge(1) [of f] that h by (simp add: a_def)
  next
    case (snoc zs e)
    have "xs @ ys = zs @ (fst e, snd e) # ys" by (simp add: snoc)
    then have "fst e + snd e + g \<le> fst f" using ascending_after [of g t zs "fst e" "snd e" ys f] asc that by simp
    moreover have "4 \<le> snd e" using ge(2) [of e] snoc by simp
    ultimately show ?thesis by (simp add: a_def snoc)
  qed
qed

lemma spaceD:
  assumes "space g u h lo d R fs t"
  shows "u \<le> length d" "u \<le> 65536" "h + 8 \<le> lo" "lo \<le> t" "t \<le> u" "b2nz d (h + 5) = t" "chain d (h + 1) fs 0" "ascending g t fs"
    "\<And>f. f \<in> set fs \<Longrightarrow> t \<le> fst f \<and> 4 \<le> snd f \<and> fst f + snd f \<le> u" "finite R" "pairwise apart R"
    "\<And>r. r \<in> R \<Longrightarrow> t \<le> fst r \<and> fst r + snd r \<le> u \<and> 4 \<le> snd r" "\<And>r f. r \<in> R \<Longrightarrow> f \<in> set fs \<Longrightarrow> apart r f"
    "sum snd R + sum_list (map snd fs) + unat (d ! (h + 7)) = u - t"
  using assms ascending_ge [of g t fs] unfolding space_def by blast+

lemma space_free:
  assumes sp: "space g u h lo d R fs t" and r: "r \<in> R" and i: "i < t \<or> (\<exists>f \<in> set fs. inside i f)"
  shows "\<not> inside i r"
proof
  assume in_r: "inside i r"
  show False using i
  proof
    assume "i < t"
    then show False using spaceD(12) [OF sp r] in_r by (auto simp: inside_def)
  next
    assume "\<exists>f \<in> set fs. inside i f"
    then obtain f where "f \<in> set fs" "inside i f" by blast
    then show False using spaceD(13) [OF sp r] apart_inside [OF _ in_r] by blast
  qed
qed

text \<open>A part of a free block becomes used.\<close>

lemma space_use:
  assumes sp: "space 4 u h lo d R (xs @ (p, s) # ys) t" and n: "4 \<le> n" "n \<le> s" and len: "length d' = length d"
    and new: "fs' = xs @ ys \<and> s - n < 4 \<and> unat (d' ! (h + 7)) = unat (d ! (h + 7)) + (s - n) \<or>
      fs' = xs @ (p, s - n) # ys \<and> 4 \<le> s - n \<and> d' ! (h + 7) = d ! (h + 7)"
    and top: "b2nz d' (h + 5) = t" and ch: "chain d' (h + 1) fs' 0"
  shows "space 4 u h lo d' (insert (p + (s - n), n) R) fs' t \<and> (p + (s - n), n) \<notin> R"
proof -
  note D = spaceD [OF sp]
  let ?new = "(p + (s - n), n)"
  have asc: "ascending 4 t (xs @ (p, s) # ys)" by (rule D(8))
  have p: "t \<le> p" "p + s \<le> u" using D(9) [of "(p, s)"] by auto
  have sub: "set fs' \<subseteq> set (xs @ ys) \<union> {(p, s - n)}" using new by auto
  have new_f: "apart ?new f" if "f \<in> set fs'" for f
  proof (cases "f = (p, s - n)")
    case False
    then have "f \<in> set (xs @ ys)" using that sub by auto
    then show ?thesis using apart_sub [OF ascending_apart [OF asc], of f ?new] n by simp
  qed (use n in \<open>simp add: apart_def\<close>)
  have block: "apart (p, s) r" if "r \<in> R" for r using D(13) [OF that, of "(p, s)"] apart_sym by simp
  have new_r: "apart ?new r" if "r \<in> R" for r using apart_sub [OF block [OF that], of ?new] n by simp
  have old_f: "apart r f" if "r \<in> R" "f \<in> set fs'" for r f
  proof (cases "f = (p, s - n)")
    case True
    then show ?thesis using apart_sub [OF block [OF that(1)], of "(p, s - n)"] apart_sym by auto
  next
    case False
    then show ?thesis using D(13) [OF that(1), of f] that(2) sub by auto
  qed
  have notin: "?new \<notin> R" using new_r [of ?new] not_apart_self [of ?new] n by auto
  have "ascending 4 t (xs @ (p, s - n) # ys)" if "4 \<le> s - n"
    using asc that ascending_mono [of 4 "p + s + 4" ys "p + (s - n) + 4"] by (simp add: ascending_append)
  then have "ascending 4 t fs'" using new ascending_delete [OF asc] by blast
  moreover have "fst f + snd f \<le> u" if "f \<in> set fs'" for f using that sub D(9) [of f] p by (auto split: if_splits)
  moreover have "pairwise apart (insert ?new R)" using D(11) new_r apart_sym unfolding pairwise_insert by blast
  moreover have "sum snd (insert ?new R) + sum_list (map snd fs') + unat (d' ! (h + 7)) = u - t"
    using D(10,14) notin new n by auto
  moreover have "\<forall>r \<in> insert ?new R. t \<le> fst r \<and> fst r + snd r \<le> u \<and> 4 \<le> snd r \<and> (\<forall>f \<in> set fs'. apart r f)"
    using D(12) old_f new_f p n by auto
  ultimately show ?thesis using D(1-5,10) len top ch notin unfolding space_def by simp
qed

lemma keptI:
  assumes sp: "space g u h lo d R fs t" and len: "length d' = length d"
    and ch: "\<And>i. i < length d \<Longrightarrow> d' ! i \<noteq> d ! i \<Longrightarrow> i \<in> {h + 1, h + 2, h + 5, h + 6, h + 7} \<or> lo \<le> i \<and> i < t \<or> (\<exists>f \<in> set fs. inside i f)"
  shows "kept h lo R d d'"
  unfolding kept_def
proof (intro conjI allI impI)
  fix i assume i: "i < length d" and k: "i < lo \<and> i \<notin> {h + 1, h + 2, h + 5, h + 6, h + 7} \<or> (\<exists>r \<in> R. inside i r)"
  show "d' ! i = d ! i"
  proof (rule ccontr)
    assume "d' ! i \<noteq> d ! i"
    then consider "i \<in> {h + 1, h + 2, h + 5, h + 6, h + 7}" | "lo \<le> i" "i < t" | f where "f \<in> set fs" "inside i f" using ch [OF i] by blast
    then show False
    proof cases
      case 1
      then have "i < t" using spaceD(3,4) [OF sp] by auto
      then show False using 1 k space_free [OF sp] by blast
    next
      case 2
      then show False using k space_free [OF sp] by force
    next
      case 3
      then have "t \<le> i" using spaceD(9) [OF sp, of f] by (simp add: inside_def)
      then show False using 3 k space_free [OF sp] spaceD(4) [OF sp] by force
    qed
  qed
qed (rule len)

lemma alloc_search_found:
  assumes sp: "space 4 (usable P) (hdrOffset P) lo d R (xs @ (p, s) # ys) t" and n: "4 \<le> n" "n \<le> s"
    and frag: "nFrag = unat (d ! (hdrOffset P + 7))" "nFrag < 60"
  shows "\<exists>d' fs'. alloc_search P n nFrag d (link_end (hdrOffset P + 1) xs) = Some (SQLITE_OK, d', Some (p + (s - n))) \<and>
     space 4 (usable P) (hdrOffset P) lo d' (insert (p + (s - n), n) R) fs' t \<and> kept (hdrOffset P) lo R d d' \<and> (p + (s - n), n) \<notin> R"
proof -
  let ?h = "hdrOffset P"
  let ?u = "usable P"
  note D = spaceD [OF sp]
  have asc: "ascending 4 t (xs @ (p, s) # ys)" by (rule D(8))
  have p: "t \<le> p" "4 \<le> s" "p + s \<le> ?u" using D(9) [of "(p, s)"] by auto
  have c: "chain d (?h + 1) xs p" "b2 d (p + 2) = s" "chain d p ys 0" using D(7) by (auto simp: chain_split)
  define a where "a = link_end (?h + 1) xs"
  have ht: "?h + 8 \<le> t" using D(3,4) by simp
  note L = link_place [OF asc ht, folded a_def]
  have link: "b2 d a = p" unfolding a_def by (rule chain_end [OF c(1)])
  have ap: "a + 4 \<le> p" using L(5) [of "(p, s)"] by simp
  have len: "p + 3 < length d" using p D(1) by linarith
  have g: "get2byte d a = Some p" "get2byte d (p + 2) = Some s"
    using get2byte_b2 [of a d] get2byte_b2 [of "p + 2" d] ap len link c(2) by simp_all
  have dist: "distinct (map fst (xs @ (p, s) # ys))" by (rule ascending_distinct [OF asc])
  have blk: "t \<le> q" "q = a \<or> q + 4 \<le> a \<or> a + 4 \<le> q" "q + 4 \<le> p \<or> p + 4 \<le> q" "q + 4 \<le> length d" if "(q, v) \<in> set (xs @ ys)" for q v
  proof -
    have m: "(q, v) \<in> set (xs @ (p, s) # ys)" using that by auto
    show "t \<le> q" "q + 4 \<le> length d" using D(9) [OF m] D(1) by simp_all
    show "q = a \<or> q + 4 \<le> a \<or> a + 4 \<le> q" using L(2) [OF m] by simp
    have "q \<noteq> p" using dist that by (auto simp: rev_image_eqI)
    then show "q + 4 \<le> p \<or> p + 4 \<le> q" using blocks_far [OF asc m, of "(p, s)"] by simp
  qed
  have not_R: "\<not> inside i r" if "r \<in> R" "i < t \<or> (\<exists>f \<in> set (xs @ (p, s) # ys). inside i f)" for i r
    by (rule space_free [OF sp that])
  have a_in: "a = ?h + 1 \<or> (\<exists>f \<in> set xs. inside a f \<and> inside (Suc a) f)"
  proof (cases "xs = []")
    case False
    then obtain f where "f \<in> set xs" "a = fst f" using L(4) by blast
    then show ?thesis using D(9) [of f] by (auto simp: inside_def)
  qed (use L(3) in simp)
  show ?thesis
  proof (cases "s - n < 4")
    case True
    define two where "two = take 2 (drop p d)"
    have two: "length two = 2" "two ! 0 = d ! p" "two ! 1 = d ! Suc p" "mem_read d p 2 = Some two"
      using len by (simp_all add: two_def mem_read_def)
    obtain d1 where d1: "mem_write d a two = Some d1" using mem_write_ok [of a two d] two(1) ap len by auto
    have len1: "length d1 = length d" using mem_write_length [OF d1] by simp
    obtain d2 where d2: "mem_write d1 (?h + 7) [of_nat (nFrag + (s - n))] = Some d2"
      using mem_write_ok [of "?h + 7" "[of_nat (nFrag + (s - n))]" d1] len1 p ht len by auto
    have len2: "length d2 = length d" using mem_write_length [OF d2] len1 by simp
    have nth: "d2 ! i = (if i = ?h + 7 then of_nat (nFrag + (s - n)) else if i = a then d ! p else if i = Suc a then d ! Suc p else d ! i)"
      if "i < length d" for i
      using mem_write_nth [OF d2, of i] mem_write_nth [OF d1, of i] that len1 two(1-3)
      by (cases "i = a"; cases "i = Suc a") (auto simp: less_Suc_eq numeral_2_eq_2)
    have a7: "a \<noteq> ?h + 7" "Suc a \<noteq> ?h + 7" "a = ?h + 1 \<or> ?h + 8 \<le> a" using L(1) ht by auto
    have same: "b2 d2 q = b2 d q" if "q + 1 < length d" "q \<noteq> a" "Suc q \<noteq> a" "q \<noteq> Suc a" "q \<noteq> ?h + 7" "Suc q \<noteq> ?h + 7" for q
      using that by (intro b2_cong) (simp_all add: nth)
    have run: "alloc_search P n nFrag d a = Some (SQLITE_OK, d2, Some (p + (s - n)))"
      using g d1 d2 two(4) True n p ht ap by (subst alloc_search.simps) simp
    have chain2: "chain d2 (?h + 1) (xs @ ys) 0"
    proof (rule chain_bypass [OF D(7), folded a_def])
      show "b2 d2 a = b2 d p" using ap len a7 by (simp add: b2_def nth)
      show "xs \<noteq> [] \<longrightarrow> b2 d2 (?h + 1) = b2 d (?h + 1)" 
      proof
        assume "xs \<noteq> []"
        then obtain f where "f \<in> set xs" "a = fst f" using L(4) by blast
        then have "t \<le> a" using D(9) [of f] by simp
        then show "b2 d2 (?h + 1) = b2 d (?h + 1)" by (intro same) (use ht len p in auto)
      qed
      show "b2 d2 (q + 2) = b2 d (q + 2) \<and> (q \<noteq> a \<longrightarrow> b2 d2 q = b2 d q)" if "(q, v) \<in> set (xs @ ys)" for q v
        using blk [OF that] ht by (intro conjI impI same) auto
      show "distinct (map fst (xs @ ys))" using dist by auto
      show "q \<noteq> a" if "(q, v) \<in> set ys" for q v using L(5) [of "(q, v)"] that by auto
    qed
    have "b2nz d2 (?h + 5) = t" unfolding D(6) [symmetric] by (rule b2nz_eq [OF same]) (use a7 ht len p in auto)
    moreover have "unat (d2 ! (?h + 7)) = unat (d ! (?h + 7)) + (s - n)"
    proof -
      have "d2 ! (?h + 7) = of_nat (nFrag + (s - n))" using nth [of "?h + 7"] ht len p by auto
      moreover have "unat (of_nat (nFrag + (s - n)) :: u8) = nFrag + (s - n)" by (rule unat_u8_of_nat) (use frag True in simp)
      ultimately show ?thesis using frag(1) by (simp only:)
    qed
    ultimately have "space 4 ?u ?h lo d2 (insert (p + (s - n), n) R) (xs @ ys) t \<and> (p + (s - n), n) \<notin> R"
      using space_use [OF sp n len2, of "xs @ ys"] True chain2 by blast
    moreover have "kept ?h lo R d d2"
      by (rule keptI [OF sp len2]) (use a_in nth in \<open>auto split: if_splits\<close>)
    ultimately show ?thesis using run unfolding a_def by blast
  next
    case False
    obtain d2 where d2: "put2byte d (p + 2) (s - n) = Some d2" using put2byte_ok [of "p + 2" d] len by auto
    have len2: "length d2 = length d" by (rule put2byte_length [OF d2])
    have same: "b2 d2 q = b2 d q" if "q + 1 < length d" "q + 1 < p + 2 \<or> p + 4 \<le> q" for q
      using put2byte_b2_other [OF d2 that(1)] that(2) by auto
    have run: "alloc_search P n nFrag d a = Some (SQLITE_OK, d2, Some (p + (s - n)))"
      using g d2 False n p ht ap by (subst alloc_search.simps) simp
    have "s - n < 65536" using b2_less [of d "p + 2"] c(2) by simp
    then have v: "b2 d2 (p + 2) = s - n" using b2_put2byte [OF d2] len by simp
    have fields: "b2 d2 q = b2 d q \<and> b2 d2 (q + 2) = b2 d (q + 2)" if "(q, v) \<in> set (xs @ ys)" for q v
      using blk [OF that] by (auto intro!: same)
    have "b2 d2 (?h + 1) = b2 d (?h + 1)" "b2 d2 p = b2 d p" by (rule same; use ht p len in linarith)+
    then have "chain d2 (?h + 1) xs p = chain d (?h + 1) xs p" "chain d2 p ys 0 = chain d p ys 0"
      using chain_cong [of d2 "?h + 1" d xs p] chain_cong [of d2 p d ys 0] fields by auto
    then have chain2: "chain d2 (?h + 1) (xs @ (p, s - n) # ys) 0" using c v p ht by (simp add: chain_split)
    have "b2nz d2 (?h + 5) = t" unfolding D(6) [symmetric] by (rule b2nz_eq [OF same]) (use ht len p in auto)
    moreover have "d2 ! (?h + 7) = d ! (?h + 7)" using put2byte_nth [OF d2, of "?h + 7"] ht p len by auto
    ultimately have "space 4 ?u ?h lo d2 (insert (p + (s - n), n) R) (xs @ (p, s - n) # ys) t \<and> (p + (s - n), n) \<notin> R"
      using space_use [OF sp n len2, of "xs @ (p, s - n) # ys"] False chain2 by force
    moreover have "kept ?h lo R d d2"
      by (rule keptI [OF sp len2]) (use p(2) put2byte_nth [OF d2] in \<open>auto simp: inside_def split: if_splits\<close>)
    ultimately show ?thesis using run unfolding a_def by blast
  qed
qed

lemma alloc_search_spec:
  assumes sp: "space 4 (usable P) (hdrOffset P) lo d R (xs @ ys) t" and n: "4 \<le> n"
    and frag: "nFrag = unat (d ! (hdrOffset P + 7))" "nFrag < 60"
  shows "alloc_search P n nFrag d (link_end (hdrOffset P + 1) xs) = Some (SQLITE_OK, d, None) \<or>
    (\<exists>d' fs' idx. alloc_search P n nFrag d (link_end (hdrOffset P + 1) xs) = Some (SQLITE_OK, d', Some idx) \<and>
      space 4 (usable P) (hdrOffset P) lo d' (insert (idx, n) R) fs' t \<and> kept (hdrOffset P) lo R d d' \<and> (idx, n) \<notin> R)"
  using sp
proof (induction ys arbitrary: xs)
  case Nil
  note D = spaceD [OF Nil]
  have "hdrOffset P + 8 \<le> t" using D(3,4) by simp
  note L = link_place [OF D(8) this]
  have b: "b2 d (link_end (hdrOffset P + 1) xs) = 0" using chain_end [OF D(7)] by simp
  have "link_end (hdrOffset P + 1) xs + 1 < length d"
  proof (cases "xs = []")
    case False
    then obtain f where "f \<in> set xs" "link_end (hdrOffset P + 1) xs = fst f" using L(4) by auto
    then show ?thesis using D(1) D(9) [of f] by simp
  qed (use D(1,3-5) in simp)
  then have "get2byte d (link_end (hdrOffset P + 1) xs) = Some 0" using get2byte_b2 b by simp
  then show ?case by (subst alloc_search.simps) simp
next
  case (Cons f ys)
  obtain p s where f: "f = (p, s)" by fastforce
  show ?case
  proof (cases "n \<le> s")
    case True
    then show ?thesis using alloc_search_found [OF Cons.prems [unfolded f] n True frag] unfolding f by blast
  next
    case False
    note D = spaceD [OF Cons.prems]
    have ht: "hdrOffset P + 8 \<le> t" using D(3,4) by simp
    note L = link_place [OF D(8) ht]
    have c: "b2 d (link_end (hdrOffset P + 1) xs) = p" "b2 d (p + 2) = s" using D(7) chain_end by (auto simp: chain_split f)
    have p: "t \<le> p" "4 \<le> s" "p + s \<le> usable P" "link_end (hdrOffset P + 1) xs + 4 \<le> p"
      using D(9) [of f] L(5) [of f] by (auto simp: f)
    have "get2byte d (link_end (hdrOffset P + 1) xs) = Some p" "get2byte d (p + 2) = Some s"
      using get2byte_b2 [of "link_end (hdrOffset P + 1) xs" d] get2byte_b2 [of "p + 2" d] c p D(1) by simp_all
    moreover have "\<not> usable P - 4 < p" "p \<noteq> 0" using p(1-3) ht by linarith+
    ultimately have "alloc_search P n nFrag d (link_end (hdrOffset P + 1) xs) = alloc_search P n nFrag d (link_end (hdrOffset P + 1) (xs @ [f]))"
      using False p(4) by (subst alloc_search.simps) (simp add: f not_less)
    then show ?thesis using Cons.IH [of "xs @ [f]"] Cons.prems by simp
  qed
qed

section \<open>Freeing\<close>

lemma free_find_spec:
  assumes sp: "space g u h lo d R (xs @ ys) t" and g: "g = 4" and x: "\<forall>f \<in> set xs. fst f < start"
  shows "\<exists>as bs. ys = as @ bs \<and> free_find d start (link_end (h + 1) xs) = Some (SQLITE_OK, link_end (h + 1) (xs @ as), case bs of [] \<Rightarrow> 0 | f # _ \<Rightarrow> fst f) \<and>
     (\<forall>f \<in> set (xs @ as). fst f < start) \<and> (\<forall>f \<in> set bs. start \<le> fst f)"
  using sp x
proof (induction ys arbitrary: xs)
  case Nil
  note D = spaceD [OF Nil(1)]
  have ht: "h + 8 \<le> t" using D(3,4) by simp
  note L = link_place [OF D(8) ht]
  have b: "b2 d (link_end (h + 1) xs) = 0" using chain_end [OF D(7)] by simp
  have "link_end (h + 1) xs + 1 < length d"
  proof (cases "xs = []")
    case False
    then obtain f where "f \<in> set xs" "link_end (h + 1) xs = fst f" using L(4) by auto
    then show ?thesis using D(1) D(9) [of f] by simp
  qed (use D(1,3-5) in simp)
  then have "get2byte d (link_end (h + 1) xs) = Some 0" using get2byte_b2 b by simp
  then have "free_find d start (link_end (h + 1) xs) = Some (SQLITE_OK, link_end (h + 1) xs, 0)" by (subst free_find.simps) simp
  then show ?case using Nil(2) by simp
next
  case (Cons f ys)
  obtain p s where f: "f = (p, s)" by fastforce
  note D = spaceD [OF Cons.prems(1)]
  have ht: "h + 8 \<le> t" using D(3,4) by simp
  note L = link_place [OF D(8) ht]
  have c: "b2 d (link_end (h + 1) xs) = p" using D(7) chain_end by (auto simp: chain_split f)
  have p: "t \<le> p" "4 \<le> s" "p + s \<le> u" "link_end (h + 1) xs + 4 \<le> p"
    using D(9) [of f] L(5) [of f] by (auto simp: f)
  have get: "get2byte d (link_end (h + 1) xs) = Some p"
    using get2byte_b2 [of "link_end (h + 1) xs" d] c p D(1) by simp
  show ?case
  proof (cases "p < start")
    case True
    then have "free_find d start (link_end (h + 1) xs) = free_find d start (link_end (h + 1) (xs @ [f]))"
      using get p ht by (subst free_find.simps) (simp add: f)
    moreover obtain as bs where "ys = as @ bs" "free_find d start (link_end (h + 1) (xs @ [f])) = Some (SQLITE_OK, link_end (h + 1) ((xs @ [f]) @ as), case bs of [] \<Rightarrow> 0 | f # _ \<Rightarrow> fst f)"
      "\<forall>f \<in> set ((xs @ [f]) @ as). fst f < start" "\<forall>f \<in> set bs. start \<le> fst f"
      using Cons.IH [of "xs @ [f]"] Cons.prems True by (auto simp: f)
    ultimately show ?thesis by (intro exI [of _ "f # as"] exI [of _ bs]) simp
  next
    case False
    then have "free_find d start (link_end (h + 1) xs) = Some (SQLITE_OK, link_end (h + 1) xs, p)"
      using get p ht by (subst free_find.simps) simp
    moreover have "start \<le> fst e" if "e \<in> set (f # ys)" for e
      using that False ascending_after [of g t xs p s ys e] D(8) by (auto simp: f)
    ultimately show ?thesis using Cons.prems(2) by (intro exI [of _ "[]"] exI [of _ "f # ys"]) (simp add: f)
  qed
qed

text \<open>A used region becomes a free block.\<close>

lemma space_release:
  assumes sp: "space 4 u h lo d R (xs @ ys) t" and r: "(p, s) \<in> R"
    and x: "\<forall>f \<in> set xs. fst f < p" and y: "\<forall>f \<in> set ys. p \<le> fst f" and len: "length d' = length d"
    and top: "b2nz d' (h + 5) = t" and ch: "chain d' (h + 1) (xs @ (p, s) # ys) 0" and fr: "d' ! (h + 7) = d ! (h + 7)"
  shows "space 0 u h lo d' (R - {(p, s)}) (xs @ (p, s) # ys) t"
proof -
  note D = spaceD [OF sp]
  have p: "t \<le> p" "p + s \<le> u" "4 \<le> s" using D(12) [OF r] by auto
  have before: "fst f + snd f \<le> p" if "f \<in> set xs" for f
    using D(13) [OF r, of f] D(9) [of f] x that p(3) by (auto simp: apart_def)
  have after: "p + s \<le> fst f" if "f \<in> set ys" for f
    using D(13) [OF r, of f] D(9) [of f] y that p(3) by (auto simp: apart_def)
  have weak: "ascending 0 t zs" if "ascending 4 t zs" for t zs
    using that by (induction "4::nat" t zs rule: ascending.induct) (auto elim: ascending_mono)
  have xs: "ascending 4 t xs"
    using D(8) by (cases ys) (auto simp: ascending_append)
  have ys: "ascending 0 (p + s) ys"
  proof (cases ys)
    case (Cons f zs)
    obtain q v where f: "f = (q, v)" by fastforce
    have "ascending 4 (q + v + 4) zs" "4 \<le> v" using D(8) by (auto simp: Cons f ascending_append)
    then have "ascending 0 (q + v) zs" using weak ascending_mono [of 0 "q + v + 4" zs "q + v"] by simp
    then show ?thesis using after [of f] \<open>4 \<le> v\<close> by (simp add: Cons f)
  qed simp
  have "ascending 0 t (xs @ (p, s) # ys)"
    unfolding ascending_append using weak [OF xs] p ys before [of "last xs"] by (cases "xs = []") simp_all
  moreover have "\<forall>f \<in> set (xs @ (p, s) # ys). fst f + snd f \<le> u" using D(9) p by auto
  moreover have "\<forall>r \<in> R - {(p, s)}. t \<le> fst r \<and> fst r + snd r \<le> u \<and> 4 \<le> snd r \<and> (\<forall>f \<in> set (xs @ (p, s) # ys). apart r f)"
  proof
    fix r' assume r': "r' \<in> R - {(p, s)}"
    then have "apart r' (p, s)" using D(11) r by (auto simp: pairwise_def)
    then show "t \<le> fst r' \<and> fst r' + snd r' \<le> u \<and> 4 \<le> snd r' \<and> (\<forall>f \<in> set (xs @ (p, s) # ys). apart r' f)"
      using D(12) [of r'] D(13) [of r'] r' by auto
  qed
  moreover have "pairwise apart (R - {(p, s)})" using D(11) by (auto simp: pairwise_def)
  moreover have "sum snd (R - {(p, s)}) + sum_list (map snd (xs @ (p, s) # ys)) + unat (d' ! (h + 7)) = u - t"
    using D(10,14) sum.remove [OF D(10) r, of snd] fr by simp
  ultimately show ?thesis using D(1-5,10) len top ch unfolding space_def by simp
qed

text \<open>Two free blocks with a gap of less than four bytes become one.\<close>

lemma merge_regions:
  assumes sp: "space 0 u h lo d R (xs @ (p, s) # (q, r) # ys) t" and k: "q \<le> p + s + 3"
  shows "t \<le> p" "4 \<le> s" "4 \<le> r" "q + r \<le> u" "p + s \<le> q" "\<And>e. e \<in> R \<Longrightarrow> apart e (p, q + r - p)" "q - (p + s) \<le> unat (d ! (h + 7))"
proof -
  note D = spaceD [OF sp]
  show pq: "t \<le> p" "4 \<le> s" "4 \<le> r" "q + r \<le> u" "p + s \<le> q"
    using D(9) [of "(p, s)"] D(9) [of "(q, r)"] D(8) by (auto simp: ascending_append)
  show "apart e (p, q + r - p)" if "e \<in> R" for e
    using D(12) [OF that] D(13) [OF that, of "(p, s)"] D(13) [OF that, of "(q, r)"] k pq by (auto simp: apart_def)
  have R_apart: "apart (p + s, q - (p + s)) e" if "e \<in> R" for e
    using D(12) [OF that] D(13) [OF that, of "(p, s)"] D(13) [OF that, of "(q, r)"] k pq by (auto simp: apart_def)
  have F_apart: "apart (p + s, q - (p + s)) f" if "f \<in> set (xs @ (p, s) # (q, r) # ys)" for f
  proof -
    have "xs @ (p, s) # (q, r) # ys = (xs @ [(p, s)]) @ (q, r) # ys" by simp
    then have "f \<in> set ys \<Longrightarrow> q + r \<le> fst f" using ascending_after [of 0 t "xs @ [(p, s)]" q r ys f] D(8) by simp
    moreover have "f \<in> set xs \<Longrightarrow> fst f + snd f \<le> p" using ascending_before [of 0 t xs p s "(q, r) # ys" f] D(8) by simp
    ultimately show ?thesis using that pq by (auto simp: apart_def)
  qed
  show "q - (p + s) \<le> unat (d ! (h + 7))"
    by (rule gap_fits [OF sp _ _ R_apart F_apart]) (use pq in auto)
qed

lemma space_merge:
  assumes sp: "space 0 u h lo d R (xs @ (p, s) # (q, r) # ys) t" and k: "q \<le> p + s + 3" and len: "length d' = length d"
    and top: "b2nz d' (h + 5) = t" and ch: "chain d' (h + 1) (xs @ (p, q + r - p) # ys) 0"
    and fr: "unat (d' ! (h + 7)) = unat (d ! (h + 7)) - (q - (p + s))"
  shows "space 0 u h lo d' R (xs @ (p, q + r - p) # ys) t"
proof -
  note D = spaceD [OF sp]
  note M = merge_regions [OF sp k]
  have size: "4 \<le> q + r - p" "p + (q + r - p) = q + r" using M(2,3,5) by linarith+
  then have "ascending 0 t (xs @ (p, q + r - p) # ys)" using D(8) by (simp add: ascending_append split: if_splits)
  moreover have "\<forall>f \<in> set (xs @ (p, q + r - p) # ys). fst f + snd f \<le> u" using D(9) M(4) size(2) by auto
  moreover have "\<forall>e \<in> R. t \<le> fst e \<and> fst e + snd e \<le> u \<and> 4 \<le> snd e \<and> (\<forall>f \<in> set (xs @ (p, q + r - p) # ys). apart e f)"
  proof
    fix e assume e: "e \<in> R"
    show "t \<le> fst e \<and> fst e + snd e \<le> u \<and> 4 \<le> snd e \<and> (\<forall>f \<in> set (xs @ (p, q + r - p) # ys). apart e f)"
      using D(12) [OF e] D(13) [OF e] M(6) [OF e] by auto
  qed
  moreover have "sum snd R + sum_list (map snd (xs @ (p, q + r - p) # ys)) + unat (d' ! (h + 7)) = u - t"
    using D(14) M(5,7) fr by simp
  ultimately show ?thesis using D(1-5,10,11) len top ch unfolding space_def by simp
qed

lemma chain_head_cong:
  assumes "b2 d' a' = b2 d a" and "\<And>p s. (p, s) \<in> set fs \<Longrightarrow> b2 d' p = b2 d p \<and> b2 d' (p + 2) = b2 d (p + 2)"
  shows "chain d' a' fs e = chain d a fs e"
proof (cases fs)
  case (Cons f fs')
  obtain p s where f: "f = (p, s)" by fastforce
  have "chain d' p fs' e = chain d p fs' e" using assms(2) f Cons by (intro chain_cong) auto
  then show ?thesis using assms(1) assms(2) [of p s] by (simp add: Cons f)
qed (use assms(1) in simp)

text \<open>The bytes written when two blocks are joined.\<close>

lemma coalesce_writes:
  assumes sp: "space 0 u h lo d R (xs @ (p, s) # (q, r) # ys) t" and k: "q \<le> p + s + 3"
  shows "\<exists>d1 d2 d3. mem_write d (h + 7) [d ! (h + 7) - of_nat (q - (p + s))] = Some d1 \<and> get2byte d1 q = Some (b2 d q) \<and>
     put2byte d1 p (b2 d q) = Some d2 \<and> get2byte d2 (q + 2) = Some r \<and> put2byte d2 (p + 2) (q + r - p) = Some d3 \<and>
     space 0 u h lo d3 R (xs @ (p, q + r - p) # ys) t \<and> kept h lo R d d3"
proof -
  note D = spaceD [OF sp]
  have pq: "t \<le> p" "4 \<le> s" "4 \<le> r" "q + r \<le> u" "p + s \<le> q" and ht: "h + 8 \<le> t"
    using D(3,4) D(9) [of "(p, s)"] D(9) [of "(q, r)"] D(8) by (auto simp: ascending_append)
  have len: "h + 7 < length d" "q + 3 < length d" "p + 3 < length d" using pq ht D(1) by linarith+
  have c: "chain d (h + 1) xs p" "b2 d (p + 2) = s" "b2 d p = q" "b2 d (q + 2) = r" "chain d q ys 0" using D(7) by (auto simp: chain_split)
  obtain d1 where d1: "mem_write d (h + 7) [d ! (h + 7) - of_nat (q - (p + s))] = Some d1"
    using mem_write_ok [of "h + 7" "[d ! (h + 7) - of_nat (q - (p + s))]" d] len by auto
  have l1: "length d1 = length d" using mem_write_length [OF d1] by simp
  obtain d2 where d2: "put2byte d1 p (b2 d q) = Some d2" using put2byte_ok [of p d1 "b2 d q"] l1 len by auto
  have l2: "length d2 = length d" using put2byte_length [OF d2] l1 by simp
  obtain d3 where d3: "put2byte d2 (p + 2) (q + r - p) = Some d3" using put2byte_ok [of "p + 2" d2 "q + r - p"] l2 len by auto
  have l3: "length d3 = length d" using put2byte_length [OF d3] l2 by simp
  have s1: "b2 d1 i = b2 d i" if "i + 1 < h + 7 \<or> h + 8 \<le> i" "i + 1 < length d" for i
    by (rule mem_write_b2 [OF d1]) (use that in auto)
  have s2: "b2 d2 i = b2 d i" if "i + 1 < h + 7 \<or> h + 8 \<le> i" "i + 1 < p \<or> p + 2 \<le> i" "i + 1 < length d" for i
    using put2byte_b2_other [OF d2, of i] s1 [of i] that l1 by simp
  have s3: "b2 d3 i = b2 d i" if "i + 1 < h + 7 \<or> h + 8 \<le> i" "i + 1 < p \<or> p + 4 \<le> i" "i + 1 < length d" for i
    using put2byte_b2_other [OF d3, of i] s2 [of i] that l2 by auto
  have g1: "get2byte d1 q = Some (b2 d q)" using get2byte_b2 [of q d1] s1 [of q] pq ht l1 len by simp
  have g2: "get2byte d2 (q + 2) = Some r" using get2byte_b2 [of "q + 2" d2] s2 [of "q + 2"] pq ht l2 len c(4) by simp
  have v: "b2 d3 p = b2 d q" "b2 d3 (p + 2) = q + r - p"
  proof -
    have "b2 d3 p = b2 d2 p" using put2byte_b2_other [OF d3, of p] l2 len by simp
    then show "b2 d3 p = b2 d q" using b2_put2byte [OF d2] l1 len b2_less [of d q] by simp
    have "q + r - p < 65536" using pq D(2) ht by linarith
    then show "b2 d3 (p + 2) = q + r - p" using b2_put2byte [OF d3] l2 len by simp
  qed
  have ys_after: "q + r \<le> fst f" if "f \<in> set ys" for f
    using ascending_after [of 0 t "xs @ [(p, s)]" q r ys f] D(8) that by simp
  have ys_same: "b2 d3 i = b2 d i \<and> b2 d3 (i + 2) = b2 d (i + 2)" if "(i, w) \<in> set ys" for i w
    using ys_after [OF that] D(9) [of "(i, w)"] that pq ht D(1) by (auto intro!: s3)
  have xs_same: "b2 d3 i = b2 d i \<and> b2 d3 (i + 2) = b2 d (i + 2)" if "(i, w) \<in> set xs" for i w
    using ascending_before [OF D(8) that] D(9) [of "(i, w)"] that pq ht D(1) by (auto intro!: s3)
  have "b2 d3 (h + 1) = b2 d (h + 1)" by (rule s3) (use pq ht len in linarith)+
  then have "chain d3 (h + 1) xs p" using c(1) chain_cong [of d3 "h + 1" d xs p] xs_same by simp
  moreover have "chain d3 p ys 0" using c(5) chain_head_cong [of d3 p d q ys 0] v(1) ys_same by simp
  ultimately have ch: "chain d3 (h + 1) (xs @ (p, q + r - p) # ys) 0" using v(2) pq ht by (simp add: chain_split)
  have "d3 ! (h + 7) = d ! (h + 7) - of_nat (q - (p + s))"
    using put2byte_nth [OF d3, of "h + 7"] put2byte_nth [OF d2, of "h + 7"] mem_write_nth [OF d1, of "h + 7"] l1 l2 len pq ht by auto
  moreover have gap: "q - (p + s) \<le> unat (d ! (h + 7))"
    by (rule merge_regions(7) [OF sp k])
  ultimately have fr: "unat (d3 ! (h + 7)) = unat (d ! (h + 7)) - (q - (p + s))"
    using unat_u8_less [of "d ! (h + 7)"] by (simp add: unat_sub word_le_nat_alt unat_of_nat take_bit_eq_mod)
  have "b2nz d3 (h + 5) = t" unfolding D(6) [symmetric] by (rule b2nz_eq [OF s3]) (use pq ht len in linarith)+
  then have "space 0 u h lo d3 R (xs @ (p, q + r - p) # ys) t" using space_merge(1) [OF sp k l3 _ ch fr] by simp
  moreover have "kept h lo R d d3"
  proof (rule keptI [OF sp l3])
    fix i assume i: "i < length d" "d3 ! i \<noteq> d ! i"
    then have "i = h + 7 \<or> p \<le> i \<and> i < p + 4"
      using put2byte_nth [OF d3, of i] put2byte_nth [OF d2, of i] mem_write_nth [OF d1, of i] l1 l2 by (auto split: if_splits)
    then show "i \<in> {h + 1, h + 2, h + 5, h + 6, h + 7} \<or> lo \<le> i \<and> i < t \<or> (\<exists>f \<in> set (xs @ (p, s) # (q, r) # ys). inside i f)"
      using pq(2) by (auto simp: inside_def)
  qed
  ultimately show ?thesis using d1 g1 d2 g2 d3 by blast
qed

lemma space_regap: "space g u h lo d R fs t \<Longrightarrow> ascending g' t fs \<Longrightarrow> space g' u h lo d R fs t"
  by (simp add: space_def)

lemma link_readable:
  assumes sp: "space g u h lo d R (xs @ ys) t"
  shows "get2byte d (link_end (h + 1) xs) = Some (case ys of [] \<Rightarrow> 0 | f # _ \<Rightarrow> fst f)"
proof -
  note D = spaceD [OF sp]
  have ht: "h + 8 \<le> t" using D(3,4) by simp
  note L = link_place [OF D(8) ht]
  have "b2 d (link_end (h + 1) xs) = (case ys of [] \<Rightarrow> 0 | f # _ \<Rightarrow> fst f)"
    using D(7) chain_end [of d "h + 1" xs] by (cases ys) (auto simp: chain_split split: prod.splits)
  moreover have "link_end (h + 1) xs + 1 < length d"
  proof (cases "xs = []")
    case False
    then obtain f where "f \<in> set xs" "link_end (h + 1) xs = fst f" using L(4) by auto
    then show ?thesis using D(1) D(9) [of f] by simp
  qed (use D(1,3-5) in simp)
  ultimately show ?thesis using get2byte_b2 by simp
qed

lemma free_coalesce_spec:
  assumes "space 0 u h lo d R (xs @ ys) t" and "ascending 4 t (xs @ take 1 ys)"
  shows "\<exists>d' fs'. free_coalesce h d (link_end (h + 1) xs) = Some (SQLITE_OK, d') \<and> space 4 u h lo d' R fs' t \<and>
     kept h lo R d d' \<and> (xs @ ys \<noteq> [] \<longrightarrow> fs' \<noteq> [])"
  using assms
proof (induction "length ys" arbitrary: xs ys d rule: less_induct)
  case less
  note sp = less.prems(1)
  note D = spaceD [OF sp]
  show ?case
  proof (cases ys)
    case Nil
    have "free_coalesce h d (link_end (h + 1) xs) = Some (SQLITE_OK, d)"
      using link_readable [OF sp] by (subst free_coalesce.simps) (simp add: Nil)
    then show ?thesis using space_regap [OF sp, of 4] less.prems(2) Nil by auto
  next
    case (Cons f zs)
    obtain p s where f: "f = (p, s)" by fastforce
    have p: "t \<le> p" "4 \<le> s" "p + s \<le> u" using D(9) [of f] by (auto simp: Cons f)
    have p0: "0 < p" and ps: "b2 d (p + 2) = s" using D(7) p D(3,4) by (auto simp: Cons f chain_split)
    have pn: "get2byte d p = Some (case zs of [] \<Rightarrow> 0 | e # _ \<Rightarrow> fst e)"
      using link_readable [of 0 u h lo d R "xs @ [f]" zs t] sp by (simp add: Cons f)
    have psz: "get2byte d (p + 2) = Some s" using get2byte_b2 [of "p + 2" d] ps p D(1) by simp
    show ?thesis
    proof (cases "zs = [] \<or> p + s + 3 < fst (hd zs)")
      case True
      then have run: "free_coalesce h d (link_end (h + 1) xs) = free_coalesce h d (link_end (h + 1) (xs @ [f]))"
        using link_readable [OF sp] pn psz p0 by (subst free_coalesce.simps) (auto simp: Cons f split: list.splits)
      have "ascending 4 t ((xs @ [f]) @ take 1 zs)"
      proof (cases zs)
        case (Cons e es)
        obtain q r where e: "e = (q, r)" by fastforce
        have "4 \<le> r" using D(9) [of e] by (simp add: e Cons \<open>ys = f # zs\<close>)
        then show ?thesis using less.prems(2) True by (auto simp: Cons \<open>ys = f # zs\<close> e f ascending_append)
      qed (use less.prems(2) in \<open>simp add: \<open>ys = f # zs\<close>\<close>)
      then show ?thesis using less.hyps [of zs d "xs @ [f]"] sp run by (simp add: Cons)
    next
      case False
      then obtain q r es where z: "zs = (q, r) # es" and k: "q \<le> p + s + 3" by (cases zs) auto
      note sp' = sp [unfolded Cons f z]
      note M = merge_regions [OF sp' k]
      obtain d1 d2 d3 where w: "mem_write d (h + 7) [d ! (h + 7) - of_nat (q - (p + s))] = Some d1" "get2byte d1 q = Some (b2 d q)"
          "put2byte d1 p (b2 d q) = Some d2" "get2byte d2 (q + 2) = Some r" "put2byte d2 (p + 2) (q + r - p) = Some d3"
          "space 0 u h lo d3 R (xs @ (p, q + r - p) # es) t" "kept h lo R d d3"
        using coalesce_writes [OF sp' k] by blast
      have "rd d (h + 7) = Some (d ! (h + 7))" using D(1,3-5) by (simp add: rd_def)
      then have run: "free_coalesce h d (link_end (h + 1) xs) = free_coalesce h d3 (link_end (h + 1) xs)"
        using link_readable [OF sp] pn psz p0 w(1-5) M(5,7) k by (subst free_coalesce.simps) (simp add: Cons f z)
      have "ascending 4 t (xs @ take 1 ((p, q + r - p) # es))"
        using less.prems(2) M(2,3,5) by (auto simp: Cons f z ascending_append)
      then obtain d' fs' where "free_coalesce h d3 (link_end (h + 1) xs) = Some (SQLITE_OK, d')" "space 4 u h lo d' R fs' t" "kept h lo R d3 d'" "fs' \<noteq> []"
        using less.hyps [of "(p, q + r - p) # es" d3 xs] w(6) by (auto simp: Cons z)
      then show ?thesis using run kept_trans [OF w(7)] by auto
    qed
  qed
qed

text \<open>Changes outside of the free space and of the header fields it uses.\<close>

lemma space_frame:
  assumes sp: "space g u h lo d R fs t" and len: "length d' = length d"
    and ch: "\<And>i. i < length d \<Longrightarrow> d' ! i \<noteq> d ! i \<Longrightarrow> i < t \<and> i \<notin> {h + 1, h + 2, h + 5, h + 6, h + 7} \<or> (\<exists>r \<in> R. inside i r)"
  shows "space g u h lo d' R fs t"
proof -
  note D = spaceD [OF sp]
  have same: "d' ! i = d ! i" if "i \<in> {h + 1, h + 2, h + 5, h + 6, h + 7} \<or> (\<exists>f \<in> set fs. inside i f)" "i < length d" for i
  proof (rule ccontr)
    assume c: "d' ! i \<noteq> d ! i"
    from that(1) have "i < t \<or> (\<exists>f \<in> set fs. inside i f)" using D(3,4) by auto
    then have n: "\<not> inside i r" if "r \<in> R" for r using space_free [OF sp that] by blast
    then have "i < t" "i \<notin> {h + 1, h + 2, h + 5, h + 6, h + 7}" using ch [OF that(2) c] by auto
    then show False using that(1) D(9) by (fastforce simp: inside_def)
  qed
  have len2: "h + 7 < length d" using D(1,3-5) by simp
  have f: "b2 d' q = b2 d q \<and> b2 d' (q + 2) = b2 d (q + 2)" if "(q, v) \<in> set fs" for q v
  proof -
    have "inside j (q, v) \<and> j < length d" if "j \<in> {q, Suc q, q + 2, q + 3}" for j
      using D(1) D(9) [OF \<open>(q, v) \<in> set fs\<close>] that by (auto simp: inside_def)
    then have "d' ! j = d ! j" if "j \<in> {q, Suc q, q + 2, q + 3}" for j using same [of j] that \<open>(q, v) \<in> set fs\<close> by blast
    then show ?thesis by (simp add: b2_def numeral_3_eq_3)
  qed
  have "b2 d' (h + 1) = b2 d (h + 1)" "b2 d' (h + 5) = b2 d (h + 5)" using same len2 by (auto intro!: b2_cong)
  moreover have "chain d' (h + 1) fs 0 = chain d (h + 1) fs 0" using chain_cong [of d' "h + 1" d fs 0] f calculation(1) by blast
  ultimately show ?thesis using sp len same [of "h + 7"] len2 b2nz_eq [of d' "h + 5" d] unfolding space_def by simp
qed

lemma chain_suffix: "chain d a (xs @ ys) e \<Longrightarrow> chain d (link_end a xs) ys e \<and> chain d a xs (case ys of [] \<Rightarrow> e | f # _ \<Rightarrow> fst f)"
  using chain_end [of d a xs] by (cases ys) (auto simp: chain_split chain_end split: prod.splits)

text \<open>The block is linked into the list.\<close>

lemma free_link:
  assumes sp: "space 4 u h lo d R (xs @ ys) t" and r: "(p, s) \<in> R"
    and x: "\<forall>f \<in> set xs. fst f < p" and y: "\<forall>f \<in> set ys. p \<le> fst f"
  defines "e \<equiv> (case ys of [] \<Rightarrow> 0 | f # _ \<Rightarrow> fst f)"
  shows "\<exists>d1 d2 d3. put2byte d (link_end (h + 1) xs) p = Some d1 \<and> put2byte d1 p e = Some d2 \<and> put2byte d2 (p + 2) s = Some d3 \<and>
    space 0 u h lo d3 (R - {(p, s)}) (xs @ (p, s) # ys) t \<and> kept h lo (R - {(p, s)}) d d3"
proof -
  note D = spaceD [OF sp]
  have p: "t \<le> p" "p + s \<le> u" "4 \<le> s" using D(12) [OF r] by auto
  have ht: "h + 8 \<le> t" using D(3,4) by simp
  define a where "a = link_end (h + 1) xs"
  note L = link_place [OF D(8) ht, folded a_def]
  have before: "q + v \<le> p \<and> 4 \<le> v" if "(q, v) \<in> set xs" for q v
    using D(13) [OF r, of "(q, v)"] D(9) [of "(q, v)"] x that p(3) by (auto simp: apart_def)
  have after: "p + s \<le> q" if "(q, v) \<in> set ys" for q v
    using D(13) [OF r, of "(q, v)"] D(9) [of "(q, v)"] y that p(3) by (auto simp: apart_def)
  have ap: "a + 4 \<le> p"
  proof (cases "xs = []")
    case False
    then obtain q v where "(q, v) \<in> set xs" "a = q" using L(4) by auto
    then show ?thesis using before [of q v] by linarith
  qed (use L(3) ht p in simp)
  have len: "p + 3 < length d" using p D(1) by linarith
  obtain d1 where d1: "put2byte d a p = Some d1" using put2byte_ok [of a d p] ap len by auto
  have l1: "length d1 = length d" using put2byte_length [OF d1] by simp
  obtain d2 where d2: "put2byte d1 p e = Some d2" using put2byte_ok [of p d1 e] l1 len by auto
  have l2: "length d2 = length d" using put2byte_length [OF d2] l1 by simp
  obtain d3 where d3: "put2byte d2 (p + 2) s = Some d3" using put2byte_ok [of "p + 2" d2 s] l2 len by auto
  have l3: "length d3 = length d" using put2byte_length [OF d3] l2 by simp
  have s3: "b2 d3 i = b2 d i" if "i + 1 < a \<or> a + 2 \<le> i" "i + 1 < p \<or> p + 4 \<le> i" "i + 1 < length d" for i
    using put2byte_b2_other [OF d3, of i] put2byte_b2_other [OF d2, of i] put2byte_b2_other [OF d1, of i] that l1 l2 by auto
  have e: "e < 65536" using link_readable [OF sp] get2byte_b2 [of a d] b2_less [of d a] ap len by (auto simp: e_def a_def)
  have v: "b2 d3 a = p" "b2 d3 p = e" "b2 d3 (p + 2) = s"
  proof -
    have "p < 65536" "s < 65536" using p D(2) ht by linarith+
    then show "b2 d3 a = p" "b2 d3 p = e" "b2 d3 (p + 2) = s"
      using put2byte_b2_other [OF d3, of a] put2byte_b2_other [OF d2, of a] b2_put2byte [OF d1]
        put2byte_b2_other [OF d3, of p] b2_put2byte [OF d2] b2_put2byte [OF d3] e ap len l1 l2 by simp_all
  qed
  have blk: "t \<le> q" "q = a \<or> q + 4 \<le> a \<or> a + 4 \<le> q" "q + 4 \<le> p \<or> p + 4 \<le> q" "q + 4 \<le> length d" if "(q, w) \<in> set (xs @ ys)" for q w
    using D(9) [OF that] D(1) L(2) [OF that] before [of q w] after [of q w] that p by auto
  have c: "chain d a ys 0" "chain d (h + 1) xs e" using chain_suffix [OF D(7)] by (auto simp: a_def e_def)
  have "chain d3 (h + 1) xs p"
  proof (rule chain_relink [OF c(2)], fold a_def)
    show "xs \<noteq> [] \<longrightarrow> b2 d3 (h + 1) = b2 d (h + 1)"
    proof
      assume "xs \<noteq> []"
      then obtain f where "f \<in> set xs" "a = fst f" using L(4) by blast
      then have "t \<le> a" using D(9) [of f] by simp
      then show "b2 d3 (h + 1) = b2 d (h + 1)" by (intro s3) (use ht len p in auto)
    qed
    show "b2 d3 (q + 2) = b2 d (q + 2) \<and> (q \<noteq> a \<longrightarrow> b2 d3 q = b2 d q)" if "(q, w) \<in> set xs" for q w
      using blk [of q w] that by (intro conjI impI s3) auto
    show "distinct (map fst xs)" using ascending_distinct [OF D(8)] by simp
  qed (rule v(1))
  moreover have "chain d3 p ys 0"
  proof -
    have "b2 d3 q = b2 d q \<and> b2 d3 (q + 2) = b2 d (q + 2)" if "(q, w) \<in> set ys" for q w
      using blk [of q w] L(5) [of "(q, w)"] that by (intro conjI s3) auto
    moreover have "b2 d a = e" using chain_end [OF c(2)] by (simp add: a_def)
    ultimately show ?thesis using chain_head_cong [of d3 p d a ys 0] c(1) v(2) by simp
  qed
  ultimately have ch: "chain d3 (h + 1) (xs @ (p, s) # ys) 0" using v(3) p ht by (simp add: chain_split)
  have n: "d3 ! i = d ! i" if "i < length d" "i < a \<or> a + 2 \<le> i" "i < p \<or> p + 4 \<le> i" for i
    using put2byte_nth [OF d3, of i] put2byte_nth [OF d2, of i] put2byte_nth [OF d1, of i] that l1 l2 by auto
  have a7: "a = h + 1 \<or> h + 8 \<le> a" using L(1) ht by auto
  have "b2nz d3 (h + 5) = t" unfolding D(6) [symmetric] by (rule b2nz_eq [OF s3]) (use a7 ht len p in auto)
  moreover have "d3 ! (h + 7) = d ! (h + 7)" by (rule n) (use a7 ht len p in auto)
  ultimately have rel: "space 0 u h lo d3 (R - {(p, s)}) (xs @ (p, s) # ys) t" using space_release [OF sp r x y l3 _ ch] by simp
  have "kept h lo (R - {(p, s)}) d d3"
    unfolding kept_def
  proof (intro conjI allI impI)
    fix i assume i: "i < length d" "i < lo \<and> i \<notin> {h + 1, h + 2, h + 5, h + 6, h + 7} \<or> (\<exists>r \<in> R - {(p, s)}. inside i r)"
    have out: "\<not> inside i f" if "f \<in> set (xs @ (p, s) # ys)" for f
      using i(2) space_free [OF rel, of _ i] that spaceD(9) [OF rel that] D(4) by (force simp: inside_def)
    have "\<not> (p \<le> i \<and> i < p + 4)" using out [of "(p, s)"] p(3) by (auto simp: inside_def)
    moreover have "\<not> (a \<le> i \<and> i < a + 2)"
    proof (cases "xs = []")
      case True
      then have "a \<le> i \<and> i < a + 2 \<Longrightarrow> i < t \<and> i \<in> {h + 1, h + 2, h + 5, h + 6, h + 7}" using L(3) ht by auto
      then show ?thesis using i(2) space_free [OF rel, of _ i] by blast
    next
      case False
      then obtain q w where "(q, w) \<in> set xs" "a = q" using L(4) by auto
      then show ?thesis using out [of "(q, w)"] before [of q w] by (auto simp: inside_def)
    qed
    ultimately show "d3 ! i = d ! i" using n [OF i(1)] by linarith
  qed (rule l3)
  then show ?thesis using d1 d2 d3 rel unfolding a_def by blast
qed

end
