(* ===== verification/Btree_Alloc.thy ===== *)
theory Btree_Alloc
  imports Btree_Space
begin

text \<open>
  What freeing, defragmenting and allocating do to the layout of a page.
\<close>

section \<open>Freeing a region\<close>

lemma space_raise:
  assumes sp: "space 4 u h lo d R ((t, s) # fs) t" and len: "length d' = length d" and top: "b2nz d' (h + 5) = t + s"
    and ch: "chain d' (h + 1) fs 0" and fr: "d' ! (h + 7) = d ! (h + 7)"
  shows "space 4 u h lo d' R fs (t + s)"
proof -
  note D = spaceD [OF sp]
  have s: "4 \<le> s" "t + s \<le> u" using D(9) [of "(t, s)"] by auto
  have "t + s \<le> fst r \<and> fst r + snd r \<le> u \<and> 4 \<le> snd r \<and> (\<forall>f \<in> set fs. apart r f)" if "r \<in> R" for r
    using D(12) [OF that] D(13) [OF that, of "(t, s)"] D(13) [OF that] s by (auto simp: apart_def)
  moreover have "ascending 4 (t + s) fs" using D(8) ascending_mono by auto
  moreover have "sum snd R + sum_list (map snd fs) + unat (d ! (h + 7)) = u - (t + s)" using D(14) s by simp
  ultimately show ?thesis using D(1-4,9-11) s len top ch fr unfolding space_def by simp
qed

text \<open>The first block, when it begins the content, is given to the gap.\<close>

lemma space_first:
  assumes sp: "space 4 u h lo d R fs t" and ne: "fs \<noteq> []" and t: "t < 65536"
  shows "\<exists>p raw. get2byte d (h + 1) = Some p \<and> get2byte d (h + 5) = Some raw \<and>
     (p = raw \<longrightarrow> (\<exists>link d1 x d2 fs' t'. mem_read d p 2 = Some link \<and> mem_write d (h + 1) link = Some d1 \<and> get2byte d1 (p + 2) = Some x \<and>
        put2byte d1 (h + 5) (raw + x) = Some d2 \<and> kept h lo R d d2 \<and> space 4 u h lo d2 R fs' t'))"
proof -
  note D = spaceD [OF sp]
  obtain p s fs' where fs: "fs = (p, s) # fs'" using ne by (cases fs) auto
  have p: "t \<le> p" "4 \<le> s" "p + s \<le> u" using D(9) [of "(p, s)"] by (auto simp: fs)
  have len: "h + 7 < length d" "p + 3 < length d" using D(1,3-5) p by linarith+
  have c: "b2 d (h + 1) = p" "b2 d (p + 2) = s" "chain d p fs' 0" using D(7) by (auto simp: fs)
  have raw: "b2 d (h + 5) = t" using D(6) t by (auto simp: b2nz_def split: if_splits)
  show ?thesis
  proof (cases "p = t")
    case False
    then show ?thesis using get2byte_b2 [of "h + 1" d] get2byte_b2 [of "h + 5" d] c raw len by simp
  next
    case True
    define link where "link = take 2 (drop p d)"
    have link: "length link = 2" "link ! 0 = d ! p" "link ! 1 = d ! Suc p" "mem_read d p 2 = Some link"
      using len by (simp_all add: link_def mem_read_def)
    obtain d1 where d1: "mem_write d (h + 1) link = Some d1" using mem_write_ok [of "h + 1" link d] link(1) len by auto
    have l1: "length d1 = length d" using mem_write_length [OF d1] by simp
    obtain d2 where d2: "put2byte d1 (h + 5) (t + s) = Some d2" using put2byte_ok [of "h + 5" d1 "t + s"] l1 len by auto
    have l2: "length d2 = length d" using put2byte_length [OF d2] l1 by simp
    have pt: "h + 8 \<le> p" using p(1) D(3,4) by linarith
    have x: "get2byte d1 (p + 2) = Some s"
      using get2byte_b2 [of "p + 2" d1] mem_write_b2 [OF d1, of "p + 2"] link(1) l1 len pt c(2) by simp
    have n: "d2 ! i = d ! i" if "i < length d" "i \<notin> {h + 1, h + 2, h + 5, h + 6}" for i
      using put2byte_nth [OF d2, of i] mem_write_nth [OF d1, of i] that l1 link(1) by (auto simp: less_Suc_eq)
    have first: "b2 d2 (h + 1) = b2 d p"
      using put2byte_nth [OF d2, of "h + 1"] put2byte_nth [OF d2, of "h + 2"] mem_write_nth [OF d1, of "h + 1"] mem_write_nth [OF d1, of "h + 2"] link(1-3) l1 len
      by (simp add: b2_def)
    have "chain d2 (h + 1) fs' 0 = chain d p fs' 0"
    proof (rule chain_head_cong [OF first])
      show "b2 d2 q = b2 d q \<and> b2 d2 (q + 2) = b2 d (q + 2)" if "(q, v) \<in> set fs'" for q v
        using D(9) [of "(q, v)"] that D(1) pt p(1) True by (auto simp: fs intro!: b2_cong n)
    qed
    moreover have "b2nz d2 (h + 5) = t + s"
      using b2_put2byte [OF d2] l1 len p True D(2) by (cases "t + s = 65536") (auto simp: b2nz_def)
    moreover have "d2 ! (h + 7) = d ! (h + 7)" by (rule n) (use len in auto)
    ultimately have "space 4 u h lo d2 R fs' (t + s)" using space_raise [of u h lo d R t s fs' d2] sp l2 c(3) True by (simp add: fs)
    moreover have "kept h lo R d d2" by (rule keptI [OF sp l2]) (use n in blast)
    ultimately show ?thesis using get2byte_b2 [of "h + 1" d] get2byte_b2 [of "h + 5" d] c raw len link(4) d1 d2 x True by auto
  qed
qed

lemma freeSpace_spec:
  assumes sp: "space 4 (usable P) (hdrOffset P) lo (aData P) R fs t" and r: "(p, s) \<in> R"
  shows "\<exists>d' fs' t'. freeSpace P p s = Some (SQLITE_OK, P\<lparr>nFree := (nFree P + s) mod 65536, aData := d'\<rparr>) \<and>
    space 4 (usable P) (hdrOffset P) lo d' (R - {(p, s)}) fs' t' \<and> kept (hdrOffset P) lo (R - {(p, s)}) (aData P) d'"
proof -
  let ?u = "usable P" let ?h = "hdrOffset P" let ?R = "R - {(p, s)}"
  note D = spaceD [OF sp]
  have p: "t \<le> p" "p + s \<le> ?u" "4 \<le> s" using D(12) [OF r] by auto
  have small: "t < 65536" "s mod 2 ^ 16 = s" "\<not> ?u - 4 < p" using p D(2-4) by auto
  obtain d0 where d0: "(if bts_secure_delete (pBt P) then mem_write (aData P) p (replicate s 0) else Some (aData P)) = Some d0"
    using mem_write_ok [of p "replicate s 0" "aData P"] p D(1) by (cases "bts_secure_delete (pBt P)") auto
  have l0: "length d0 = length (aData P)" using d0 mem_write_length by (fastforce split: if_splits)
  have n0: "inside i (p, s)" if "i < length (aData P)" "d0 ! i \<noteq> aData P ! i" for i
    using d0 mem_write_nth [of "aData P" p "replicate s 0" d0 i] that by (auto simp: inside_def split: if_splits)
  have sp0: "space 4 ?u ?h lo d0 R fs t" by (rule space_frame [OF sp l0]) (use n0 r in blast)
  have k0: "kept ?h lo ?R (aData P) d0"
    unfolding kept_def
  proof (intro conjI allI impI)
    fix i assume i: "i < length (aData P)" "i < lo \<and> i \<notin> {?h + 1, ?h + 2, ?h + 5, ?h + 6, ?h + 7} \<or> (\<exists>r \<in> ?R. inside i r)"
    have "\<not> inside i (p, s)"
    proof
      assume in_p: "inside i (p, s)"
      then have "\<not> i < lo" using p D(4) by (simp add: inside_def)
      then obtain r' where "r' \<in> R" "r' \<noteq> (p, s)" "inside i r'" using i(2) by blast
      then show False using D(11) r apart_inside [of r' "(p, s)" i] in_p by (auto simp: pairwise_def)
    qed
    then show "d0 ! i = aData P ! i" using n0 [OF i(1)] by blast
  qed (rule l0)
  obtain xs ys where split: "fs = xs @ ys" "free_find d0 p (?h + 1) = Some (SQLITE_OK, link_end (?h + 1) xs, case ys of [] \<Rightarrow> 0 | f # _ \<Rightarrow> fst f)"
      "\<forall>f \<in> set xs. fst f < p" "\<forall>f \<in> set ys. p \<le> fst f"
    using free_find_spec [of 4 ?u ?h lo d0 R "[]" fs t p] sp0 by auto
  define e where "e = (case ys of [] \<Rightarrow> 0 | f # _ \<Rightarrow> fst f)"
  have e: "\<not> ?u - 4 < e" using D(9) [of "hd ys"] by (auto simp: e_def split(1) split: list.splits)
  obtain d1 d2 d3 where w: "put2byte d0 (link_end (?h + 1) xs) p = Some d1" "put2byte d1 p e = Some d2" "put2byte d2 (p + 2) s = Some d3"
      "space 0 ?u ?h lo d3 ?R (xs @ (p, s) # ys) t" "kept ?h lo ?R d0 d3"
    using free_link [OF sp0 [unfolded split(1)] r split(3,4)] unfolding e_def by blast
  have "ascending 4 t ([] @ take 1 (xs @ (p, s) # ys))"
    using spaceD(8) [OF w(4)] spaceD(9) [OF w(4)] by (cases xs) (auto simp: p)
  then obtain d4 fs4 where c: "free_coalesce ?h d3 (?h + 1) = Some (SQLITE_OK, d4)" "space 4 ?u ?h lo d4 ?R fs4 t" "kept ?h lo ?R d3 d4" "fs4 \<noteq> []"
    using free_coalesce_spec [of ?u ?h lo d3 ?R "[]" "xs @ (p, s) # ys" t] w(4) by auto
  have k4: "kept ?h lo ?R (aData P) d4" using kept_trans [OF kept_trans [OF k0 w(5)] c(3)] by simp
  obtain q raw where f: "get2byte d4 (?h + 1) = Some q" "get2byte d4 (?h + 5) = Some raw"
     "q = raw \<longrightarrow> (\<exists>link d5 x d6 fs' t'. mem_read d4 q 2 = Some link \<and> mem_write d4 (?h + 1) link = Some d5 \<and> get2byte d5 (q + 2) = Some x \<and>
        put2byte d5 (?h + 5) (raw + x) = Some d6 \<and> kept ?h lo ?R d4 d6 \<and> space 4 ?u ?h lo d6 ?R fs' t')"
    using space_first [OF c(2,4) small(1)] by blast
  have pre: "freeSpace P p s = (if q = raw
      then do { link \<leftarrow> mem_read d4 q 2; d5 \<leftarrow> mem_write d4 (?h + 1) link; x \<leftarrow> get2byte d5 (q + 2); d6 \<leftarrow> put2byte d5 (?h + 5) (raw + x);
         Some (SQLITE_OK, P\<lparr>nFree := (nFree P + s) mod 65536, aData := d6\<rparr>) }
      else Some (SQLITE_OK, P\<lparr>nFree := (nFree P + s) mod 65536, aData := d4\<rparr>))"
    using d0 split(2) e w(1-3) c(1) f(1,2) small(2) unfolding freeSpace_def e_def [symmetric] by (simp add: Let_def)
  show ?thesis
  proof (cases "q = raw")
    case True
    then obtain link d5 x d6 fs' t' where "mem_read d4 q 2 = Some link" "mem_write d4 (?h + 1) link = Some d5" "get2byte d5 (q + 2) = Some x"
        "put2byte d5 (?h + 5) (raw + x) = Some d6" "kept ?h lo ?R d4 d6" "space 4 ?u ?h lo d6 ?R fs' t'"
      using f(3) by blast
    then show ?thesis using pre True kept_trans [OF k4] by auto
  next
    case False
    then show ?thesis using pre c(2) k4 by auto
  qed
qed

section \<open>Cells on a page\<close>

definition holds :: "bytes \<Rightarrow> nat \<Rightarrow> bytes \<Rightarrow> bool" where
  "holds d p c \<longleftrightarrow> p + length c \<le> length d \<and> take (length c) (drop p d) = c"

lemma holds_nth: "holds d p c \<longleftrightarrow> p + length c \<le> length d \<and> (\<forall>i < length c. d ! (p + i) = c ! i)"
  by (auto simp: holds_def list_eq_iff_nth_eq)

lemma holds_drop: "holds d p c \<Longrightarrow> drop p d = c @ drop (p + length c) d"
  unfolding holds_def by (metis append_take_drop_id drop_drop add.commute)

lemma holds_read: "holds d p c \<Longrightarrow> mem_read d p (length c) = Some c"
  by (simp add: holds_def mem_read_def)

lemma holds_write: "mem_write d p c = Some d' \<Longrightarrow> holds d' p c"
  using mem_write_length [of d p c d'] mem_write_nth [of d p c d'] by (simp add: holds_nth)

lemma holds_cong:
  "holds d p c \<Longrightarrow> length d' = length d \<Longrightarrow> (\<And>i. p \<le> i \<Longrightarrow> i < p + length c \<Longrightarrow> d' ! i = d ! i) \<Longrightarrow> holds d' p c"
  by (simp add: holds_nth)

text \<open>The regions of the cells.\<close>

definition cell_regions :: "nat list \<Rightarrow> bytes list \<Rightarrow> region set" where
  "cell_regions ps cs = set (zip ps (map length cs))"

lemma cell_regions_iff: "length ps = length cs \<Longrightarrow> r \<in> cell_regions ps cs \<longleftrightarrow> (\<exists>k < length cs. r = (ps ! k, length (cs ! k)))"
  by (auto simp: cell_regions_def set_zip)

lemma finite_cell_regions [simp]: "finite (cell_regions ps cs)"
  by (simp add: cell_regions_def)

lemma cell_regions_fst: "r \<in> cell_regions ps cs \<Longrightarrow> fst r \<in> set ps"
  by (cases r) (auto simp: cell_regions_def dest: set_zip_leftD)

lemma sum_cell_regions: "length ps = length cs \<Longrightarrow> distinct ps \<Longrightarrow> sum snd (cell_regions ps cs) = sum_list (map length cs)"
proof -
  assume a: "length ps = length cs" "distinct ps"
  then have "distinct (zip ps (map length cs))" by (simp add: distinct_zipI1)
  then have "sum snd (cell_regions ps cs) = sum_list (map snd (zip ps (map length cs)))"
    unfolding cell_regions_def by (rule sum.distinct_set_conv_list)
  then show ?thesis using a(1) by simp
qed

lemma cell_regions_insert: "length ps = length cs \<Longrightarrow> i \<le> length cs \<Longrightarrow>
    cell_regions (take i ps @ p # drop i ps) (take i cs @ c # drop i cs) = insert (p, length c) (cell_regions ps cs)"
proof -
  assume a: "length ps = length cs" "i \<le> length cs"
  have "zip ps (map length cs) = zip (take i ps @ drop i ps) (map length (take i cs @ drop i cs))" by simp
  also have "\<dots> = zip (take i ps) (map length (take i cs)) @ zip (drop i ps) (map length (drop i cs))"
    unfolding map_append using a by (intro zip_append) simp
  finally have "cell_regions ps cs = set (zip (take i ps) (map length (take i cs))) \<union> set (zip (drop i ps) (map length (drop i cs)))"
    by (simp add: cell_regions_def)
  then show ?thesis using a by (simp add: cell_regions_def)
qed

text \<open>
  Pointers to the cells of cs and their bytes, with the regions X besides them.
\<close>

definition cells_rep :: "MemPage \<Rightarrow> nat \<Rightarrow> bytes \<Rightarrow> region set \<Rightarrow> nat list \<Rightarrow> bytes list \<Rightarrow> region list \<Rightarrow> nat \<Rightarrow> bool" where
  "cells_rep P lo d X ps cs fs t \<longleftrightarrow> space 4 (usable P) (hdrOffset P) lo d (X \<union> cell_regions ps cs) fs t \<and> X \<inter> cell_regions ps cs = {} \<and>
     distinct ps \<and> list_all2 (holds d) ps cs \<and> list_all (is_cell P) cs \<and> (\<forall>k < length ps. b2 d (cellOffset P + 2 * k) = ps ! k) \<and>
     hdrOffset P + 8 \<le> cellOffset P \<and> cellOffset P + 2 * length ps \<le> lo"

lemma cells_repD:
  assumes "cells_rep P lo d X ps cs fs t"
  shows "space 4 (usable P) (hdrOffset P) lo d (X \<union> cell_regions ps cs) fs t" "X \<inter> cell_regions ps cs = {}"
    "distinct ps" "list_all2 (holds d) ps cs" "list_all (is_cell P) cs" "\<And>k. k < length ps \<Longrightarrow> b2 d (cellOffset P + 2 * k) = ps ! k"
    "hdrOffset P + 8 \<le> cellOffset P" "cellOffset P + 2 * length ps \<le> lo" "length ps = length cs"
  using assms by (auto simp: cells_rep_def dest: list_all2_lengthD)

text \<open>Cells stay where the bytes of their pointers and regions stay.\<close>

lemma cells_rep_kept:
  assumes rep: "cells_rep P lo d X ps cs fs t" and k: "kept (hdrOffset P) lo' R' d d'" and R': "cell_regions ps cs \<subseteq> R'"
    and lo': "cellOffset P + 2 * length ps \<le> lo'" and sp: "space 4 (usable P) (hdrOffset P) lo' d' (X' \<union> cell_regions ps cs) fs' t'"
    and X': "X' \<inter> cell_regions ps cs = {}"
  shows "cells_rep P lo' d' X' ps cs fs' t'"
proof -
  note C = cells_repD [OF rep]
  note D = spaceD [OF C(1)]
  have same: "d' ! i = d ! i" if "i < length d" "i < lo' \<and> hdrOffset P + 8 \<le> i \<or> (\<exists>r \<in> cell_regions ps cs. inside i r)" for i
    using k R' that unfolding kept_def by fastforce
  have len: "length d' = length d" using k by (simp add: kept_def)
  have "list_all2 (holds d') ps cs"
    unfolding list_all2_conv_all_nth
  proof (intro conjI allI impI)
    fix k assume k: "k < length ps"
    have h: "holds d (ps ! k) (cs ! k)" using C(4) k by (simp add: list_all2_nthD)
    have r: "(ps ! k, length (cs ! k)) \<in> cell_regions ps cs" using cell_regions_iff [OF C(9)] k C(9) by auto
    show "holds d' (ps ! k) (cs ! k)"
    proof (rule holds_cong [OF h len])
      show "d' ! i = d ! i" if "ps ! k \<le> i" "i < ps ! k + length (cs ! k)" for i
      proof (rule same)
        show "i < length d" using h that by (simp add: holds_def)
        show "i < lo' \<and> hdrOffset P + 8 \<le> i \<or> (\<exists>r \<in> cell_regions ps cs. inside i r)"
          using r that by (force simp: inside_def)
      qed
    qed
  qed (rule C(9))
  moreover have "b2 d' (cellOffset P + 2 * k) = ps ! k" if "k < length ps" for k
  proof -
    have "b2 d' (cellOffset P + 2 * k) = b2 d (cellOffset P + 2 * k)"
      by (rule b2_cong; rule same) (use that C(7,8) D(1,4,5) lo' in linarith)+
    then show ?thesis using C(6) [OF that] by simp
  qed
  ultimately show ?thesis using C(3,5,7) lo' sp X' by (simp add: cells_rep_def)
qed

section \<open>Defragmenting\<close>

text \<open>The cells one below the other from u on.\<close>

fun offs :: "nat \<Rightarrow> bytes list \<Rightarrow> nat list" where
  "offs u [] = []"
| "offs u (c # cs) = (u - length c) # offs (u - length c) cs"

abbreviation sizes :: "bytes list \<Rightarrow> nat" where "sizes cs \<equiv> sum_list (map length cs)"

lemma length_offs [simp]: "length (offs u cs) = length cs"
  by (induction u cs rule: offs.induct) auto

lemma cell_regions_Cons: "cell_regions (p # ps) (c # cs) = insert (p, length c) (cell_regions ps cs)"
  by (simp add: cell_regions_def)

lemma offs_regions:
  assumes "sizes cs \<le> u" and "list_all (\<lambda>c. 4 \<le> length c) cs"
  shows "(\<forall>r \<in> cell_regions (offs u cs) cs. u - sizes cs \<le> fst r \<and> fst r + snd r \<le> u \<and> 4 \<le> snd r) \<and>
    pairwise apart (cell_regions (offs u cs) cs) \<and> distinct (offs u cs) \<and> (\<forall>p \<in> set (offs u cs). p + 4 \<le> u)"
  using assms
proof (induction u cs rule: offs.induct)
  case (2 u c cs)
  let ?R = "cell_regions (offs (u - length c) cs) cs"
  have IH: "\<forall>r \<in> ?R. u - length c - sizes cs \<le> fst r \<and> fst r + snd r \<le> u - length c \<and> 4 \<le> snd r"
      "pairwise apart ?R" "distinct (offs (u - length c) cs)" "\<forall>p \<in> set (offs (u - length c) cs). p + 4 \<le> u - length c"
    using 2 by auto
  have "apart (u - length c, length c) r \<and> apart r (u - length c, length c)" if "r \<in> ?R" for r
    using IH(1) that by (force simp: apart_def)
  then have "pairwise apart (insert (u - length c, length c) ?R)" using IH(2) by (simp add: pairwise_insert)
  moreover have "u - length c \<notin> set (offs (u - length c) cs)" using IH(4) by fastforce
  moreover have "\<forall>p \<in> set (offs (u - length c) cs). p + 4 \<le> u" using IH(4) by fastforce
  moreover have "\<forall>r \<in> ?R. u - sizes (c # cs) \<le> fst r \<and> fst r + snd r \<le> u \<and> 4 \<le> snd r" using IH(1) by fastforce
  ultimately show ?case using IH(3) 2(2,3) by (auto simp: cell_regions_Cons)
qed (simp add: cell_regions_def)

lemma defrag_cells_spec:
  assumes "list_all2 (\<lambda>p c. holds temp p c \<and> lo \<le> p \<and> p + length c \<le> usable P \<and> is_cell P c) ps cs"
    and "\<And>k. k < length ps \<Longrightarrow> b2 d (cellOffset P + 2 * (i + k)) = ps ! k" and "i + length ps = nCell P"
    and "lo + sizes cs \<le> cb" and "cb \<le> usable P" and "usable P \<le> length d" and "usable P \<le> 65536"
    and ok: "local_ok P" and lo: "lo = cellOffset P + 2 * nCell P"
  shows "\<exists>d'. defrag_cells P temp [i..<nCell P] d cb = Some (SQLITE_OK, d', cb - sizes cs) \<and> length d' = length d \<and>
    (\<forall>k < length ps. b2 d' (cellOffset P + 2 * (i + k)) = offs cb cs ! k) \<and> list_all2 (holds d') (offs cb cs) cs \<and>
    (\<forall>j < length d. j < cellOffset P + 2 * i \<or> lo \<le> j \<and> j < cb - sizes cs \<or> cb \<le> j \<longrightarrow> d' ! j = d ! j)"
  using assms(1-7)
proof (induction ps cs arbitrary: i d cb rule: list_all2_induct)
  case Nil
  then show ?case by simp
next
  case (Cons p ps' c cs)
  let ?co = "cellOffset P" let ?n = "length c"
  have c: "holds temp p c" "lo \<le> p" "p + ?n \<le> usable P" "is_cell P c" using Cons.hyps(1) by auto
  have n: "4 \<le> ?n" "cellSizePtr P (drop p temp) = Some ?n" using is_cellD [OF ok c(4)] holds_drop [OF c(1)] by simp_all
  have i: "i < nCell P" using Cons.prems(2) by simp
  have ptr: "?co + 2 * i + 2 \<le> lo" using i lo by simp
  have cb: "lo + ?n \<le> cb" "cb - ?n - sizes cs = cb - sizes (c # cs)" "lo + sizes cs \<le> cb - ?n" using Cons.prems(3) by auto
  have len: "cb \<le> length d" using Cons.prems(4,5) by simp
  have b: "b2 d (?co + 2 * i) = p" using Cons.prems(1) [of 0] by simp
  then have g: "get2byte d (?co + 2 * i) = Some p" using get2byte_b2 [of "?co + 2 * i" d] ptr cb(1) len n by simp
  obtain d1 where d1: "mem_write d (cb - ?n) c = Some d1" using mem_write_ok [of "cb - ?n" c d] cb(1) len by auto
  have l1: "length d1 = length d" using mem_write_length [OF d1] by simp
  obtain d2 where d2: "put2byte d1 (?co + 2 * i) (cb - ?n) = Some d2"
    using put2byte_ok [of "?co + 2 * i" d1 "cb - ?n"] l1 ptr cb(1) len n by auto
  have l2: "length d2 = length d" using put2byte_length [OF d2] l1 by simp
  have n2: "d2 ! j = (if j = ?co + 2 * i then of_nat ((cb - ?n) div 256) else if j = Suc (?co + 2 * i) then of_nat (cb - ?n) else
      if cb - ?n \<le> j \<and> j < cb then c ! (j - (cb - ?n)) else d ! j)" if "j < length d" for j
    using put2byte_nth [OF d2, of j] mem_write_nth [OF d1, of j] that l1 cb(1) by auto
  have run: "defrag_cells P temp [i..<nCell P] d cb = defrag_cells P temp [Suc i..<nCell P] d2 (cb - ?n)"
  proof -
    have "\<not> (p < lo \<or> usable P - 4 < p)" "\<not> (cb < lo + ?n \<or> usable P < p + ?n)" using c(2,3) n(1) cb(1) by linarith+
    then show ?thesis using upt_conv_Cons [OF i] g n(2) holds_read [OF c(1)] d1 d2 by (simp add: lo)
  qed
  have "\<exists>d'. defrag_cells P temp [Suc i..<nCell P] d2 (cb - ?n) = Some (SQLITE_OK, d', cb - ?n - sizes cs) \<and> length d' = length d2 \<and>
    (\<forall>k < length ps'. b2 d' (?co + 2 * (Suc i + k)) = offs (cb - ?n) cs ! k) \<and> list_all2 (holds d') (offs (cb - ?n) cs) cs \<and>
    (\<forall>j < length d2. j < ?co + 2 * Suc i \<or> lo \<le> j \<and> j < cb - ?n - sizes cs \<or> cb - ?n \<le> j \<longrightarrow> d' ! j = d2 ! j)"
  proof (rule Cons.IH)
    show "b2 d2 (?co + 2 * (Suc i + k)) = ps' ! k" if "k < length ps'" for k
    proof -
      have "?co + 2 * (Suc i + k) + 2 \<le> lo" using Cons.prems(2) that by (simp add: lo)
      then have "b2 d2 (?co + 2 * (Suc i + k)) = b2 d (?co + 2 * (Suc i + k))"
        using cb(1) len by (intro b2_cong) (auto simp: n2)
      then show ?thesis using Cons.prems(1) [of "Suc k"] that by simp
    qed
  qed (use Cons.prems(2,4-6) cb l2 in simp_all)
  then obtain d' where d': "defrag_cells P temp [Suc i..<nCell P] d2 (cb - ?n) = Some (SQLITE_OK, d', cb - ?n - sizes cs)" "length d' = length d2"
      "\<And>k. k < length ps' \<Longrightarrow> b2 d' (?co + 2 * (Suc i + k)) = offs (cb - ?n) cs ! k" "list_all2 (holds d') (offs (cb - ?n) cs) cs"
      "\<And>j. j < length d2 \<Longrightarrow> j < ?co + 2 * Suc i \<or> lo \<le> j \<and> j < cb - ?n - sizes cs \<or> cb - ?n \<le> j \<Longrightarrow> d' ! j = d2 ! j"
    by blast
  have "holds d' (cb - ?n) c"
  proof -
    have "holds d1 (cb - ?n) c" by (rule holds_write [OF d1])
    moreover have "d' ! j = d1 ! j" if "cb - ?n \<le> j" "j < cb - ?n + ?n" for j
    proof -
      have j: "j < length d" "j \<noteq> ?co + 2 * i" "j \<noteq> Suc (?co + 2 * i)" using that cb(1) len ptr by linarith+
      then have "d' ! j = d2 ! j" using that l2 by (intro d'(5)) auto
      then show ?thesis using put2byte_nth [OF d2, of j] j l1 by simp
    qed
    ultimately show ?thesis using holds_cong [of d1 "cb - ?n" c d'] d'(2) l1 l2 by simp
  qed
  moreover have "b2 d' (?co + 2 * i) = cb - ?n"
  proof -
    have "b2 d' (?co + 2 * i) = b2 d2 (?co + 2 * i)" using ptr cb(1) len l2 by (intro b2_cong d'(5)) auto
    also have "\<dots> = (cb - ?n) mod 65536" using b2_put2byte [OF d2] l1 ptr cb(1) len n by simp
    finally show ?thesis using n(1) Cons.prems(4,6) cb(1) by simp
  qed
  moreover have "b2 d' (?co + 2 * (i + k)) = offs cb (c # cs) ! k" if "k < length (p # ps')" for k
    using that calculation(2) d'(3) [of "k - 1"] by (cases k) simp_all
  moreover have "d' ! j = d ! j" if "j < length d" "j < ?co + 2 * i \<or> lo \<le> j \<and> j < cb - sizes (c # cs) \<or> cb \<le> j" for j
  proof -
    have "d' ! j = d2 ! j" using that l2 cb by (intro d'(5)) auto
    also have "\<dots> = d ! j" using n2 [OF that(1)] that(2) cb(1) ptr by auto
    finally show ?thesis .
  qed
  ultimately show ?case using run d'(1,2,4) l2 cb(2) by simp
qed

lemma space_packed:
  assumes "u \<le> length d" "u \<le> 65536" "h + 8 \<le> lo" "lo + sizes cs \<le> u" "b2nz d (h + 5) = u - sizes cs" "b2 d (h + 1) = 0" "d ! (h + 7) = 0"
    and "list_all (\<lambda>c. 4 \<le> length c) cs"
  shows "space 4 u h lo d (cell_regions (offs u cs) cs) [] (u - sizes cs)" and "distinct (offs u cs)"
  using assms offs_regions [of cs u] sum_cell_regions [of "offs u cs" cs] by (auto simp: space_def)

lemma mem_patch:
  assumes "raw \<le> u" "u \<le> length d" "u \<le> length temp"
  shows "\<exists>src temp'. mem_read d raw (u - raw) = Some src \<and> mem_write temp raw src = Some temp' \<and>
    (\<forall>p c. holds d p c \<and> raw \<le> p \<and> p + length c \<le> u \<longrightarrow> holds temp' p c)"
proof -
  define src where "src = take (u - raw) (drop raw d)"
  have src: "length src = u - raw" "mem_read d raw (u - raw) = Some src" using assms by (simp_all add: src_def mem_read_def)
  obtain temp' where t: "mem_write temp raw src = Some temp'" using mem_write_ok [of raw src temp] src(1) assms by auto
  have "temp' ! i = d ! i" if "raw \<le> i" "i < u" for i
    using mem_write_nth [OF t, of i] src(1) that assms by (simp add: src_def)
  then have "\<forall>p c. holds d p c \<and> raw \<le> p \<and> p + length c \<le> u \<longrightarrow> holds temp' p c"
    using mem_write_length [OF t] assms by (auto simp: holds_nth)
  then show ?thesis using src(2) t by blast
qed

text \<open>The writes after the loop: header fields and zeros in the gap.\<close>

lemma defrag_tail:
  assumes "h + 8 \<le> lo" "lo \<le> cbrk" "cbrk \<le> length d" "0 < cbrk" "cbrk \<le> 65536"
  shows "\<exists>d1 d2 d3 d4. put2byte d (h + 5) cbrk = Some d1 \<and> mem_write d1 (h + 1) [0, 0] = Some d2 \<and> mem_write d2 (h + 7) [0] = Some d3 \<and>
    mem_write d3 lo (replicate (cbrk - lo) 0) = Some d4 \<and> length d4 = length d \<and> b2nz d4 (h + 5) = cbrk \<and> b2 d4 (h + 1) = 0 \<and> d4 ! (h + 7) = 0 \<and>
    (\<forall>i < length d. i \<notin> {h + 1, h + 2, h + 5, h + 6, h + 7} \<and> \<not> (lo \<le> i \<and> i < cbrk) \<longrightarrow> d4 ! i = d ! i)"
proof -
  obtain d1 where d1: "put2byte d (h + 5) cbrk = Some d1" using put2byte_ok [of "h + 5" d cbrk] assms by auto
  have l1: "length d1 = length d" by (rule put2byte_length [OF d1])
  obtain d2 where d2: "mem_write d1 (h + 1) [0, 0] = Some d2" using mem_write_ok [of "h + 1" "[0, 0]" d1] assms l1 by auto
  have l2: "length d2 = length d" using mem_write_length [OF d2] l1 by simp
  obtain d3 where d3: "mem_write d2 (h + 7) [0] = Some d3" using mem_write_ok [of "h + 7" "[0]" d2] assms l2 by auto
  have l3: "length d3 = length d" using mem_write_length [OF d3] l2 by simp
  obtain d4 where d4: "mem_write d3 lo (replicate (cbrk - lo) 0) = Some d4" using mem_write_ok [of lo "replicate (cbrk - lo) 0" d3] assms l3 by auto
  have l4: "length d4 = length d" using mem_write_length [OF d4] l3 by simp
  have n4: "d4 ! i = (if lo \<le> i \<and> i < cbrk then 0 else if i = h + 7 then 0 else if i = h + 1 \<or> i = h + 2 then 0 else d1 ! i)"
    if "i < length d" for i
    using mem_write_nth [OF d4, of i] mem_write_nth [OF d3, of i] mem_write_nth [OF d2, of i] that l1 l2 l3 assms(1,2)
    by (cases "i = h + 7") (auto simp: nth_Cons' less_Suc_eq)
  have "b2 d4 (h + 5) = b2 d1 (h + 5)" using assms by (intro b2_cong) (simp_all add: n4)
  then have "b2nz d4 (h + 5) = cbrk" using b2_put2byte [OF d1] assms by (cases "cbrk = 65536") (simp_all add: b2nz_def)
  moreover have "b2 d4 (h + 1) = 0" "d4 ! (h + 7) = 0" using assms by (simp_all add: b2_def n4)
  moreover have "d4 ! i = d ! i" if "i < length d" "i \<notin> {h + 1, h + 2, h + 5, h + 6, h + 7}" "\<not> (lo \<le> i \<and> i < cbrk)" for i
    using n4 [OF that(1)] put2byte_nth [OF d1, of i] that by auto
  ultimately show ?thesis using d1 d2 d3 d4 l4 by blast
qed

definition header_kept :: "MemPage \<Rightarrow> bytes \<Rightarrow> bytes \<Rightarrow> bool" where
  "header_kept P d d' \<longleftrightarrow> length d' = length d \<and>
     (\<forall>i < length d. i < cellOffset P \<and> i \<notin> {hdrOffset P + 1, hdrOffset P + 2, hdrOffset P + 5, hdrOffset P + 6, hdrOffset P + 7} \<longrightarrow> d' ! i = d ! i)"

lemma header_kept_trans: "header_kept P d d' \<Longrightarrow> header_kept P d' d'' \<Longrightarrow> header_kept P d d''"
  by (simp add: header_kept_def)

lemma kept_header: "kept (hdrOffset P) lo R d d' \<Longrightarrow> cellOffset P \<le> lo \<Longrightarrow> header_kept P d d'"
  by (auto simp: kept_def header_kept_def)

lemma defragmentPage_spec:
  assumes rep: "cells_rep P lo (aData P) {} ps cs fs t" and lo: "lo = cellOffset P + 2 * nCell P" and n: "nCell P = length cs"
    and ok: "local_ok P" and free: "nFree P + lo + sizes cs = usable P" and temp: "usable P \<le> length temp"
  shows "\<exists>d'. defragmentPage P temp = Some (SQLITE_OK, P\<lparr>aData := d'\<rparr>) \<and> header_kept P (aData P) d' \<and>
    cells_rep P lo d' {} (offs (usable P) cs) cs [] (usable P - sizes cs)"
proof -
  let ?u = "usable P" let ?h = "hdrOffset P" let ?d = "aData P" let ?co = "cellOffset P"
  note C = cells_repD [OF rep]
  note D = spaceD [OF C(1)]
  define raw where "raw = b2 ?d (?h + 5)"
  have raw: "raw \<le> t" "get2byte ?d (?h + 5) = Some raw" using D(6) get2byte_b2 [of "?h + 5" ?d] D(1,3-5) by (auto simp: raw_def b2nz_def split: if_splits)
  obtain src temp' where t': "mem_read ?d raw (?u - raw) = Some src" "mem_write temp raw src = Some temp'"
      "\<And>p c. holds ?d p c \<Longrightarrow> raw \<le> p \<Longrightarrow> p + length c \<le> ?u \<Longrightarrow> holds temp' p c"
    using mem_patch [of raw ?u ?d temp] raw(1) D(1,5) temp by auto
  have lens: "list_all (\<lambda>c. 4 \<le> length c) cs" using C(5) is_cellD(1) [OF ok] by (simp add: list_all_iff)
  have "list_all2 (\<lambda>p c. holds temp' p c \<and> lo \<le> p \<and> p + length c \<le> ?u \<and> is_cell P c) ps cs"
    unfolding list_all2_conv_all_nth
  proof (intro conjI allI impI)
    fix k assume k: "k < length ps"
    have h: "holds ?d (ps ! k) (cs ! k)" using C(4) k by (simp add: list_all2_nthD)
    have r: "(ps ! k, length (cs ! k)) \<in> cell_regions ps cs" using cell_regions_iff [OF C(9)] k C(9) by auto
    then have p: "t \<le> ps ! k" "ps ! k + length (cs ! k) \<le> ?u" using D(12) by force+
    then show "holds temp' (ps ! k) (cs ! k)" using t'(3) [OF h] raw(1) by simp
    show "lo \<le> ps ! k" "ps ! k + length (cs ! k) \<le> ?u" using p D(4) by simp_all
    show "is_cell P (cs ! k)" using C(5,9) k by (simp add: list_all_length)
  qed (rule C(9))
  then have "\<exists>d1. defrag_cells P temp' [0..<nCell P] ?d ?u = Some (SQLITE_OK, d1, ?u - sizes cs) \<and> length d1 = length ?d \<and>
    (\<forall>k < length ps. b2 d1 (?co + 2 * (0 + k)) = offs ?u cs ! k) \<and> list_all2 (holds d1) (offs ?u cs) cs \<and>
    (\<forall>j < length ?d. j < ?co + 2 * 0 \<or> lo \<le> j \<and> j < ?u - sizes cs \<or> ?u \<le> j \<longrightarrow> d1 ! j = ?d ! j)"
    by (rule defrag_cells_spec) (use C(6,9) n free D(1,2) ok lo in simp_all)
  then obtain d1 where d1: "defrag_cells P temp' [0..<nCell P] ?d ?u = Some (SQLITE_OK, d1, ?u - sizes cs)" "length d1 = length ?d"
      "\<And>k. k < length cs \<Longrightarrow> b2 d1 (?co + 2 * k) = offs ?u cs ! k" "list_all2 (holds d1) (offs ?u cs) cs"
      "\<And>j. j < length ?d \<Longrightarrow> j < ?co \<Longrightarrow> d1 ! j = ?d ! j"
    using C(9) by auto
  define cbrk where "cbrk = ?u - sizes cs"
  have cb: "lo \<le> cbrk" "cbrk \<le> ?u" "cbrk - lo = nFree P" using free by (simp_all add: cbrk_def)
  have co: "?h + 8 \<le> ?co" "?co \<le> lo" using C(7) lo by simp_all
  have "\<exists>d2 d3 d4 d5. put2byte d1 (?h + 5) cbrk = Some d2 \<and> mem_write d2 (?h + 1) [0, 0] = Some d3 \<and> mem_write d3 (?h + 7) [0] = Some d4 \<and>
      mem_write d4 lo (replicate (cbrk - lo) 0) = Some d5 \<and> length d5 = length d1 \<and> b2nz d5 (?h + 5) = cbrk \<and> b2 d5 (?h + 1) = 0 \<and> d5 ! (?h + 7) = 0 \<and>
      (\<forall>i < length d1. i \<notin> {?h + 1, ?h + 2, ?h + 5, ?h + 6, ?h + 7} \<and> \<not> (lo \<le> i \<and> i < cbrk) \<longrightarrow> d5 ! i = d1 ! i)"
    by (rule defrag_tail) (use cb co d1(2) D(1,2) in linarith)+
  then obtain d2 d3 d4 d5 where w: "put2byte d1 (?h + 5) cbrk = Some d2" "mem_write d2 (?h + 1) [0, 0] = Some d3" "mem_write d3 (?h + 7) [0] = Some d4"
      "mem_write d4 lo (replicate (cbrk - lo) 0) = Some d5" "length d5 = length d1" "b2nz d5 (?h + 5) = cbrk" "b2 d5 (?h + 1) = 0" "d5 ! (?h + 7) = 0"
      "\<And>i. i < length d1 \<Longrightarrow> i \<notin> {?h + 1, ?h + 2, ?h + 5, ?h + 6, ?h + 7} \<Longrightarrow> \<not> (lo \<le> i \<and> i < cbrk) \<Longrightarrow> d5 ! i = d1 ! i"
    by blast
  have run: "defragmentPage P temp = Some (SQLITE_OK, P\<lparr>aData := d5\<rparr>)"
    using raw t'(1,2) d1(1) w(1-4) cb(3) D(5) unfolding defragmentPage_def cbrk_def [symmetric] lo [symmetric] by (simp add: Let_def)
  note S = space_packed [of ?u d5 ?h lo cs]
  have S: "space 4 ?u ?h lo d5 (cell_regions (offs ?u cs) cs) [] cbrk" "distinct (offs ?u cs)"
    unfolding cbrk_def using S w(5-8) d1(2) D(1,2) co free lens by (simp_all add: cbrk_def)
  have "list_all2 (holds d5) (offs ?u cs) cs"
    unfolding list_all2_conv_all_nth
  proof (intro conjI allI impI)
    fix k assume k: "k < length (offs ?u cs)"
    have h: "holds d1 (offs ?u cs ! k) (cs ! k)" using d1(4) k by (simp add: list_all2_nthD)
    have "(offs ?u cs ! k, length (cs ! k)) \<in> cell_regions (offs ?u cs) cs" using cell_regions_iff [of "offs ?u cs" cs] k by auto
    then have "cbrk \<le> offs ?u cs ! k" using spaceD(12) [OF S(1)] by force
    then show "holds d5 (offs ?u cs ! k) (cs ! k)"
      using h w(5) cb co by (intro holds_cong [OF h w(5)] w(9)) (auto simp: holds_def)
  qed simp
  moreover have "b2 d5 (?co + 2 * k) = offs ?u cs ! k" if "k < length cs" for k
  proof -
    have "b2 d5 (?co + 2 * k) = b2 d1 (?co + 2 * k)"
      by (rule b2_cong; rule w(9)) (use that lo n co cb d1(2) D(1) in auto)
    then show ?thesis using d1(3) [OF that] by simp
  qed
  ultimately have "cells_rep P lo d5 {} (offs ?u cs) cs [] cbrk" using S C(5) co lo n by (simp add: cells_rep_def)
  moreover have "header_kept P ?d d5"
    unfolding header_kept_def using w(5,9) d1(2,5) co by auto
  ultimately show ?thesis using run by (auto simp: cbrk_def)
qed

end
