(* ===== verification/Btree_Store.thy ===== *)
theory Btree_Store
  imports Btree_Alloc
begin

text \<open>
  Allocating space on a page, and the page as a sequence of cells.
\<close>

section \<open>Fields that the layout does not depend on\<close>

lemma cellSizePtr_cong:
  assumes "intKey P' = intKey P" "hasData P' = hasData P" "childPtrSize P' = childPtrSize P" "pgMaxLocal P' = pgMaxLocal P"
    "pgMinLocal P' = pgMinLocal P" "pBt P' = pBt P"
  shows "cellSizePtr P' = cellSizePtr P"
  unfolding fun_eq_iff cellSizePtr_def assms by simp

lemma is_cell_cong:
  assumes "intKey P' = intKey P" "hasData P' = hasData P" "childPtrSize P' = childPtrSize P" "pgMaxLocal P' = pgMaxLocal P"
    "pgMinLocal P' = pgMinLocal P" "pBt P' = pBt P"
  shows "is_cell P' = is_cell P"
  unfolding fun_eq_iff is_cell_def cellSizePtr_cong [OF assms] by simp

lemma is_cell_update [simp]:
  "is_cell (P\<lparr>aData := x\<rparr>) = is_cell P" "is_cell (P\<lparr>nCell := n\<rparr>) = is_cell P" "is_cell (P\<lparr>nFree := n\<rparr>) = is_cell P"
  "is_cell (P\<lparr>ovfl := os\<rparr>) = is_cell P"
  by (rule is_cell_cong; simp)+

lemma local_ok_update [simp]:
  "local_ok (P\<lparr>aData := x\<rparr>) = local_ok P" "local_ok (P\<lparr>nCell := n\<rparr>) = local_ok P" "local_ok (P\<lparr>nFree := n\<rparr>) = local_ok P"
  "local_ok (P\<lparr>ovfl := os\<rparr>) = local_ok P"
  by (simp_all add: local_ok_def)

lemma cells_rep_update [simp]:
  "cells_rep (P\<lparr>aData := x\<rparr>) = cells_rep P" "cells_rep (P\<lparr>nCell := n\<rparr>) = cells_rep P" "cells_rep (P\<lparr>nFree := n\<rparr>) = cells_rep P"
  "cells_rep (P\<lparr>ovfl := os\<rparr>) = cells_rep P"
  by (simp_all add: fun_eq_iff cells_rep_def)

lemma header_kept_update [simp]:
  "header_kept (P\<lparr>aData := x\<rparr>) = header_kept P" "header_kept (P\<lparr>nCell := n\<rparr>) = header_kept P" "header_kept (P\<lparr>nFree := n\<rparr>) = header_kept P"
  "header_kept (P\<lparr>ovfl := os\<rparr>) = header_kept P"
  by (simp_all add: fun_eq_iff header_kept_def)

section \<open>Allocating\<close>

lemma space_gap:
  assumes sp: "space 4 u h lo d R fs t" and n: "4 \<le> n" "lo + n \<le> t"
  shows "\<exists>d'. put2byte d (h + 5) (t - n) = Some d' \<and> space 4 u h lo d' (insert (t - n, n) R) fs (t - n) \<and> (t - n, n) \<notin> R \<and> kept h lo R d d'"
proof -
  note D = spaceD [OF sp]
  have len: "h + 7 < length d" using D(1,3-5) by linarith
  have le: "lo \<le> t - n" "t - n \<le> u" using n D(5) by linarith+
  obtain d' where d': "put2byte d (h + 5) (t - n) = Some d'" using put2byte_ok [of "h + 5" d] len by auto
  have l: "length d' = length d" by (rule put2byte_length [OF d'])
  have same: "d' ! i = d ! i" if "i < length d" "i \<noteq> h + 5" "i \<noteq> h + 6" for i
    using put2byte_nth [OF d' that(1)] that by simp
  have "b2nz d' (h + 5) = t - n" using b2_put2byte [OF d'] len n D(2-5) by (simp add: b2nz_def)
  moreover have "chain d' (h + 1) fs 0 = chain d (h + 1) fs 0"
  proof (rule chain_cong)
    show "b2 d' (h + 1) = b2 d (h + 1)" by (rule b2_cong; rule same) (use len in simp_all)
    show "b2 d' p = b2 d p \<and> b2 d' (p + 2) = b2 d (p + 2)" if "(p, s) \<in> set fs" for p s
      using D(9) [OF that] D(1,3,4) by (intro conjI b2_cong same) auto
  qed
  moreover have "d' ! (h + 7) = d ! (h + 7)" by (rule same) (use len in simp_all)
  moreover have a: "apart (t - n, n) r" if "r \<in> R \<or> r \<in> set fs" for r
    using D(9) [of r] D(12) [of r] that n by (auto simp: apart_def)
  moreover have notin: "(t - n, n) \<notin> R" using D(12) n by force
  moreover have "pairwise apart (insert (t - n, n) R)" using D(11) a apart_sym unfolding pairwise_insert by blast
  moreover have "sum snd (insert (t - n, n) R) + sum_list (map snd fs) + unat (d ! (h + 7)) = u - (t - n)"
    using D(5,10,14) notin n by simp
  moreover have "ascending 4 (t - n) fs" using D(8) by (rule ascending_mono) simp
  moreover have "\<forall>r \<in> insert (t - n, n) R. t - n \<le> fst r \<and> fst r + snd r \<le> u \<and> 4 \<le> snd r \<and> (\<forall>f \<in> set fs. apart r f)"
    using D(5,12,13) a n by force
  ultimately have "space 4 u h lo d' (insert (t - n, n) R) fs (t - n)"
    using D(1-5,7,9,10) n l le unfolding space_def by simp
  moreover have "kept h lo R d d'" by (rule keptI [OF sp l]) (use same in blast)
  ultimately show ?thesis using d' notin by blast
qed

text \<open>The cells after an allocation: the new region idx besides them, and room for its pointer.\<close>

definition allocated :: "MemPage \<Rightarrow> nat \<Rightarrow> nat \<Rightarrow> bytes list \<Rightarrow> (result_code \<times> MemPage \<times> nat) option \<Rightarrow> bool" where
  "allocated P lo n cs res \<longleftrightarrow> (\<exists>d' idx ps fs t. res = Some (SQLITE_OK, P\<lparr>aData := d'\<rparr>, idx) \<and> header_kept P (aData P) d' \<and>
     cells_rep P lo d' {(idx, n)} ps cs fs t \<and> lo + 2 \<le> t)"

lemma alloc_gap_spec:
  assumes rep: "cells_rep P lo (aData P) {} ps cs fs t" and n: "4 \<le> n" "lo + 2 + n \<le> t"
  shows "allocated P lo n cs (alloc_gap P n t)"
proof -
  note C = cells_repD [OF rep]
  have "4 \<le> n \<and> lo + n \<le> t" using n by simp
  then obtain d' where d': "put2byte (aData P) (hdrOffset P + 5) (t - n) = Some d'"
     "space 4 (usable P) (hdrOffset P) lo d' (insert (t - n, n) (cell_regions ps cs)) fs (t - n)" "(t - n, n) \<notin> cell_regions ps cs"
     "kept (hdrOffset P) lo (cell_regions ps cs) (aData P) d'"
    using space_gap [OF C(1)] by auto
  have "cells_rep P lo d' {(t - n, n)} ps cs fs (t - n)"
    by (rule cells_rep_kept [OF rep d'(4)]) (use C(8) d'(2,3) in simp_all)
  moreover have "header_kept P (aData P) d'" using kept_header [OF d'(4)] C(8) by simp
  moreover have "lo + 2 \<le> t - n" using n by simp
  moreover have "alloc_gap P n t = Some (SQLITE_OK, P\<lparr>aData := d'\<rparr>, t - n)" using d'(1) n by (simp add: alloc_gap_def)
  ultimately show ?thesis unfolding allocated_def by blast
qed

lemma alloc_defrag:
  assumes rep: "cells_rep P lo (aData P) {} ps cs fs t" and lo: "lo = cellOffset P + 2 * nCell P" and nc: "nCell P = length cs"
    and ok: "local_ok P" and free: "nFree P + lo + sizes cs = usable P" and temp: "usable P \<le> length temp"
    and n: "4 \<le> n" "n + 2 \<le> nFree P"
  shows "\<exists>P' t'. defragmentPage P temp = Some (SQLITE_OK, P') \<and> hdrOffset P' = hdrOffset P \<and> get2byteNotZero (aData P') (hdrOffset P + 5) = Some t' \<and>
     alloc_gap P' n t' = alloc_top P' temp n t' \<and> allocated P lo n cs (alloc_gap P' n t')"
proof -
  obtain d' where d': "defragmentPage P temp = Some (SQLITE_OK, P\<lparr>aData := d'\<rparr>)" "header_kept P (aData P) d'"
      "cells_rep P lo d' {} (offs (usable P) cs) cs [] (usable P - sizes cs)"
    using defragmentPage_spec [OF rep lo nc ok free temp] by blast
  let ?P = "P\<lparr>aData := d'\<rparr>" let ?t = "usable P - sizes cs"
  note C = cells_repD [OF d'(3)]
  note D = spaceD [OF C(1)]
  have "get2byteNotZero d' (hdrOffset P + 5) = Some ?t"
    using get2byteNotZero_b2 [of "hdrOffset P + 5" d'] D(1,3-6) by (simp add: b2nz_def)
  moreover have fit: "lo + 2 + n \<le> ?t" using free n by simp
  moreover have "cells_rep ?P lo (aData ?P) {} (offs (usable P) cs) cs [] ?t" using d'(3) by simp
  then have "allocated ?P lo n cs (alloc_gap ?P n ?t)" using n(1) fit by (rule alloc_gap_spec)
  then have "allocated P lo n cs (alloc_gap ?P n ?t)"
    using d'(2) header_kept_trans [of P "aData P" d'] unfolding allocated_def by fastforce
  moreover have "alloc_gap ?P n ?t = alloc_top ?P temp n ?t" using fit by (simp add: alloc_top_def lo)
  ultimately show ?thesis using d'(1) by (intro exI [of _ ?P] exI [of _ ?t]) simp
qed

lemma allocateSpace_spec:
  assumes rep: "cells_rep P lo (aData P) {} ps cs fs t" and lo: "lo = cellOffset P + 2 * nCell P" and nc: "nCell P = length cs"
    and ok: "local_ok P" and free: "nFree P + lo + sizes cs = usable P" and temp: "usable P \<le> length temp"
    and n: "4 \<le> n" "n + 2 \<le> nFree P"
  shows "allocated P lo n cs (allocateSpace P temp n)"
proof -
  let ?h = "hdrOffset P" let ?d = "aData P"
  note C = cells_repD [OF rep]
  note D = spaceD [OF C(1)]
  have len: "?h + 7 < length ?d" using D(1,3-5) by linarith
  obtain P' t' where def: "defragmentPage P temp = Some (SQLITE_OK, P')" "hdrOffset P' = ?h" "get2byteNotZero (aData P') (?h + 5) = Some t'"
      "alloc_gap P' n t' = alloc_top P' temp n t'" "allocated P lo n cs (alloc_gap P' n t')"
    using alloc_defrag [OF rep lo nc ok free temp n] by blast
  have t: "get2byteNotZero ?d (?h + 5) = Some t" using get2byteNotZero_b2 [of "?h + 5" ?d] D(6) len by (simp add: b2nz_def)
  have f: "rd ?d (?h + 7) = Some (?d ! (?h + 7))" using len by (simp add: rd_def)
  have top: "allocated P lo n cs (alloc_top P temp n t)"
  proof (cases "t < lo + 2 + n")
    case True
    then have "alloc_top P temp n t = alloc_gap P' n t'" using def(1-3) by (simp add: alloc_top_def lo)
    then show ?thesis using def(5) by simp
  next
    case False
    then have "alloc_top P temp n t = alloc_gap P n t" by (simp add: alloc_top_def lo)
    then show ?thesis using alloc_gap_spec [OF rep n(1)] False by simp
  qed
  have start: "allocateSpace P temp n = (if 60 \<le> unat (?d ! (?h + 7)) then alloc_top P' temp n t' else
     if lo + 2 \<le> t then do { (rc, data, found) \<leftarrow> alloc_search P n (unat (?d ! (?h + 7))) ?d (?h + 1);
       if rc \<noteq> SQLITE_OK then Some (rc, P\<lparr>aData := data\<rparr>, 0)
       else (case found of Some idx \<Rightarrow> Some (SQLITE_OK, P\<lparr>aData := data\<rparr>, idx) | None \<Rightarrow> alloc_top P temp n t) }
     else alloc_top P temp n t)"
    using t f def(1-3) D(4) unfolding allocateSpace_def lo [symmetric] by (simp add: Let_def lo)
  consider "60 \<le> unat (?d ! (?h + 7))" | "unat (?d ! (?h + 7)) < 60" "\<not> lo + 2 \<le> t" | "unat (?d ! (?h + 7)) < 60" "lo + 2 \<le> t" by linarith
  then show ?thesis
  proof cases
    case 1
    then show ?thesis using start def(4,5) by simp
  next
    case 2
    then show ?thesis using start top by simp
  next
    case 3
    have sp: "space 4 (usable P) ?h lo ?d (cell_regions ps cs) ([] @ fs) t" using C(1) by simp
    consider "alloc_search P n (unat (?d ! (?h + 7))) ?d (?h + 1) = Some (SQLITE_OK, ?d, None)"
      | d' fs' idx where "alloc_search P n (unat (?d ! (?h + 7))) ?d (?h + 1) = Some (SQLITE_OK, d', Some idx)"
          "space 4 (usable P) ?h lo d' (insert (idx, n) (cell_regions ps cs)) fs' t" "kept ?h lo (cell_regions ps cs) ?d d'"
          "(idx, n) \<notin> cell_regions ps cs"
      using alloc_search_spec [OF sp n(1) refl 3(1)] by auto
    then show ?thesis
    proof cases
      case 1
      then show ?thesis using start top 3 by simp
    next
      case 2
      have "cells_rep P lo d' {(idx, n)} ps cs fs' t"
        by (rule cells_rep_kept [OF rep 2(3)]) (use C(8) 2(2,4) in simp_all)
      moreover have "header_kept P ?d d'" using kept_header [OF 2(3)] C(8) by simp
      moreover have "allocateSpace P temp n = Some (SQLITE_OK, P\<lparr>aData := d'\<rparr>, idx)" using start 2(1) 3 by simp
      ultimately show ?thesis using 3(2) unfolding allocated_def by blast
    qed
  qed
qed

section \<open>Moving the cell pointers\<close>

lemma copy_two:
  assumes "src + 2 \<le> length d" "dst + 2 \<le> length d"
  shows "\<exists>s d'. mem_read d src 2 = Some s \<and> mem_write d dst s = Some d' \<and> length d' = length d \<and>
    (\<forall>j < length d. d' ! j = (if dst \<le> j \<and> j < dst + 2 then d ! (src + (j - dst)) else d ! j))"
proof -
  define s where "s = take 2 (drop src d)"
  have s: "length s = 2" "mem_read d src 2 = Some s" "\<And>k. k < 2 \<Longrightarrow> s ! k = d ! (src + k)" using assms by (simp_all add: s_def mem_read_def)
  obtain d' where d': "mem_write d dst s = Some d'" using mem_write_ok [of dst s d] s(1) assms by auto
  have "d' ! j = (if dst \<le> j \<and> j < dst + 2 then d ! (src + (j - dst)) else d ! j)" if "j < length d" for j
    using mem_write_nth [OF d' that] s(1) s(3) [of "j - dst"] by auto
  then show ?thesis using s(2) d' mem_write_length [OF d'] by blast
qed

lemma copy_ptrs_up:
  assumes "i \<le> n" "co + 2 * n + 2 \<le> length d"
  shows "\<exists>d'. copy_ptrs d (map (\<lambda>j. (co + 2 * j + 2, co + 2 * j)) (rev [i..<n])) = Some d' \<and> length d' = length d \<and>
    (\<forall>j < length d. d' ! j = (if co + 2 * i + 2 \<le> j \<and> j < co + 2 * n + 2 then d ! (j - 2) else d ! j))"
  using assms
proof (induction n arbitrary: d)
  case (Suc n)
  show ?case
  proof (cases "i \<le> n")
    case True
    obtain s d1 where d1: "mem_read d (co + 2 * n) 2 = Some s" "mem_write d (co + 2 * n + 2) s = Some d1" "length d1 = length d"
        "\<And>j. j < length d \<Longrightarrow> d1 ! j = (if co + 2 * n + 2 \<le> j \<and> j < co + 2 * n + 2 + 2 then d ! (co + 2 * n + (j - (co + 2 * n + 2))) else d ! j)"
      using copy_two [of "co + 2 * n" d "co + 2 * n + 2"] Suc.prems(2) by auto
    have "co + 2 * n + 2 \<le> length d1" using d1(3) Suc.prems(2) by simp
    then obtain d' where d': "copy_ptrs d1 (map (\<lambda>j. (co + 2 * j + 2, co + 2 * j)) (rev [i..<n])) = Some d'" "length d' = length d1"
        "\<And>j. j < length d1 \<Longrightarrow> d' ! j = (if co + 2 * i + 2 \<le> j \<and> j < co + 2 * n + 2 then d1 ! (j - 2) else d1 ! j)"
      using Suc.IH [OF True] by blast
    have "d' ! j = (if co + 2 * i + 2 \<le> j \<and> j < co + 2 * Suc n + 2 then d ! (j - 2) else d ! j)" if j: "j < length d" for j
    proof -
      consider "j < co + 2 * n + 2" | "co + 2 * n + 2 \<le> j" "j < co + 2 * n + 4" | "co + 2 * n + 4 \<le> j" by linarith
      then show ?thesis
      proof cases
        case 1
        have "d1 ! x = d ! x" if "x < co + 2 * n + 2" for x using d1(4) [of x] that Suc.prems(2) by simp
        then have "d1 ! (j - 2) = d ! (j - 2)" "d1 ! j = d ! j" using 1 by simp_all
        then show ?thesis using d'(3) [of j] j d1(3) 1 by simp
      next
        case 2
        then have "co + 2 * n + (j - (co + 2 * n + 2)) = j - 2" "co + 2 * i + 2 \<le> j" using True by linarith+
        then show ?thesis using d'(3) [of j] d1(3) d1(4) [OF j] j 2 by simp
      next
        case 3
        then show ?thesis using d'(3) [of j] d1(3) d1(4) [OF j] j by simp
      qed
    qed
    then show ?thesis using d' d1(1-3) True by simp
  next
    case False
    then have "i = Suc n" using Suc.prems(1) by simp
    then show ?thesis by auto
  qed
qed auto

lemma copy_ptrs_down:
  assumes "i \<le> m" "co + 2 * m + 2 \<le> length d"
  shows "\<exists>d'. copy_ptrs d (map (\<lambda>j. (co + 2 * j, co + 2 * j + 2)) [i..<m]) = Some d' \<and> length d' = length d \<and>
    (\<forall>j < length d. d' ! j = (if co + 2 * i \<le> j \<and> j < co + 2 * m then d ! (j + 2) else d ! j))"
  using assms
proof (induction "m - i" arbitrary: i d)
  case 0
  then have "i = m" by simp
  then show ?case by auto
next
  case (Suc k)
  then have i: "i < m" by simp
  obtain s d1 where d1: "mem_read d (co + 2 * i + 2) 2 = Some s" "mem_write d (co + 2 * i) s = Some d1" "length d1 = length d"
      "\<And>j. j < length d \<Longrightarrow> d1 ! j = (if co + 2 * i \<le> j \<and> j < co + 2 * i + 2 then d ! (co + 2 * i + 2 + (j - (co + 2 * i))) else d ! j)"
    using copy_two [of "co + 2 * i + 2" d "co + 2 * i"] Suc.prems(2) i by auto
  obtain d' where d': "copy_ptrs d1 (map (\<lambda>j. (co + 2 * j, co + 2 * j + 2)) [Suc i..<m]) = Some d'" "length d' = length d1"
      "\<And>j. j < length d1 \<Longrightarrow> d' ! j = (if co + 2 * Suc i \<le> j \<and> j < co + 2 * m then d1 ! (j + 2) else d1 ! j)"
  proof -
    have "k = m - Suc i" "Suc i \<le> m" "co + 2 * m + 2 \<le> length d1" using Suc.hyps(2) Suc.prems(2) d1(3) i by simp_all
    then show thesis using Suc.hyps(1) [of "Suc i" d1] that by blast
  qed
  have "d' ! j = (if co + 2 * i \<le> j \<and> j < co + 2 * m then d ! (j + 2) else d ! j)" if j: "j < length d" for j
  proof -
    consider "j < co + 2 * i" | "co + 2 * i \<le> j" "j < co + 2 * i + 2" | "co + 2 * i + 2 \<le> j" "j < co + 2 * m" | "co + 2 * i + 2 \<le> j" "co + 2 * m \<le> j" by linarith
    then show ?thesis
    proof cases
      case 2
      then have "co + 2 * i + 2 + (j - (co + 2 * i)) = j + 2" "j < co + 2 * m" using i by linarith+
      then show ?thesis using d'(3) [of j] d1(3) d1(4) [OF j] j 2 by simp
    next
      case 3
      then show ?thesis using d'(3) [of j] d1(3) d1(4) [of "j + 2"] j Suc.prems(2) by simp
    qed (use d'(3) [of j] d1(3) d1(4) [OF j] j i in simp_all)
  qed
  then show ?case using d' d1(1-3) upt_conv_Cons [OF i] by simp
qed

section \<open>Inserting and removing a cell\<close>

definition ins :: "nat \<Rightarrow> 'a \<Rightarrow> 'a list \<Rightarrow> 'a list" where "ins i x xs = take i xs @ x # drop i xs"

definition del :: "nat \<Rightarrow> 'a list \<Rightarrow> 'a list" where "del i xs = take i xs @ drop (Suc i) xs"

lemma length_ins [simp]: "length (ins i x xs) = Suc (length xs)"
  by (simp add: ins_def)

lemma length_del [simp]: "i < length xs \<Longrightarrow> length (del i xs) = length xs - 1"
  by (simp add: del_def)

lemma nth_ins: "i \<le> length xs \<Longrightarrow> k \<le> length xs \<Longrightarrow> ins i x xs ! k = (if k < i then xs ! k else if k = i then x else xs ! (k - 1))"
proof -
  assume a: "i \<le> length xs" "k \<le> length xs"
  consider "k < i" | "k = i" | m where "k = Suc (i + m)" using less_imp_Suc_add [of i k] by fastforce
  then show ?thesis by cases (use a in \<open>simp_all add: ins_def nth_append\<close>)
qed

lemma nth_del: "i < length xs \<Longrightarrow> k < length xs - 1 \<Longrightarrow> del i xs ! k = (if k < i then xs ! k else xs ! (k + 1))"
  by (auto simp: del_def nth_append)

lemma ins_del: "i < length xs \<Longrightarrow> ins i (xs ! i) (del i xs) = xs"
  by (simp add: ins_def del_def id_take_nth_drop [symmetric])

lemma ins_all2: "list_all2 Q ps cs \<Longrightarrow> Q p c \<Longrightarrow> list_all2 Q (ins i p ps) (ins i c cs)"
  by (simp add: ins_def list_all2_appendI list_all2_takeI list_all2_dropI)

lemma space_lo: "space g u h lo d R fs t \<Longrightarrow> h + 8 \<le> lo' \<Longrightarrow> lo' \<le> t \<Longrightarrow> space g u h lo' d R fs t"
  by (simp add: space_def)

text \<open>Changes within the pointers and the header do not touch regions.\<close>

lemma holds_apart:
  assumes sp: "space g u h lo d R fs t" and R: "cell_regions ps cs \<subseteq> R" and h: "list_all2 (holds d) ps cs" and len: "length d' = length d"
    and ch: "\<And>j. j < length d \<Longrightarrow> d' ! j \<noteq> d ! j \<Longrightarrow> j < t \<or> (\<exists>r \<in> R - cell_regions ps cs. inside j r)"
  shows "list_all2 (holds d') ps cs"
  unfolding list_all2_conv_all_nth
proof (intro conjI allI impI)
  show l: "length ps = length cs" using h by (rule list_all2_lengthD)
  fix k assume k: "k < length ps"
  have hk: "holds d (ps ! k) (cs ! k)" using h k by (simp add: list_all2_nthD)
  have r: "(ps ! k, length (cs ! k)) \<in> cell_regions ps cs" using cell_regions_iff [OF l] k l by auto
  then have rR: "(ps ! k, length (cs ! k)) \<in> R" using R by blast
  show "holds d' (ps ! k) (cs ! k)"
  proof (rule holds_cong [OF hk len], rule ccontr)
    fix j assume j: "ps ! k \<le> j" "j < ps ! k + length (cs ! k)" "d' ! j \<noteq> d ! j"
    then have in_r: "inside j (ps ! k, length (cs ! k))" by (simp add: inside_def)
    have "j < length d" using hk j(2) by (simp add: holds_def)
    then consider "j < t" | r where "r \<in> R" "r \<notin> cell_regions ps cs" "inside j r" using ch j(3) by blast
    then show False
    proof cases
      case 1
      then show False using spaceD(12) [OF sp rR] j(1) by simp
    next
      case 2
      then have "apart r (ps ! k, length (cs ! k))" using spaceD(11) [OF sp] rR r by (auto simp: pairwise_def)
      then show False using apart_inside 2(3) in_r by blast
    qed
  qed
qed

lemma region_distinct:
  assumes "space g u h lo d R fs t" and "(p, m) \<in> R" and "(p, n) \<in> R"
  shows "m = n"
proof (rule ccontr)
  assume "m \<noteq> n"
  then have "apart (p, m) (p, n)" using spaceD(11) [OF assms(1)] assms(2,3) by (auto simp: pairwise_def)
  then show False using spaceD(12) [OF assms(1,2)] spaceD(12) [OF assms(1,3)] by (auto simp: apart_def)
qed

lemma insert_layout:
  assumes rep: "cells_rep P lo d {(idx, length c)} ps cs fs t" and lo: "lo = cellOffset P + 2 * length cs" "lo + 2 \<le> t"
    and c: "is_cell P c" and i: "i \<le> length cs"
  shows "\<exists>d1 d2 d3. mem_write d idx c = Some d1 \<and>
    copy_ptrs d1 (map (\<lambda>j. (cellOffset P + 2 * j + 2, cellOffset P + 2 * j)) (rev [i..<length cs])) = Some d2 \<and>
    put2byte d2 (cellOffset P + 2 * i) idx = Some d3 \<and> header_kept P d d3 \<and>
    cells_rep P (lo + 2) d3 {} (ins i idx ps) (ins i c cs) fs t"
proof -
  let ?co = "cellOffset P" let ?n = "length cs" let ?R = "insert (idx, length c) (cell_regions ps cs)"
  note C = cells_repD [OF rep]
  have sp: "space 4 (usable P) (hdrOffset P) lo d ?R fs t" using C(1) by simp
  note D = spaceD [OF sp]
  have new: "t \<le> idx" "idx + length c \<le> usable P" "4 \<le> length c" using D(12) [of "(idx, length c)"] by auto
  obtain d1 where d1: "mem_write d idx c = Some d1" using mem_write_ok [of idx c d] new D(1) by auto
  have l1: "length d1 = length d" using mem_write_length [OF d1] by simp
  have "?co + 2 * ?n + 2 \<le> length d1" using lo D(1,5) l1 by simp
  then obtain d2 where d2: "copy_ptrs d1 (map (\<lambda>j. (?co + 2 * j + 2, ?co + 2 * j)) (rev [i..<?n])) = Some d2" "length d2 = length d1"
      "\<And>j. j < length d1 \<Longrightarrow> d2 ! j = (if ?co + 2 * i + 2 \<le> j \<and> j < ?co + 2 * ?n + 2 then d1 ! (j - 2) else d1 ! j)"
    using copy_ptrs_up [OF i, of ?co d1] by blast
  have l2: "length d2 = length d" using d2(2) l1 by simp
  have place: "?co + 2 * i + 2 \<le> lo + 2" using i lo by simp
  obtain d3 where d3: "put2byte d2 (?co + 2 * i) idx = Some d3" using put2byte_ok [of "?co + 2 * i" d2 idx] l2 place lo(2) D(1,5) by auto
  have l3: "length d3 = length d" using put2byte_length [OF d3] l2 by simp
  have low1: "d1 ! j = d ! j" if "j < t" for j using mem_write_nth [OF d1, of j] that new D(1,5) by simp
  have out: "d3 ! j = d1 ! j" if "j < length d" "j < ?co \<or> lo + 2 \<le> j" for j
    using put2byte_nth [OF d3, of j] d2(3) [of j] that l1 l2 place lo(1) by auto
  have hi: "inside j (idx, length c)" if "j < length d" "d3 ! j \<noteq> d ! j" "j < ?co \<or> lo + 2 \<le> j" for j
    using out [OF that(1,3)] mem_write_nth [OF d1 that(1)] that(2) by (auto simp: inside_def split: if_splits)
  have hk: "header_kept P d d3"
    unfolding header_kept_def using l3 out low1 lo D(4) by auto
  have sp3: "space 4 (usable P) (hdrOffset P) lo d3 ?R fs t"
  proof (rule space_frame [OF sp l3])
    fix j assume j: "j < length d" "d3 ! j \<noteq> d ! j"
    show "j < t \<and> j \<notin> {hdrOffset P + 1, hdrOffset P + 2, hdrOffset P + 5, hdrOffset P + 6, hdrOffset P + 7} \<or> (\<exists>r \<in> ?R. inside j r)"
    proof (cases "j < ?co \<or> lo + 2 \<le> j")
      case True
      then show ?thesis using hi [OF j] by blast
    next
      case False
      then show ?thesis using C(7) lo by auto
    qed
  qed
  have "holds d3 idx c"
  proof (rule holds_cong [OF holds_write [OF d1]])
    show "d3 ! j = d1 ! j" if "idx \<le> j" "j < idx + length c" for j using that new D(1) lo by (intro out) auto
  qed (use l1 l3 in simp)
  moreover have "list_all2 (holds d3) ps cs"
  proof (rule holds_apart [OF sp _ C(4) l3])
    fix j assume j: "j < length d" "d3 ! j \<noteq> d ! j"
    show "j < t \<or> (\<exists>r \<in> ?R - cell_regions ps cs. inside j r)"
      using hi [OF j] C(2) lo(2) by (cases "j < t") auto
  qed blast
  ultimately have "list_all2 (holds d3) (ins i idx ps) (ins i c cs)" by (rule ins_all2 [rotated])
  moreover have "b2 d3 (?co + 2 * k) = ins i idx ps ! k" if "k < length (ins i idx ps)" for k
  proof -
    have k: "k \<le> ?n" using that C(9) by simp
    then have kl: "?co + 2 * k + 1 < length d" using lo D(1,5) by simp
    consider "k < i" | "k = i" | "i < k" by linarith
    then show ?thesis
    proof cases
      case 1
      then have "b2 d3 (?co + 2 * k) = b2 d (?co + 2 * k)"
        using put2byte_nth [OF d3] d2(3) l1 l2 kl low1 lo k by (intro b2_cong) simp_all
      then show ?thesis using C(6) [of k] 1 i C(9) k by (simp add: nth_ins)
    next
      case 2
      have "idx < 65536" using new D(2) by simp
      then show ?thesis using b2_put2byte [OF d3] kl l2 2 i C(9) k by (simp add: nth_ins)
    next
      case 3
      define a where "a = ?co + 2 * (k - 1)"
      have a: "?co + 2 * k = a + 2" "?co + 2 * i \<le> a" "a + 2 \<le> lo" using 3 k lo(1) unfolding a_def by simp_all
      have "b2 d3 (a + 2) = b2 d a"
        using put2byte_nth [OF d3] d2(3) l1 l2 kl low1 lo a unfolding b2_def by simp
      then show ?thesis using C(6) [of "k - 1"] 3 i C(9) k a(1) unfolding a_def by (simp add: nth_ins)
    qed
  qed
  moreover have "distinct (ins i idx ps)"
  proof -
    have "idx \<notin> set ps"
    proof
      assume "idx \<in> set ps"
      then obtain k where k: "k < length ps" "idx = ps ! k" by (auto simp: in_set_conv_nth)
      then have r: "(idx, length (cs ! k)) \<in> cell_regions ps cs" using cell_regions_iff [OF C(9)] C(9) by auto
      then have "length (cs ! k) = length c" using region_distinct [OF sp, of idx "length (cs ! k)" "length c"] by simp
      then show False using r C(2) by simp
    qed
    then show ?thesis using C(3) distinct_append [of "take i ps" "drop i ps"] by (auto simp: ins_def dest: in_set_takeD in_set_dropD)
  qed
  moreover have "cell_regions (ins i idx ps) (ins i c cs) = ?R" unfolding ins_def by (rule cell_regions_insert [OF C(9) i])
  moreover have "list_all (is_cell P) (ins i c cs)" using C(5) c by (auto simp: ins_def list_all_iff dest: in_set_takeD in_set_dropD)
  moreover have "space 4 (usable P) (hdrOffset P) (lo + 2) d3 ?R fs t" by (rule space_lo [OF sp3]) (use D(3) lo(2) in simp_all)
  ultimately have "cells_rep P (lo + 2) d3 {} (ins i idx ps) (ins i c cs) fs t"
    using C(7,9) lo(1) unfolding cells_rep_def by simp
  then show ?thesis using d1 d2(1) d3 hk by blast
qed

lemma kept_holds:
  assumes h: "list_all2 (holds d) ps cs" and k: "kept hdr lo R d d'" and R: "cell_regions ps cs \<subseteq> R"
  shows "list_all2 (holds d') ps cs"
  unfolding list_all2_conv_all_nth
proof (intro conjI allI impI)
  show l: "length ps = length cs" using h by (rule list_all2_lengthD)
  fix j assume j: "j < length ps"
  have hj: "holds d (ps ! j) (cs ! j)" using h j by (simp add: list_all2_nthD)
  have r: "(ps ! j, length (cs ! j)) \<in> R" using R cell_regions_iff [OF l] j l by auto
  show "holds d' (ps ! j) (cs ! j)"
  proof (rule holds_cong [OF hj])
    show "d' ! i = d ! i" if "ps ! j \<le> i" "i < ps ! j + length (cs ! j)" for i
    proof -
      have "i < length d" "inside i (ps ! j, length (cs ! j))" using hj that by (auto simp: holds_def inside_def)
      then show ?thesis using k r unfolding kept_def by blast
    qed
  qed (use k in \<open>simp add: kept_def\<close>)
qed

lemma cell_regions_del:
  assumes "length ps = length cs" "distinct ps" "i < length cs"
  shows "cell_regions (del i ps) (del i cs) = cell_regions ps cs - {(ps ! i, length (cs ! i))}"
proof -
  have l: "length (del i ps) = length (del i cs)" "i \<le> length (del i cs)" using assms by simp_all
  have "cell_regions (ins i (ps ! i) (del i ps)) (ins i (cs ! i) (del i cs)) = insert (ps ! i, length (cs ! i)) (cell_regions (del i ps) (del i cs))"
    unfolding ins_def by (rule cell_regions_insert [OF l])
  then have R: "cell_regions ps cs = insert (ps ! i, length (cs ! i)) (cell_regions (del i ps) (del i cs))"
    using ins_del [of i ps] ins_del [of i cs] assms by simp
  have "distinct (ins i (ps ! i) (del i ps))" using ins_del [of i ps] assms by simp
  then have "ps ! i \<notin> set (del i ps)" unfolding ins_def del_def using assms by auto
  then have "(ps ! i, length (cs ! i)) \<notin> cell_regions (del i ps) (del i cs)" using cell_regions_fst by fastforce
  then show ?thesis using R by simp
qed

lemma drop_layout:
  assumes rep: "cells_rep P lo d {} ps cs fs t" and lo: "lo = cellOffset P + 2 * length cs" and i: "i < length cs"
    and sp: "space 4 (usable P) (hdrOffset P) lo d' (cell_regions ps cs - {(ps ! i, length (cs ! i))}) fs' t'"
    and k: "kept (hdrOffset P) lo (cell_regions ps cs - {(ps ! i, length (cs ! i))}) d d'"
  shows "\<exists>d2. copy_ptrs d' (map (\<lambda>j. (cellOffset P + 2 * j, cellOffset P + 2 * j + 2)) [i..<length cs - 1]) = Some d2 \<and> header_kept P d d2 \<and>
    cells_rep P (lo - 2) d2 {} (del i ps) (del i cs) fs' t'"
proof -
  let ?co = "cellOffset P" let ?n = "length cs" let ?R = "cell_regions (del i ps) (del i cs)"
  note C = cells_repD [OF rep]
  have R: "cell_regions ps cs - {(ps ! i, length (cs ! i))} = ?R" using cell_regions_del [OF C(9,3) i] by simp
  note sp = sp [unfolded R] and k = k [unfolded R]
  note D = spaceD [OF sp]
  have l1: "length d' = length d" using k by (simp add: kept_def)
  have "i \<le> ?n - 1" "?co + 2 * (?n - 1) + 2 \<le> length d'" using i lo D(1,4,5) by simp_all
  then obtain d2 where d2: "copy_ptrs d' (map (\<lambda>j. (?co + 2 * j, ?co + 2 * j + 2)) [i..<?n - 1]) = Some d2" "length d2 = length d'"
      "\<And>j. j < length d' \<Longrightarrow> d2 ! j = (if ?co + 2 * i \<le> j \<and> j < ?co + 2 * (?n - 1) then d' ! (j + 2) else d' ! j)"
    using copy_ptrs_down by blast
  have l2: "length d2 = length d" using d2(2) l1 by simp
  have low: "d' ! j = d ! j" if "?co \<le> j" "j < lo" for j
    using k that D(1,4,5) C(7) l1 unfolding kept_def by auto
  have ch: "?co \<le> j \<and> j < lo - 2" if "j < length d'" "d2 ! j \<noteq> d' ! j" for j
    using d2(3) [OF that(1)] that(2) lo i by (auto split: if_splits)
  have sp2: "space 4 (usable P) (hdrOffset P) lo d2 ?R fs' t'"
    by (rule space_frame [OF sp d2(2)]) (use ch C(7) D(4) in fastforce)
  have "list_all2 (holds d) (del i ps) (del i cs)"
    unfolding del_def using C(4) by (intro list_all2_appendI list_all2_takeI list_all2_dropI)
  then have h1: "list_all2 (holds d') (del i ps) (del i cs)" by (rule kept_holds [OF _ k]) simp
  have "list_all2 (holds d2) (del i ps) (del i cs)"
    by (rule holds_apart [OF sp _ h1 d2(2)]) (use ch D(4) in fastforce)+
  moreover have "b2 d2 (?co + 2 * j) = del i ps ! j" if "j < length (del i ps)" for j
  proof -
    have j: "j < ?n - 1" using that C(9) i by simp
    have len: "?co + 2 * j + 3 < length d'" "?co + 2 * j + 3 < lo" using j lo D(1,4,5) by linarith+
    show ?thesis
    proof (cases "j < i")
      case True
      have "b2 d2 (?co + 2 * j) = b2 d (?co + 2 * j)" using d2(3) low len True by (intro b2_cong) simp_all
      then show ?thesis using C(6) [of j] C(9) i j True by (simp add: nth_del)
    next
      case False
      have "b2 d2 (?co + 2 * j) = b2 d (?co + 2 * j + 2)" unfolding b2_def using d2(3) low len False j by simp
      then show ?thesis using C(6) [of "j + 1"] C(9) i j False by (simp add: nth_del)
    qed
  qed
  moreover have "distinct (del i ps)"
    unfolding del_def using C(3) set_take_disj_set_drop_if_distinct [of ps i "Suc i"] by simp
  moreover have "list_all (is_cell P) (del i cs)" using C(5) by (auto simp: del_def list_all_iff dest: in_set_takeD in_set_dropD)
  moreover have "space 4 (usable P) (hdrOffset P) (lo - 2) d2 ?R fs' t'"
    by (rule space_lo [OF sp2]) (use D(4) C(7) lo i in simp_all)
  ultimately have "cells_rep P (lo - 2) d2 {} (del i ps) (del i cs) fs' t'"
    using C(7,9) lo i unfolding cells_rep_def by simp
  moreover have "header_kept P d d2"
  proof -
    have "header_kept P d d'" using kept_header [OF k] lo by simp
    moreover have "header_kept P d' d2" unfolding header_kept_def using d2(2) ch by fastforce
    ultimately show ?thesis by (rule header_kept_trans)
  qed
  ultimately show ?thesis using d2(1) by blast
qed

end
