(* ===== verification/Btree_Sequence.thy ===== *)
theory Btree_Sequence
  imports Btree_Store
begin

text \<open>
  The page as the sequence of its cells: initialising, inserting, removing, defragmenting and
  reading back, and any history of these.
\<close>

section \<open>A page that represents a sequence of cells\<close>

text \<open>The parameters of a database file: a page size that is a power of two, and the limits lockBtree has set.\<close>

definition bt_ok :: "BtShared \<Rightarrow> bool" where
  "bt_ok bt \<longleftrightarrow> bt = bt_limits bt \<and> bt_sizes bt"

definition page_fields :: "MemPage \<Rightarrow> bool" where
  "page_fields P \<longleftrightarrow> bt_ok (pBt P) \<and> isInit P \<and> decodeFlags P (unat (aData P ! hdrOffset P)) = (SQLITE_OK, P) \<and>
     maskPage P = pageSize (pBt P) - 1 \<and> cellOffset P = hdrOffset P + 12 - 4 * (if leaf P then 1 else 0) \<and> ovfl P = [] \<and>
     length (aData P) = pageSize (pBt P)"

definition page_rep :: "MemPage \<Rightarrow> bytes list \<Rightarrow> bool" where
  "page_rep P cs \<longleftrightarrow> page_fields P \<and> nCell P = length cs \<and> b2 (aData P) (hdrOffset P + 3) = length cs \<and>
     nFree P + (cellOffset P + 2 * length cs) + sizes cs = usable P \<and>
     (\<exists>ps fs t. cells_rep P (cellOffset P + 2 * length cs) (aData P) {} ps cs fs t)"

lemma bt_limits_values:
  assumes "bt_ok bt"
  shows "maxLocal bt = (usableSize bt - 12) * 64 div 255 - 23" "minLocal bt = (usableSize bt - 12) * 32 div 255 - 23"
    "maxLeaf bt = usableSize bt - 35" "minLeaf bt = (usableSize bt - 12) * 32 div 255 - 23"
proof -
  have b: "bt = bt_limits bt" using assms by (simp add: bt_ok_def)
  show "maxLocal bt = (usableSize bt - 12) * 64 div 255 - 23" "minLocal bt = (usableSize bt - 12) * 32 div 255 - 23"
    "maxLeaf bt = usableSize bt - 35" "minLeaf bt = (usableSize bt - 12) * 32 div 255 - 23"
    by (subst b, simp add: bt_limits_def)+
qed

text \<open>The four kinds of a b-tree page.\<close>

lemma decodeFlags_ok:
  assumes "decodeFlags P f = (SQLITE_OK, P')" and "f < 256"
  shows "f \<in> {2, 5, 10, 13}" and "leaf P' = (f \<in> {10, 13})" and "childPtrSize P' = (if leaf P' then 0 else 4)"
    and "pgMaxLocal P' = maxLeaf (pBt P) \<and> pgMinLocal P' = minLeaf (pBt P) \<or> pgMaxLocal P' = maxLocal (pBt P) \<and> pgMinLocal P' = minLocal (pBt P)"
proof -
  show "pgMaxLocal P' = maxLeaf (pBt P) \<and> pgMinLocal P' = minLeaf (pBt P) \<or> pgMaxLocal P' = maxLocal (pBt P) \<and> pgMinLocal P' = minLocal (pBt P)"
    using assms(1) by (auto simp: decodeFlags_def Let_def split: if_splits)
  have bits: "f AND PTF_LEAF = (if odd (f div 8) then 8 else 0)"
  proof -
    have "f AND 2 ^ k = (if bit f k then 2 ^ k else 0)" for k by (rule bit_eqI) (auto simp: bit_and_iff bit_exp_iff)
    from this [of 3] show ?thesis by (simp add: PTF_LEAF_def bit_iff_odd)
  qed
  then have e: "f - (f AND PTF_LEAF) \<in> {5, 2}" using assms(1) by (auto simp: decodeFlags_def Let_def PTF_LEAFDATA_def PTF_INTKEY_def PTF_ZERODATA_def split: if_splits)
  then show "f \<in> {2, 5, 10, 13}" using bits by (auto split: if_splits)
  then show "leaf P' = (f \<in> {10, 13})" "childPtrSize P' = (if leaf P' then 0 else 4)"
    using assms(1) by (auto simp: decodeFlags_def Let_def split: if_splits)
qed

lemma page_fieldsD:
  assumes "page_fields P"
  shows "local_ok P" "unat (aData P ! hdrOffset P) \<in> {2, 5, 10, 13}" "childPtrSize P = (if leaf P then 0 else 4)"
    "hdrOffset P + 8 \<le> cellOffset P" "cellOffset P = hdrOffset P + 12 - 4 * (if leaf P then 1 else 0)" "ovfl P = []"
    "bt_sizes (pBt P)" "length (aData P) = pageSize (pBt P)" "maskPage P = pageSize (pBt P) - 1" "isInit P"
proof -
  have b: "bt_ok (pBt P)" and d: "decodeFlags P (unat (aData P ! hdrOffset P)) = (SQLITE_OK, P)" using assms by (simp_all add: page_fields_def)
  note f = decodeFlags_ok [OF d unat_u8_less]
  show "unat (aData P ! hdrOffset P) \<in> {2, 5, 10, 13}" "childPtrSize P = (if leaf P then 0 else 4)" using f by auto
  show bs: "bt_sizes (pBt P)" using b by (simp add: bt_ok_def)
  have "480 \<le> usable P" "usable P \<le> pageSize (pBt P)" using bs unfolding bt_sizes_def by blast+
  then have u: "480 \<le> usable P" "usable P \<le> 65536" using pageSize_bounds [OF bs] by linarith+
  have "minLeaf (pBt P) \<le> maxLeaf (pBt P)" "maxLeaf (pBt P) \<le> 65501" "minLocal (pBt P) \<le> maxLocal (pBt P)" "maxLocal (pBt P) \<le> 65501"
    using u unfolding bt_limits_values [OF b] by linarith+
  then have "pgMinLocal P \<le> pgMaxLocal P \<and> pgMaxLocal P \<le> 65501" using f(4) by auto
  then show "local_ok P" using f(3) by (simp add: local_ok_def)
  show c: "cellOffset P = hdrOffset P + 12 - 4 * (if leaf P then 1 else 0)" using assms unfolding page_fields_def by blast
  then show "hdrOffset P + 8 \<le> cellOffset P" by simp
  show "ovfl P = []" "length (aData P) = pageSize (pBt P)" "maskPage P = pageSize (pBt P) - 1" "isInit P"
    using assms unfolding page_fields_def by blast+
qed

lemma decodeFlags_update:
  "decodeFlags (P\<lparr>aData := d, nCell := n, nFree := m\<rparr>) f = map_prod id (\<lambda>p. p\<lparr>aData := d, nCell := n, nFree := m\<rparr>) (decodeFlags P f)"
  by (simp add: decodeFlags_def Let_def)

lemma page_fields_update:
  assumes "page_fields P" and "length d = length (aData P)" and "d ! hdrOffset P = aData P ! hdrOffset P"
  shows "page_fields (P\<lparr>aData := d, nCell := n, nFree := m\<rparr>)"
proof -
  have "decodeFlags P (unat (aData P ! hdrOffset P)) = (SQLITE_OK, P)" using assms(1) unfolding page_fields_def by blast
  then have "decodeFlags (P\<lparr>aData := d, nCell := n, nFree := m\<rparr>) (unat (d ! hdrOffset P)) = (SQLITE_OK, P\<lparr>aData := d, nCell := n, nFree := m\<rparr>)"
    unfolding decodeFlags_update assms(3) by simp
  then show ?thesis using assms(1,2) unfolding page_fields_def by simp
qed

lemma cells_rep_nCell:
  assumes rep: "cells_rep P lo d X ps cs fs t" and w: "put2byte d (hdrOffset P + 3) v = Some d'"
  shows "cells_rep P lo d' X ps cs fs t" and "d' ! hdrOffset P = d ! hdrOffset P"
proof -
  note C = cells_repD [OF rep]
  note D = spaceD [OF C(1)]
  have len: "length d' = length d" by (rule put2byte_length [OF w])
  have n: "d' ! j = d ! j" if "j < length d" "j \<noteq> hdrOffset P + 3" "j \<noteq> hdrOffset P + 4" for j
    using put2byte_nth [OF w that(1)] that by simp
  have ch: "j = hdrOffset P + 3 \<or> j = hdrOffset P + 4" if "j < length d" "d' ! j \<noteq> d ! j" for j using n [OF that(1)] that(2) by blast
  have "space 4 (usable P) (hdrOffset P) lo d' (X \<union> cell_regions ps cs) fs t"
    by (rule space_frame [OF C(1) len]) (use ch D(3,4) in fastforce)
  moreover have "list_all2 (holds d') ps cs"
    by (rule holds_apart [OF C(1) _ C(4) len]) (use ch D(3,4) in fastforce)+
  moreover have "b2 d' (cellOffset P + 2 * k) = ps ! k" if "k < length ps" for k
  proof -
    have "b2 d' (cellOffset P + 2 * k) = b2 d (cellOffset P + 2 * k)"
      by (rule b2_cong; rule n) (use that C(7,8) D(1,4,5) in linarith)+
    then show ?thesis using C(6) [OF that] by simp
  qed
  ultimately show "cells_rep P lo d' X ps cs fs t" using C(2,3,5,7,8) unfolding cells_rep_def by blast
  show "d' ! hdrOffset P = d ! hdrOffset P" by (rule n) (use D(1,3-5) in linarith)+
qed

lemma is_cell_child:
  assumes "childPtrSize P = 4" and "is_cell P c" and "length x = 4" and "4 \<le> length c"
  shows "is_cell P (x @ drop 4 c)"
proof -
  have d: "drop (4 + n) (x @ drop 4 c) = drop (4 + n) c" for n using assms(3) by (simp add: add.commute)
  have d0: "drop 4 (x @ drop 4 c) = drop 4 c" using assms(3) by simp
  have "cellSizePtr P (x @ drop 4 c) = cellSizePtr P c" unfolding cellSizePtr_def assms(1) d d0 ..
  then show ?thesis using assms by (simp add: is_cell_def)
qed

text \<open>The cell that insertCell stores.\<close>

definition cell_bytes :: "bytes \<Rightarrow> nat \<Rightarrow> u32 \<Rightarrow> bytes" where
  "cell_bytes pCell sz iChild = (if iChild = 0 then take sz pCell else sqlite3Put4byte iChild @ drop 4 (take sz pCell))"

lemma cell_bytes:
  assumes ok: "local_ok P" and s: "cellSizePtr P pCell = Some sz" "sz \<le> length pCell" and c: "iChild \<noteq> 0 \<longrightarrow> childPtrSize P = 4"
  shows "is_cell P (cell_bytes pCell sz iChild)" "length (cell_bytes pCell sz iChild) = sz"
    "(if iChild \<noteq> 0 then do { rest \<leftarrow> mem_read pCell 4 (sz - 4); Some (sqlite3Put4byte iChild @ rest) } else mem_read pCell 0 sz) =
       Some (cell_bytes pCell sz iChild)"
proof -
  note L = cellSizePtr_local [OF ok s(1)]
  have t: "is_cell P (take sz pCell)" using L(3) [of "[]"] s(2) by (simp add: is_cell_def)
  have p4: "length (sqlite3Put4byte iChild) = 4" by (simp add: sqlite3Put4byte_def)
  show "is_cell P (cell_bytes pCell sz iChild)" "length (cell_bytes pCell sz iChild) = sz"
    using t is_cell_child [OF _ t p4] c L(1) s(2) p4 by (auto simp: cell_bytes_def)
  show "(if iChild \<noteq> 0 then do { rest \<leftarrow> mem_read pCell 4 (sz - 4); Some (sqlite3Put4byte iChild @ rest) } else mem_read pCell 0 sz) =
       Some (cell_bytes pCell sz iChild)"
    using L(1) s(2) by (simp add: cell_bytes_def mem_read_def drop_take)
qed

lemma insertCell_spec:
  assumes rep: "page_rep P cs" and s: "cellSizePtr P pCell = Some sz" "sz \<le> length pCell" and c: "iChild \<noteq> 0 \<longrightarrow> \<not> leaf P"
    and i: "i \<le> length cs" and room: "sz + 2 \<le> nFree P" and temp: "usable P \<le> length temp" and w: "sqlite3PagerWrite p = (SQLITE_OK, p')"
  shows "\<exists>d. let P' = P\<lparr>aData := d, nCell := nCell P + 1, nFree := nFree P - (2 + sz)\<rparr> in page_rep P' (ins i (cell_bytes pCell sz iChild) cs) \<and>
     insertCell P p temp i pCell sz iChild = (if autoVacuum (pBt P) then do { (rc, q) \<leftarrow> ptrmapPutOvflPtr P' p' pCell; Some (rc, P', q) }
       else Some (SQLITE_OK, P', p'))"
proof -
  let ?c = "cell_bytes pCell sz iChild" let ?h = "hdrOffset P" let ?co = "cellOffset P" let ?n = "length cs"
  have pf: "page_fields P" and n: "nCell P = ?n" and nb: "b2 (aData P) (?h + 3) = ?n" and free: "nFree P + (?co + 2 * ?n) + sizes cs = usable P"
    using rep unfolding page_rep_def by blast+
  obtain ps fs t where cr: "cells_rep P (?co + 2 * ?n) (aData P) {} ps cs fs t" using rep unfolding page_rep_def by blast
  note F = page_fieldsD [OF pf]
  have child: "iChild \<noteq> 0 \<longrightarrow> childPtrSize P = 4" using c F(3) by simp
  note B = cell_bytes [OF F(1) s child]
  have sz: "4 \<le> sz" using cellSizePtr_local(1) [OF F(1) s(1)] .
  have "allocated P (?co + 2 * ?n) sz cs (allocateSpace P temp sz)"
    by (rule allocateSpace_spec [OF cr _ n F(1) free temp sz]) (use n room in simp_all)
  then obtain d1 idx ps1 fs1 t1 where al: "allocateSpace P temp sz = Some (SQLITE_OK, P\<lparr>aData := d1\<rparr>, idx)" "header_kept P (aData P) d1"
      "cells_rep P (?co + 2 * ?n) d1 {(idx, sz)} ps1 cs fs1 t1" "?co + 2 * ?n + 2 \<le> t1"
    unfolding allocated_def by blast
  have cr1: "cells_rep P (?co + 2 * ?n) d1 {(idx, length ?c)} ps1 cs fs1 t1" using al(3) B(2) by simp
  obtain d2 d3 d4 where lay: "mem_write d1 idx ?c = Some d2" "copy_ptrs d2 (map (\<lambda>j. (?co + 2 * j + 2, ?co + 2 * j)) (rev [i..<?n])) = Some d3"
      "put2byte d3 (?co + 2 * i) idx = Some d4" "header_kept P d1 d4" "cells_rep P (?co + 2 * ?n + 2) d4 {} (ins i idx ps1) (ins i ?c cs) fs1 t1"
    using insert_layout [OF cr1 refl al(4) B(1) i] by blast
  have hk: "header_kept P (aData P) d4" by (rule header_kept_trans [OF al(2) lay(4)])
  have D: "?co + 2 * ?n + 2 \<le> t1" "t1 \<le> usable P" "usable P \<le> length d4" "usable P \<le> 65536" "?h + 8 \<le> ?co"
    using spaceD(1,2,5) [OF cells_repD(1) [OF lay(5)]] al(4) F(4) by blast+
  obtain d5 where d5: "put2byte d4 (?h + 3) (?n + 1) = Some d5" using put2byte_ok [of "?h + 3" d4 "?n + 1"] D by auto
  note N = cells_rep_nCell [OF lay(5) d5]
  let ?P = "P\<lparr>aData := d5, nCell := nCell P + 1, nFree := nFree P - (2 + sz)\<rparr>"
  have "page_fields ?P"
  proof (rule page_fields_update [OF pf])
    show "length d5 = length (aData P)" using put2byte_length [OF d5] hk by (simp add: header_kept_def)
    have "d4 ! ?h = aData P ! ?h" using hk D unfolding header_kept_def by simp
    then show "d5 ! ?h = aData P ! ?h" using N(2) by simp
  qed
  moreover have "b2 d5 (?h + 3) = ?n + 1" using b2_put2byte [OF d5] D by simp
  moreover have "sizes (ins i ?c cs) = sizes cs + sz"
  proof -
    have "sizes cs = sizes (take i cs @ drop i cs)" by simp
    then show ?thesis unfolding ins_def map_append sum_list_append using B(2) by simp
  qed
  moreover have "cells_rep ?P (?co + 2 * length (ins i ?c cs)) d5 {} (ins i idx ps1) (ins i ?c cs) fs1 t1"
    using N(1) by (simp add: add.assoc)
  ultimately have "page_rep ?P (ins i ?c cs)" using n free room unfolding page_rep_def by (auto simp: add_ac)
  moreover have "insertCell P p temp i pCell sz iChild = (if autoVacuum (pBt P) then do { (rc, q) \<leftarrow> ptrmapPutOvflPtr ?P p' pCell; Some (rc, ?P, q) }
       else Some (SQLITE_OK, ?P, p'))"
  proof -
    have r: "\<not> (ovfl P \<noteq> [] \<or> nFree P < sz + 2)" using F(6) room by simp
    show ?thesis
      unfolding insertCell_def B(3) Option.bind.simps if_not_P [OF r] w al(1) using lay(1-3) d5 n by (simp add: Let_def)
  qed
  ultimately show ?thesis unfolding Let_def by blast
qed

lemma sizes_del: "i < length cs \<Longrightarrow> sizes (del i cs) + length (cs ! i) = sizes cs"
proof -
  assume i: "i < length cs"
  have "sizes cs = sizes (take i cs @ cs ! i # drop (Suc i) cs)" using id_take_nth_drop [OF i] by simp
  then show ?thesis by (simp add: del_def)
qed

lemma page_cell_region:
  assumes cr: "cells_rep P lo d {} ps cs fs t" and i: "i < length cs"
  shows "t \<le> ps ! i" "ps ! i + length (cs ! i) \<le> usable P" "(ps ! i, length (cs ! i)) \<in> cell_regions ps cs" "holds d (ps ! i) (cs ! i)"
    "get2byte d (cellOffset P + 2 * i) = Some (ps ! i)"
proof -
  note C = cells_repD [OF cr]
  note D = spaceD [OF C(1)]
  show r: "(ps ! i, length (cs ! i)) \<in> cell_regions ps cs" using cell_regions_iff [OF C(9)] i by auto
  then show "t \<le> ps ! i" "ps ! i + length (cs ! i) \<le> usable P" using D(12) by force+
  show "holds d (ps ! i) (cs ! i)" using C(4,9) i by (simp add: list_all2_nthD)
  have "cellOffset P + 2 * i + 1 < length d" using C(8,9) D(1,4,5) i by linarith
  then show "get2byte d (cellOffset P + 2 * i) = Some (ps ! i)" using get2byte_b2 C(6,9) i by simp
qed

lemma dropCell_spec:
  assumes rep: "page_rep P cs" and i: "i < length cs"
  shows "\<exists>d. let P' = P\<lparr>aData := d, nCell := nCell P - 1, nFree := nFree P + length (cs ! i) + 2\<rparr> in
     page_rep P' (del i cs) \<and> dropCell P i (length (cs ! i)) = Some (SQLITE_OK, P')"
proof -
  let ?h = "hdrOffset P" let ?co = "cellOffset P" let ?n = "length cs" let ?s = "length (cs ! i)" let ?d = "aData P"
  have pf: "page_fields P" and n: "nCell P = ?n" and free: "nFree P + (?co + 2 * ?n) + sizes cs = usable P"
    using rep unfolding page_rep_def by blast+
  obtain ps fs t where cr: "cells_rep P (?co + 2 * ?n) ?d {} ps cs fs t" using rep unfolding page_rep_def by blast
  note F = page_fieldsD [OF pf]
  note C = cells_repD [OF cr]
  have sp: "space 4 (usable P) ?h (?co + 2 * ?n) ?d (cell_regions ps cs) fs t" using C(1) by simp
  note D = spaceD [OF sp]
  note I = page_cell_region [OF cr i]
  obtain d1 fs1 t1 where fr: "freeSpace P (ps ! i) ?s = Some (SQLITE_OK, P\<lparr>nFree := (nFree P + ?s) mod 65536, aData := d1\<rparr>)"
      "space 4 (usable P) ?h (?co + 2 * ?n) d1 (cell_regions ps cs - {(ps ! i, ?s)}) fs1 t1"
      "kept ?h (?co + 2 * ?n) (cell_regions ps cs - {(ps ! i, ?s)}) ?d d1"
    using freeSpace_spec [OF sp I(3)] by blast
  obtain d2 where d2: "copy_ptrs d1 (map (\<lambda>j. (?co + 2 * j, ?co + 2 * j + 2)) [i..<?n - 1]) = Some d2" "header_kept P ?d d2"
      "cells_rep P (?co + 2 * ?n - 2) d2 {} (del i ps) (del i cs) fs1 t1"
    using drop_layout [OF cr refl i fr(2,3)] by blast
  have L: "usable P \<le> length d2" "usable P \<le> 65536" "t1 \<le> usable P" "?co + 2 * ?n - 2 \<le> t1"
    using spaceD(1,2,4,5) [OF cells_repD(1) [OF d2(3)]] by blast+
  have "?h + 4 < length d2" using L F(4) i by linarith
  then obtain d3 where d3: "put2byte d2 (?h + 3) (?n - 1) = Some d3" using put2byte_ok [of "?h + 3" d2] by auto
  note N = cells_rep_nCell [OF d2(3) d3]
  let ?P = "P\<lparr>aData := d3, nCell := nCell P - 1, nFree := nFree P + ?s + 2\<rparr>"
  have fit: "nFree P + ?s + 2 < 65536" using free sizes_del [OF i] L(2) F(4) i by linarith
  have "page_fields ?P"
  proof (rule page_fields_update [OF pf])
    show "length d3 = length ?d" using put2byte_length [OF d3] d2(2) by (simp add: header_kept_def)
    have "?h < length ?d" using D(1,3-5) by linarith
    then have "d2 ! ?h = ?d ! ?h" using d2(2) F(4) unfolding header_kept_def by simp
    then show "d3 ! ?h = ?d ! ?h" using N(2) by simp
  qed
  moreover have "b2 d3 (?h + 3) = ?n - 1" using b2_put2byte [OF d3] \<open>?h + 4 < length d2\<close> L free i by simp
  moreover have "cells_rep ?P (?co + 2 * length (del i cs)) d3 {} (del i ps) (del i cs) fs1 t1"
  proof -
    have "?co + 2 * ?n - 2 = ?co + 2 * length (del i cs)" using i by simp
    then show ?thesis using N(1) by simp
  qed
  ultimately have "page_rep ?P (del i cs)" using n free sizes_del [OF i] i unfolding page_rep_def by auto
  moreover have "dropCell P i ?s = Some (SQLITE_OK, ?P)"
  proof -
    have g: "get2byte ?d (?co + 2 * i) = Some (ps ! i)" by (rule I(5))
    have t: "get2byte ?d (?h + 5) = Some (b2 ?d (?h + 5))" "b2 ?d (?h + 5) \<le> t"
      using get2byte_b2 [of "?h + 5" ?d] D(1,3-6) by (auto simp: b2nz_def split: if_splits)
    have "?n < 65536" using free L(2) F(4) by linarith
    then have last: "(?n + 65535) mod 65536 = ?n - 1" using i by (cases ?n) simp_all
    have bad: "\<not> (ps ! i < b2 ?d (?h + 5) \<or> usable P < ps ! i + ?s)" using t(2) I(1,2) by linarith
    show ?thesis
      unfolding dropCell_def Let_def g t(1) Option.bind.simps if_not_P [OF bad] fr(1)
      using d2(1) d3 n fit last by simp
  qed
  ultimately show ?thesis unfolding Let_def by blast
qed

lemma defragmentPage_rep:
  assumes rep: "page_rep P cs" and temp: "usable P \<le> length temp"
  shows "\<exists>d. page_rep (P\<lparr>aData := d\<rparr>) cs \<and> defragmentPage P temp = Some (SQLITE_OK, P\<lparr>aData := d\<rparr>) \<and>
     get2byte d (hdrOffset P + 1) = Some 0 \<and> rd d (hdrOffset P + 7) = Some 0"
proof -
  let ?h = "hdrOffset P" let ?co = "cellOffset P" let ?n = "length cs"
  have pf: "page_fields P" and n: "nCell P = ?n" and nb: "b2 (aData P) (?h + 3) = ?n" and free: "nFree P + (?co + 2 * ?n) + sizes cs = usable P"
    using rep unfolding page_rep_def by blast+
  obtain ps fs t where cr: "cells_rep P (?co + 2 * ?n) (aData P) {} ps cs fs t" using rep unfolding page_rep_def by blast
  note F = page_fieldsD [OF pf]
  obtain d where d: "defragmentPage P temp = Some (SQLITE_OK, P\<lparr>aData := d\<rparr>)" "header_kept P (aData P) d"
      "cells_rep P (?co + 2 * ?n) d {} (offs (usable P) cs) cs [] (usable P - sizes cs)"
    using defragmentPage_spec [OF cr _ n F(1) _ temp] free n by auto
  note C = cells_repD [OF d(3)]
  note D = spaceD [OF C(1)]
  have h: "?h + 8 \<le> length d" "length d = length (aData P)" using D(1,3-5) d(2) by (auto simp: header_kept_def)
  have same: "d ! j = aData P ! j" if "j < ?co" "j \<notin> {?h + 1, ?h + 2, ?h + 5, ?h + 6, ?h + 7}" for j
    using d(2) that h D(1,3-5) C(8) unfolding header_kept_def by auto
  have "page_fields (P\<lparr>aData := d, nCell := nCell P, nFree := nFree P\<rparr>)"
    by (rule page_fields_update [OF pf h(2) same]) (use F(4) in auto)
  then have "page_fields (P\<lparr>aData := d\<rparr>)" by simp
  moreover have "b2 d (?h + 3) = ?n" unfolding nb [symmetric] by (rule b2_cong; rule same) (use F(4) in auto)
  ultimately have "page_rep (P\<lparr>aData := d\<rparr>) cs" using n free d(3) unfolding page_rep_def by auto
  moreover have "get2byte d (?h + 1) = Some 0" using D(7) get2byte_b2 [of "?h + 1" d] h(1) by simp
  moreover have "rd d (?h + 7) = Some 0"
  proof -
    have "length (offs (usable P) cs) = length cs" by simp
    then have "sum snd (cell_regions (offs (usable P) cs) cs) = sizes cs" by (rule sum_cell_regions) (rule C(3))
    then have "unat (d ! (?h + 7)) = 0" using D(14) free by simp
    then show ?thesis using h(1) by (simp add: rd_def unsigned_eq_0_iff)
  qed
  ultimately show ?thesis using d(1) by blast
qed

section \<open>An empty page\<close>

definition new_page :: "MemPage \<Rightarrow> bool" where
  "new_page P \<longleftrightarrow> bt_ok (pBt P) \<and> length (aData P) = pageSize (pBt P) \<and> hdrOffset P \<in> {0, 100}"

lemma mem_write_chain_ok: "off + length s \<le> length d \<Longrightarrow> \<exists>d'. mem_write d off s = Some d' \<and> length d' = length d"
  by (simp add: mem_write_def)

lemma zeroPage_spec:
  assumes new: "new_page P" and f: "flags \<in> {2, 5, 10, 13}"
  shows "\<exists>P'. zeroPage P flags = Some P' \<and> page_rep P' [] \<and> leaf P' = (flags \<in> {10, 13}) \<and> pBt P' = pBt P \<and> hdrOffset P' = hdrOffset P \<and>
    unat (aData P' ! hdrOffset P') = flags \<and> b2 (aData P') (hdrOffset P' + 1) = 0 \<and> aData P' ! (hdrOffset P' + 7) = 0"
proof -
  let ?h = "hdrOffset P" let ?u = "usable P"
  have bs: "bt_sizes (pBt P)" "length (aData P) = pageSize (pBt P)" "?h \<le> 100" using new by (auto simp: new_page_def bt_ok_def)
  have "480 \<le> ?u" "?u \<le> pageSize (pBt P)" using bs(1) unfolding bt_sizes_def by blast+
  then have u: "480 \<le> ?u" "?u \<le> 65536" "?u \<le> length (aData P)" using pageSize_bounds [OF bs(1)] bs(2) by linarith+
  define first where "first = ?h + 8 + 4 * (if flags AND PTF_LEAF = 0 then 1 else 0)"
  have first: "first = (if flags \<in> {10, 13} then ?h + 8 else ?h + 12)" using f by (auto simp: first_def PTF_LEAF_def)
  obtain d0 where d0: "(if bts_secure_delete (pBt P) then mem_write (aData P) ?h (replicate (?u - ?h) 0) else Some (aData P)) = Some d0" "length d0 = length (aData P)"
  proof -
    have "?h + length (replicate (?u - ?h) (0::u8)) \<le> length (aData P)" using u bs(3) by simp
    then show thesis using mem_write_chain_ok [of ?h "replicate (?u - ?h) 0" "aData P"] that by (cases "bts_secure_delete (pBt P)") auto
  qed
  obtain d1 where d1: "mem_write d0 ?h [of_nat flags] = Some d1" "length d1 = length d0" using mem_write_chain_ok [of ?h "[of_nat flags]" d0] d0(2) u bs(3) by auto
  obtain d2 where d2: "mem_write d1 (?h + 1) [0, 0, 0, 0] = Some d2" "length d2 = length d1" using mem_write_chain_ok [of "?h + 1" "[0, 0, 0, 0]" d1] d0(2) d1(2) u bs(3) by auto
  obtain d3 where d3: "mem_write d2 (?h + 7) [0] = Some d3" "length d3 = length d2" using mem_write_chain_ok [of "?h + 7" "[0]" d2] d0(2) d1(2) d2(2) u bs(3) by auto
  obtain d4 where d4: "put2byte d3 (?h + 5) ?u = Some d4" using put2byte_ok [of "?h + 5" d3 ?u] d0(2) d1(2) d2(2) d3(2) u bs(3) by auto
  have len: "length d4 = length (aData P)" "length d3 = length (aData P)" "length d2 = length (aData P)" "length d1 = length (aData P)"
    using put2byte_length [OF d4] d0(2) d1(2) d2(2) d3(2) by simp_all
  have room: "?h + 8 \<le> length (aData P)" using u bs(3) by linarith
  have n3: "d3 ! (?h + 7) = 0" "\<And>j. j < length (aData P) \<Longrightarrow> j \<noteq> ?h + 7 \<Longrightarrow> d3 ! j = d2 ! j"
    using mem_write_nth [OF d3(1)] len room by auto
  have n2: "\<And>j. ?h + 1 \<le> j \<Longrightarrow> j \<le> ?h + 4 \<Longrightarrow> d2 ! j = 0" "d2 ! ?h = d1 ! ?h"
  proof -
    show "d2 ! j = 0" if "?h + 1 \<le> j" "j \<le> ?h + 4" for j
    proof -
      have "j - (?h + 1) \<in> {0, 1, 2, 3}" "j < length d1" using that len room by auto
      then show ?thesis using mem_write_nth [OF d2(1), of j] that by auto
    qed
    show "d2 ! ?h = d1 ! ?h" using mem_write_nth [OF d2(1), of ?h] len room by simp
  qed
  have n1: "d1 ! ?h = of_nat flags" using mem_write_nth [OF d1(1), of ?h] d0(2) room by simp
  have n4: "d4 ! j = d3 ! j" if "j < length (aData P)" "j \<noteq> ?h + 5" "j \<noteq> ?h + 6" for j using put2byte_nth [OF d4, of j] that len by simp
  have v: "d4 ! ?h = of_nat flags" "b2 d4 (?h + 1) = 0" "b2 d4 (?h + 3) = 0" "d4 ! (?h + 7) = 0"
    using n4 n3 n2 n1 room len by (auto simp: b2_def)
  have top: "b2nz d4 (?h + 5) = ?u" using b2_put2byte [OF d4] len room u(1,2) by (cases "?u = 65536") (simp_all add: b2nz_def)
  let ?P0 = "P\<lparr>aData := d4, nFree := (?u - first) mod 2 ^ 16\<rparr>"
  define Q where "Q = snd (decodeFlags ?P0 flags)"
  let ?P = "Q\<lparr>cellOffset := first, ovfl := [], maskPage := pageSize (pBt P) - 1, nCell := 0, isInit := True\<rparr>"
  have Q: "pBt Q = pBt P" "aData Q = d4" "hdrOffset Q = ?h" "nFree Q = ?u - first" "leaf Q = (flags \<in> {10, 13})"
    using f u first bs(3) by (auto simp: Q_def decodeFlags_def Let_def)
  have dec: "decodeFlags ?P flags = (SQLITE_OK, ?P)"
    using f by (auto simp: Q_def decodeFlags_def Let_def PTF_LEAF_def PTF_LEAFDATA_def PTF_INTKEY_def PTF_ZERODATA_def)
  have fl: "unat (of_nat flags :: u8) = flags" by (rule unat_u8_of_nat) (use f in auto)
  have "page_fields ?P"
    using new dec len(1) bs(2) Q v(1) fl first unfolding page_fields_def new_page_def by (auto split: if_splits)
  moreover have "space 4 ?u ?h first d4 (cell_regions [] []) [] ?u"
    using space_packed(1) [of ?u d4 ?h first "[]"] u len(1) v top bs(3) first by (auto split: if_splits)
  then have "cells_rep ?P (cellOffset ?P + 2 * length []) (aData ?P) {} [] [] [] ?u"
    using Q first by (auto simp: cells_rep_def split: if_splits)
  ultimately have "page_rep ?P []" using Q v(3) first u bs(3) unfolding page_rep_def by (auto split: if_splits)
  moreover have "zeroPage P flags = Some ?P"
    using d0(1) d1(1) d2(1) d3(1) d4 unfolding zeroPage_def Q_def first_def by (simp add: Let_def)
  ultimately show ?thesis using Q v(1,2,4) fl by auto
qed

section \<open>Reading a cell\<close>

definition cellSize :: "MemPage \<Rightarrow> nat \<Rightarrow> nat option" where
  "cellSize pPage iCell = do { p \<leftarrow> findCell pPage iCell; cellSizePtr pPage (drop p (aData pPage)) }"

definition page_cell :: "MemPage \<Rightarrow> nat \<Rightarrow> bytes option" where
  "page_cell P i = do { p \<leftarrow> findCell P i; n \<leftarrow> cellSize P i; mem_read (aData P) p n }"

lemma mask_small: "bt_sizes bt \<Longrightarrow> x < pageSize bt \<Longrightarrow> (pageSize bt - 1) AND x = x"
proof -
  assume a: "bt_sizes bt" "x < pageSize bt"
  have m: "(2 ^ k - 1) AND x = x" if "x < 2 ^ k" for k
    using that take_bit_eq_mask [of k x] by (simp add: mask_eq_exp_minus_1 and.commute take_bit_nat_eq_self)
  have "pageSize bt \<in> {2 ^ 9, 2 ^ 10, 2 ^ 11, 2 ^ 12, 2 ^ 13, 2 ^ 14, 2 ^ 15, 2 ^ 16}" using a(1) by (simp add: bt_sizes_def)
  then obtain k where "pageSize bt = 2 ^ k" by blast
  then show ?thesis using m [of k] a(2) by simp
qed

lemma page_cell_rep:
  assumes rep: "page_rep P cs" and i: "i < length cs"
  shows "page_cell P i = Some (cs ! i)" and "cellSize P i = Some (length (cs ! i))"
proof -
  have pf: "page_fields P" using rep unfolding page_rep_def by blast
  note F = page_fieldsD [OF pf]
  obtain ps fs t where cr: "cells_rep P (cellOffset P + 2 * length cs) (aData P) {} ps cs fs t" using rep unfolding page_rep_def by blast
  note I = page_cell_region [OF cr i]
  have ic: "is_cell P (cs ! i)" using cells_repD(5) [OF cr] i by (simp add: list_all_length)
  have "ps ! i < pageSize (pBt P)" using I(4) is_cellD(1) [OF F(1) ic] F(8) by (simp add: holds_def)
  then have f: "findCell P i = Some (ps ! i)" using I(5) mask_small [OF F(7)] F(9) by (simp add: findCell_def)
  show s: "cellSize P i = Some (length (cs ! i))" using f is_cellD(3) [OF F(1) ic] holds_drop [OF I(4)] by (simp add: cellSize_def)
  show "page_cell P i = Some (cs ! i)" using f s holds_read [OF I(4)] by (simp add: page_cell_def)
qed

section \<open>Reading a page back\<close>

lemma chain_next: "chain d a ((p, s) # fs) 0 \<Longrightarrow> b2 d p = (case fs of [] \<Rightarrow> 0 | f # _ \<Rightarrow> fst f)"
  by (cases fs) (auto split: prod.splits)

lemma init_free_spec:
  assumes "chain d a fs 0" and "ascending 4 lo fs" and "\<forall>f \<in> set fs. fst f + snd f \<le> u" and "u \<le> length d" and "0 < lo"
  shows "init_free d lo u (case fs of [] \<Rightarrow> 0 | f # _ \<Rightarrow> fst f) n = Some (SQLITE_OK, n + sum_list (map snd fs))"
proof -
  have "init_free d iCellFirst u (case fs of [] \<Rightarrow> 0 | f # _ \<Rightarrow> fst f) n = Some (SQLITE_OK, n + sum_list (map snd fs))"
    if "chain d a fs 0" "ascending 4 lo fs" "\<forall>f \<in> set fs. fst f + snd f \<le> u" "iCellFirst \<le> lo" for iCellFirst
    using that
  proof (induction fs arbitrary: a lo n)
    case Nil
    show ?case by (subst init_free.simps) simp
  next
    case (Cons f fs)
    obtain p s where f: "f = (p, s)" by fastforce
    have p: "lo \<le> p" "4 \<le> s" "p + s \<le> u" "0 < p" "b2 d (p + 2) = s" "ascending 4 (p + s + 4) fs" "chain d p fs 0"
      using Cons.prems by (auto simp: f)
    have ge: "fst g \<ge> p + s + 4" if "g \<in> set fs" for g using ascending_ge [OF p(6) that] by simp
    define nxt where "nxt = (case fs of [] \<Rightarrow> 0 | g # _ \<Rightarrow> fst g)"
    have nxt: "get2byte d p = Some nxt" "\<not> (0 < nxt \<and> nxt \<le> p + s + 3 \<or> u < p + s)"
      using get2byte_b2 [of p d] chain_next [of d a p s fs] Cons.prems(1) p(2,3) assms(4) ge [of "hd fs"] by (auto simp: f nxt_def split: list.splits)
    have sz: "get2byte d (p + 2) = Some s" using get2byte_b2 [of "p + 2" d] p assms(4) by simp
    have ok: "\<not> (p < iCellFirst \<or> u - 4 < p)" "p \<noteq> 0" using p Cons.prems(4) by linarith+
    have "init_free d iCellFirst u p n = init_free d iCellFirst u nxt (n + s)"
      by (subst init_free.simps) (simp only: if_not_P [OF ok(1)] if_not_P [OF ok(2)] if_not_P [OF nxt(2)] nxt(1) sz Option.bind.simps)
    also have "\<dots> = Some (SQLITE_OK, n + s + sum_list (map snd fs))"
      unfolding nxt_def by (rule Cons.IH [OF p(7,6)]) (use Cons.prems(3,4) p(1) in auto)
    finally show ?case by (simp add: f)
  qed
  then show ?thesis using assms(1-3) by simp
qed

text \<open>The fields of the page object that are not read from the file.\<close>

definition same_file :: "MemPage \<Rightarrow> MemPage \<Rightarrow> bool" where
  "same_file P Q \<longleftrightarrow> pBt Q = pBt P \<and> hdrOffset Q = hdrOffset P \<and> aData Q = aData P \<and> pgno Q = pgno P"

lemma decodeFlags_fields:
  assumes "decodeFlags P f = (SQLITE_OK, P)" and "pBt Q = pBt P"
  shows "decodeFlags Q f = (SQLITE_OK, Q\<lparr>leaf := leaf P, childPtrSize := childPtrSize P, intKey := intKey P, hasData := hasData P,
    pgMaxLocal := pgMaxLocal P, pgMinLocal := pgMinLocal P, pgMax1byte := pgMax1byte P\<rparr>)"
proof -
  have "decodeFlags Q f = (fst (decodeFlags P f), let P' = snd (decodeFlags P f) in
    Q\<lparr>leaf := leaf P', childPtrSize := childPtrSize P', intKey := intKey P', hasData := hasData P', pgMaxLocal := pgMaxLocal P',
      pgMinLocal := pgMinLocal P', pgMax1byte := pgMax1byte P'\<rparr>)" if "fst (decodeFlags P f) = SQLITE_OK"
    using that assms(2) by (auto simp: decodeFlags_def Let_def split: if_splits)
  then show ?thesis using assms(1) by simp
qed

lemma btreeInitPage_rep:
  assumes rep: "page_rep P cs" and Q: "same_file P Q" "\<not> isInit Q"
  shows "btreeInitPage Q = Some (SQLITE_OK, P)"
proof -
  let ?h = "hdrOffset P" let ?co = "cellOffset P" let ?n = "length cs" let ?d = "aData P"
  have pf: "page_fields P" and n: "nCell P = ?n" and nb: "b2 ?d (?h + 3) = ?n" and free: "nFree P + (?co + 2 * ?n) + sizes cs = usable P"
    using rep unfolding page_rep_def by blast+
  obtain ps fs t where cr: "cells_rep P (?co + 2 * ?n) ?d {} ps cs fs t" using rep unfolding page_rep_def by blast
  note F = page_fieldsD [OF pf]
  note C = cells_repD [OF cr]
  have sp: "space 4 (usable P) ?h (?co + 2 * ?n) ?d (cell_regions ps cs) fs t" using C(1) by simp
  note D = spaceD [OF sp]
  have dec: "decodeFlags P (unat (?d ! ?h)) = (SQLITE_OK, P)" using pf unfolding page_fields_def by blast
  have q: "pBt Q = pBt P" "hdrOffset Q = ?h" "aData Q = ?d" "pgno Q = pgno P" using Q(1) unfolding same_file_def by simp_all
  have len: "?h + 7 < length ?d" using D(1,3-5) by linarith
  have rd: "rd ?d ?h = Some (?d ! ?h)" "rd ?d (?h + 7) = Some (?d ! (?h + 7))" using len by (simp_all add: rd_def)
  have g: "get2byteNotZero ?d (?h + 5) = Some t" "get2byte ?d (?h + 3) = Some ?n"
      "get2byte ?d (?h + 1) = Some (case fs of [] \<Rightarrow> 0 | f # _ \<Rightarrow> fst f)"
    using get2byteNotZero_b2 [of "?h + 5" ?d] D(6) get2byte_b2 [of "?h + 3" ?d] nb len link_readable [of 4 "usable P" ?h _ ?d _ "[]" fs t] sp
    by (simp_all add: b2nz_def)
  have "4 * ?n \<le> sizes cs"
  proof -
    have "\<forall>c \<in> set cs. 4 \<le> length c" using C(5) is_cellD(1) [OF F(1)] by (simp add: list_all_iff)
    then show ?thesis by (induction cs) auto
  qed
  moreover have u: "usable P \<le> pageSize (pBt P)" using F(7) by (simp add: bt_sizes_def)
  ultimately have "6 * ?n \<le> pageSize (pBt P) - 8" using free F(4) by linarith
  then have mx: "\<not> MX_CELL (pBt P) < ?n" by (simp add: MX_CELL_def)
  have loop: "init_free ?d (?co + 2 * ?n) (usable P) (case fs of [] \<Rightarrow> 0 | f # _ \<Rightarrow> fst f) (unat (?d ! (?h + 7)) + t) =
      Some (SQLITE_OK, unat (?d ! (?h + 7)) + t + sum_list (map snd fs))"
    by (rule init_free_spec [OF D(7) ascending_mono [OF D(8,4)]]) (use D(1,3,9) in auto)
  have total: "unat (?d ! (?h + 7)) + t + sum_list (map snd fs) = nFree P + (?co + 2 * ?n)"
    using D(5,14) sum_cell_regions [OF C(9,3)] free by linarith
  have fits: "\<not> usable P < nFree P + (?co + 2 * ?n)" "(nFree P + (?co + 2 * ?n) + 65536 - (?co + 2 * ?n)) mod 65536 = nFree P" using free D(2) F(4) by auto
  show ?thesis
    unfolding btreeInitPage_def if_not_P [OF Q(2)] Let_def q rd(1) Option.bind.simps decodeFlags_fields [OF dec q(1)] prod.case
    using rd(2) g loop mx total fits F(5,6,9,10) n q by simp
qed

end
