(* ===== verification/Btree_Build.thy ===== *)
theory Btree_Build
  imports Btree_Sequence
begin

text \<open>
  Building a page from a list of cells, and reading a page whose bytes are arbitrary.
\<close>

section \<open>Building a page\<close>

lemma offs_rev_snoc: "rev (offs u (rev (cs @ [c]))) = rev (offs (u - length c) (rev cs)) @ [u - length c]"
  by simp

lemma assemble_cells_spec:
  assumes "co + 2 * length cs + sizes cs \<le> cb" and "cb \<le> length d" and "cb \<le> 65536" and "list_all (\<lambda>c. 4 \<le> length c) cs"
  shows "\<exists>d'. assemble_cells co (rev (zip [0..<length cs] cs)) d cb = Some (d', cb - sizes cs) \<and> length d' = length d \<and>
    (\<forall>k < length cs. b2 d' (co + 2 * k) = rev (offs cb (rev cs)) ! k) \<and> list_all2 (holds d') (rev (offs cb (rev cs))) cs \<and>
    (\<forall>j < length d. j < co \<or> co + 2 * length cs \<le> j \<and> j < cb - sizes cs \<or> cb \<le> j \<longrightarrow> d' ! j = d ! j)"
  using assms
proof (induction cs arbitrary: d cb rule: rev_induct)
  case Nil
  then show ?case by simp
next
  case (snoc c cs)
  let ?n = "length c" let ?m = "length cs"
  have n: "4 \<le> ?n" "list_all (\<lambda>c. 4 \<le> length c) cs" using snoc.prems(4) by simp_all
  have cb: "co + 2 * ?m + 2 + sizes cs + ?n \<le> cb" "cb - ?n - sizes cs = cb - sizes (cs @ [c])" using snoc.prems(1) by simp_all
  obtain d1 where d1: "put2byte d (co + 2 * ?m) (cb - ?n) = Some d1" using put2byte_ok [of "co + 2 * ?m" d] cb(1) snoc.prems(2) n by auto
  have l1: "length d1 = length d" by (rule put2byte_length [OF d1])
  obtain d2 where d2: "mem_write d1 (cb - ?n) c = Some d2" using mem_write_ok [of "cb - ?n" c d1] cb(1) snoc.prems(2) l1 by auto
  have l2: "length d2 = length d" using mem_write_length [OF d2] l1 by simp
  have "co + 2 * ?m + sizes cs \<le> cb - ?n" "cb - ?n \<le> length d2" "cb - ?n \<le> 65536" using cb(1) snoc.prems(2,3) l2 by simp_all
  then obtain d' where d': "assemble_cells co (rev (zip [0..<?m] cs)) d2 (cb - ?n) = Some (d', cb - ?n - sizes cs)" "length d' = length d2"
      "\<And>k. k < ?m \<Longrightarrow> b2 d' (co + 2 * k) = rev (offs (cb - ?n) (rev cs)) ! k" "list_all2 (holds d') (rev (offs (cb - ?n) (rev cs))) cs"
      "\<And>j. j < length d2 \<Longrightarrow> j < co \<or> co + 2 * ?m \<le> j \<and> j < cb - ?n - sizes cs \<or> cb - ?n \<le> j \<Longrightarrow> d' ! j = d2 ! j"
    using snoc.IH [of "cb - ?n" d2] n(2) by blast
  have out: "d2 ! j = d ! j" if "j < length d" "j \<noteq> co + 2 * ?m" "j \<noteq> Suc (co + 2 * ?m)" "j < cb - ?n \<or> cb \<le> j" for j
    using put2byte_nth [OF d1 that(1)] mem_write_nth [OF d2, of j] that l1 cb(1) by auto
  have ptr: "b2 d' (co + 2 * ?m) = cb - ?n"
  proof -
    have "b2 d' (co + 2 * ?m) = b2 d2 (co + 2 * ?m)" using cb(1) snoc.prems(2) l2 by (intro b2_cong d'(5)) auto
    also have "\<dots> = b2 d1 (co + 2 * ?m)" using cb(1) snoc.prems(2) l1 by (intro mem_write_b2 [OF d2]) auto
    also have "\<dots> = (cb - ?n) mod 65536" using b2_put2byte [OF d1] cb(1) snoc.prems(2) n by simp
    finally show ?thesis using n(1) snoc.prems(3) cb(1) by simp
  qed
  have "b2 d' (co + 2 * k) = rev (offs cb (rev (cs @ [c]))) ! k" if "k < length (cs @ [c])" for k
    unfolding offs_rev_snoc using that d'(3) [of k] ptr by (cases "k = ?m") (simp_all add: nth_append)
  moreover have "holds d' (cb - ?n) c"
  proof (rule holds_cong [OF holds_write [OF d2]])
    show "d' ! j = d2 ! j" if "cb - ?n \<le> j" "j < cb - ?n + ?n" for j
      using that cb(1) snoc.prems(2) l2 by (intro d'(5)) auto
  qed (rule d'(2))
  then have "list_all2 (holds d') (rev (offs cb (rev (cs @ [c])))) (cs @ [c])"
    unfolding offs_rev_snoc using d'(4) by (simp add: list_all2_appendI)
  moreover have "d' ! j = d ! j" if "j < length d" "j < co \<or> co + 2 * length (cs @ [c]) \<le> j \<and> j < cb - sizes (cs @ [c]) \<or> cb \<le> j" for j
  proof -
    have "d' ! j = d2 ! j" using that l2 cb by (intro d'(5)) auto
    also have "\<dots> = d ! j" using that cb(1) by (intro out) auto
    finally show ?thesis .
  qed
  moreover have "rev (zip [0..<length (cs @ [c])] (cs @ [c])) = (?m, c) # rev (zip [0..<?m] cs)" by (simp add: zip_append)
  moreover have "?n \<le> cb" using cb(1) by simp
  ultimately show ?case using d1 d2 d'(1,2) l2 cb(2) by simp
qed

lemma cell_regions_rev: "length ps = length cs \<Longrightarrow> cell_regions (rev ps) (rev cs) = cell_regions ps cs"
  unfolding cell_regions_def rev_map [symmetric] by (subst zip_rev) simp_all

lemma assemblePage_rep:
  assumes rep: "page_rep P []" and empty: "b2 (aData P) (hdrOffset P + 1) = 0" "aData P ! (hdrOffset P + 7) = 0"
    and cells: "list_all (is_cell P) cs" and fit: "cellOffset P + 2 * length cs + sizes cs \<le> usable P"
  shows "\<exists>d. assemblePage P cs = Some (P\<lparr>aData := d, nFree := nFree P - (length cs * 2 + sizes cs), nCell := length cs\<rparr>) \<and>
     page_rep (P\<lparr>aData := d, nFree := nFree P - (length cs * 2 + sizes cs), nCell := length cs\<rparr>) cs"
proof -
  let ?h = "hdrOffset P" let ?co = "cellOffset P" let ?u = "usable P" let ?n = "length cs" let ?d = "aData P"
  have pf: "page_fields P" and free: "nFree P + ?co = ?u" using rep unfolding page_rep_def by auto
  obtain ps fs t where cr: "cells_rep P ?co ?d {} ps [] fs t" using rep unfolding page_rep_def by auto
  note F = page_fieldsD [OF pf]
  note D = spaceD [OF cells_repD(1) [OF cr]]
  have lens: "list_all (\<lambda>c. 4 \<le> length c) cs" using cells is_cellD(1) [OF F(1)] by (simp add: list_all_iff)
  define cb where "cb = ?u - sizes cs"
  define qs where "qs = rev (offs ?u (rev cs))"
  have cb: "?co + 2 * ?n \<le> cb" "cb + sizes cs = ?u" using fit by (simp_all add: cb_def)
  obtain d1 where d1: "assemble_cells ?co (rev (zip [0..<?n] cs)) ?d ?u = Some (d1, cb)" "length d1 = length ?d"
      "\<And>k. k < ?n \<Longrightarrow> b2 d1 (?co + 2 * k) = qs ! k" "list_all2 (holds d1) qs cs"
      "\<And>j. j < length ?d \<Longrightarrow> j < ?co \<or> ?co + 2 * ?n \<le> j \<and> j < cb \<Longrightarrow> d1 ! j = ?d ! j"
    using assemble_cells_spec [OF fit D(1,2) lens] unfolding cb_def [symmetric] qs_def [symmetric] by blast
  have len: "?h + 8 \<le> length ?d" "?h + 8 \<le> cb" using D(1,3-5) F(4) cb by linarith+
  obtain d2 where d2: "put2byte d1 (?h + 3) ?n = Some d2" using put2byte_ok [of "?h + 3" d1] len d1(2) by auto
  have l2: "length d2 = length ?d" using put2byte_length [OF d2] d1(2) by simp
  obtain d3 where d3: "put2byte d2 (?h + 5) cb = Some d3" using put2byte_ok [of "?h + 5" d2] len l2 by auto
  have l3: "length d3 = length ?d" using put2byte_length [OF d3] l2 by simp
  have n3: "d3 ! j = d1 ! j" if "j < length ?d" "j < ?h + 3 \<or> ?h + 7 \<le> j" for j
    using put2byte_nth [OF d3, of j] put2byte_nth [OF d2, of j] that d1(2) l2 by auto
  have low: "d3 ! j = ?d ! j" if "j < ?co" "j < ?h + 3 \<or> ?h + 7 \<le> j" for j
    using n3 [of j] d1(5) [of j] that D(1,3-5) by simp
  have v: "b2nz d3 (?h + 5) = cb" "b2 d3 (?h + 3) = ?n" "b2 d3 (?h + 1) = 0" "d3 ! (?h + 7) = 0"
  proof -
    show "b2nz d3 (?h + 5) = cb" using b2_put2byte [OF d3] l2 len cb D(2) by (cases "cb = 65536") (simp_all add: b2nz_def)
    have "b2 d3 (?h + 3) = b2 d2 (?h + 3)" using put2byte_b2_other [OF d3, of "?h + 3"] l2 len by simp
    also have "\<dots> = ?n mod 65536" using b2_put2byte [OF d2] d1(2) len by simp
    finally show "b2 d3 (?h + 3) = ?n" using cb D(2) F(4) by simp
    have "b2 d3 (?h + 1) = b2 ?d (?h + 1)" by (rule b2_cong; rule low) (use F(4) in simp_all)
    then show "b2 d3 (?h + 1) = 0" using empty(1) by simp
    have "d3 ! (?h + 7) = ?d ! (?h + 7)" by (rule low) (use F(4) in simp_all)
    then show "d3 ! (?h + 7) = 0" using empty(2) by simp
  qed
  have rs: "sizes (rev cs) = sizes cs" by (simp add: rev_map [symmetric])
  have "list_all (\<lambda>c. 4 \<le> length c) (rev cs)" using lens by (simp add: list_all_iff)
  note S = space_packed [of ?u d3 ?h "?co + 2 * ?n" "rev cs", unfolded rs, OF _ D(2) _ _ _ v(3,4) this]
  have S1: "space 4 ?u ?h (?co + 2 * ?n) d3 (cell_regions qs cs) [] cb" "distinct qs"
    using S v(1) D(1) l3 F(4) fit cell_regions_rev [of "offs ?u (rev cs)" "rev cs"] by (simp_all add: cb_def qs_def)
  have "list_all2 (holds d3) qs cs"
    unfolding list_all2_conv_all_nth
  proof (intro conjI allI impI)
    show l: "length qs = length cs" by (simp add: qs_def)
    fix k assume k: "k < length qs"
    have h: "holds d1 (qs ! k) (cs ! k)" using d1(4) k by (simp add: list_all2_nthD)
    have "(qs ! k, length (cs ! k)) \<in> cell_regions qs cs" using cell_regions_iff [OF l] k l by auto
    then have "cb \<le> qs ! k" using spaceD(12) [OF S1(1)] by force
    then show "holds d3 (qs ! k) (cs ! k)"
      using h l3 d1(2) len by (intro holds_cong [OF h] n3) (auto simp: holds_def)
  qed
  moreover have "b2 d3 (?co + 2 * k) = qs ! k" if "k < ?n" for k
  proof -
    have "b2 d3 (?co + 2 * k) = b2 d1 (?co + 2 * k)" by (rule b2_cong; rule n3) (use that cb F(4) D(1) in linarith)+
    then show ?thesis using d1(3) [OF that] by simp
  qed
  ultimately have cr3: "cells_rep P (?co + 2 * ?n) d3 {} qs cs [] cb" using S1 cells F(4) by (simp add: cells_rep_def qs_def)
  let ?P = "P\<lparr>aData := d3, nFree := nFree P - (?n * 2 + sizes cs), nCell := ?n\<rparr>"
  have pf3: "page_fields (P\<lparr>aData := d3, nCell := ?n, nFree := nFree P - (?n * 2 + sizes cs)\<rparr>)"
    by (rule page_fields_update [OF pf l3 low]) (use F(4) in simp_all)
  have "?P = P\<lparr>aData := d3, nCell := ?n, nFree := nFree P - (?n * 2 + sizes cs)\<rparr>" by simp
  then have "page_fields ?P" using pf3 by (simp only:)
  then have "page_rep ?P cs" using v(2) free fit cr3 unfolding page_rep_def by auto
  moreover have "assemblePage P cs = Some ?P"
  proof -
    define X where "X = ?n * 2 + sizes cs"
    have X: "?n * 2 + ?u - cb = X" "X \<le> nFree P" "nFree P < 65536" "?n < 65536"
      using cb fit free F(4) D(2) unfolding X_def by linarith+
    then have "nFree P + 65536 - X = (nFree P - X) + 65536" by linarith
    then have "(nFree P + 65536 - X) mod 65536 = (nFree P - X) mod 65536" by (simp only: mod_add_self2)
    then have nf: "(nFree P + 2 ^ 16 - X mod 2 ^ 16) mod 2 ^ 16 = nFree P - X" "?n mod 2 ^ 16 = ?n" using X by simp_all
    show ?thesis
      unfolding assemblePage_def Let_def d1(1) Option.bind.simps prod.case d2 d3 X(1) nf X_def [symmetric] ..
  qed
  ultimately show ?thesis by blast
qed

section \<open>Reading arbitrary bytes\<close>

text \<open>What btreeInitPage checks of the free blocks of a page it accepts.\<close>

fun checked :: "nat \<Rightarrow> nat \<Rightarrow> region list \<Rightarrow> bool" where
  "checked u lo [] = True"
| "checked u lo ((p, s) # fs) = (lo \<le> p \<and> p + s \<le> u \<and> checked u (p + s + 4) fs)"

lemma init_free_total:
  assumes "4 \<le> u" and "u \<le> length d" and "b2 d a \<noteq> 0 \<longrightarrow> l \<le> b2 d a"
  shows "\<exists>rc m. init_free d lo u (b2 d a) n = Some (rc, m) \<and> rc \<in> {SQLITE_OK, SQLITE_CORRUPT} \<and>
    (rc = SQLITE_OK \<longrightarrow> (\<exists>fs. chain d a fs 0 \<and> checked u lo fs \<and> (fs \<noteq> [] \<longrightarrow> l \<le> fst (hd fs)) \<and> m = n + sum_list (map snd fs)))"
  using assms(3)
proof (induction "u - b2 d a" arbitrary: a l n rule: less_induct)
  case less
  let ?p = "b2 d a"
  show ?case
  proof (cases "?p = 0 \<or> ?p < lo \<or> u - 4 < ?p")
    case True
    then show ?thesis
    proof (cases "?p = 0")
      case True
      then have "init_free d lo u ?p n = Some (SQLITE_OK, n)" by (subst init_free.simps) simp
      moreover have "chain d a [] 0" "checked u lo []" using True by simp_all
      ultimately show ?thesis by fastforce
    next
      case False
      then have "init_free d lo u ?p n = Some (SQLITE_CORRUPT, n)" using True by (subst init_free.simps) auto
      then show ?thesis by simp
    qed
  next
    case False
    then have p: "0 < ?p" "lo \<le> ?p" "?p + 4 \<le> u" using assms(1) by auto
    have g: "get2byte d ?p = Some (b2 d ?p)" "get2byte d (?p + 2) = Some (b2 d (?p + 2))"
      using get2byte_b2 [of ?p d] get2byte_b2 [of "?p + 2" d] p assms(2) by simp_all
    show ?thesis
    proof (cases "0 < b2 d ?p \<and> b2 d ?p \<le> ?p + b2 d (?p + 2) + 3 \<or> u < ?p + b2 d (?p + 2)")
      case True
      then have "init_free d lo u ?p n = Some (SQLITE_CORRUPT, n)" using False g by (subst init_free.simps) simp
      then show ?thesis by simp
    next
      case ok: False
      have no: "?p \<noteq> 0" "\<not> (?p < lo \<or> u - 4 < ?p)" using False by auto
      have run: "init_free d lo u ?p n = init_free d lo u (b2 d ?p) (n + b2 d (?p + 2))"
        by (subst init_free.simps) (simp only: if_not_P [OF no(1)] if_not_P [OF no(2)] if_not_P [OF ok] g Option.bind.simps)
      show ?thesis
      proof (cases "b2 d ?p = 0")
        case True
        then have "init_free d lo u ?p n = Some (SQLITE_OK, n + b2 d (?p + 2))" unfolding run by (subst init_free.simps) simp
        moreover have "chain d a [(?p, b2 d (?p + 2))] 0" "checked u lo [(?p, b2 d (?p + 2))]" using True p ok by simp_all
        ultimately show ?thesis using less.prems p(1) by fastforce
      next
        case next_block: False
        then have n: "?p + b2 d (?p + 2) + 4 \<le> b2 d ?p" using ok by linarith
        then have "u - b2 d ?p < u - ?p" using p(3) by linarith
        then obtain rc m where ih: "init_free d lo u (b2 d ?p) (n + b2 d (?p + 2)) = Some (rc, m)" "rc \<in> {SQLITE_OK, SQLITE_CORRUPT}"
            "rc = SQLITE_OK \<longrightarrow> (\<exists>fs. chain d ?p fs 0 \<and> checked u lo fs \<and> (fs \<noteq> [] \<longrightarrow> ?p + b2 d (?p + 2) + 4 \<le> fst (hd fs)) \<and>
               m = n + b2 d (?p + 2) + sum_list (map snd fs))"
          using less.hyps [of ?p "?p + b2 d (?p + 2) + 4" "n + b2 d (?p + 2)"] n by blast
        moreover have "\<exists>fs. chain d a fs 0 \<and> checked u lo fs \<and> (fs \<noteq> [] \<longrightarrow> l \<le> fst (hd fs)) \<and> m = n + sum_list (map snd fs)" if "rc = SQLITE_OK"
        proof -
          obtain fs where fs: "chain d ?p fs 0" "checked u lo fs" "fs \<noteq> [] \<longrightarrow> ?p + b2 d (?p + 2) + 4 \<le> fst (hd fs)" "m = n + b2 d (?p + 2) + sum_list (map snd fs)"
            using ih(3) \<open>rc = SQLITE_OK\<close> by blast
          have "checked u (?p + b2 d (?p + 2) + 4) fs" using fs(2,3) by (cases fs) auto
          then show ?thesis using fs p ok less.prems by (intro exI [of _ "(?p, b2 d (?p + 2)) # fs"]) auto
        qed
        ultimately show ?thesis using run by simp
      qed
    qed
  qed
qed

text \<open>
  C17: btreeInitPage ends on any bytes, reads only bytes of the page and returns SQLITE_OK or
  SQLITE_CORRUPT; when it accepts a page, its free blocks form a list of ascending addresses,
  at least four bytes apart, behind the cell pointers and within the page, which with the gap
  and the fragments does not exceed the page.
\<close>

theorem btreeInitPage_total:
  assumes "hdrOffset P + 8 \<le> length (aData P)" and "4 \<le> usable P" and "usable P \<le> length (aData P)" and "\<not> isInit P"
  shows "\<exists>rc P'. btreeInitPage P = Some (rc, P') \<and> rc \<in> {SQLITE_OK, SQLITE_CORRUPT} \<and> aData P' = aData P \<and>
    (rc = SQLITE_OK \<longrightarrow> isInit P' \<and> (\<exists>fs. chain (aData P) (hdrOffset P + 1) fs 0 \<and>
       checked (usable P) (cellOffset P' + 2 * nCell P') fs \<and>
       b2nz (aData P) (hdrOffset P + 5) + unat (aData P ! (hdrOffset P + 7)) + sum_list (map snd fs) \<le> usable P))"
proof -
  let ?h = "hdrOffset P" let ?d = "aData P"
  obtain rc1 Q where Q: "decodeFlags P (unat (?d ! ?h)) = (rc1, Q)" by fastforce
  have q: "hdrOffset Q = ?h" "aData Q = ?d" "pBt Q = pBt P" and rc1: "rc1 \<in> {SQLITE_OK, SQLITE_CORRUPT}"
    using Q by (auto simp: decodeFlags_def Let_def split: if_splits)
  have rd: "rd ?d ?h = Some (?d ! ?h)" "rd ?d (?h + 7) = Some (?d ! (?h + 7))" using assms(1) by (simp_all add: rd_def)
  have g: "get2byteNotZero ?d (?h + 5) = Some (b2nz ?d (?h + 5))" "get2byte ?d (?h + 3) = Some (b2 ?d (?h + 3))" "get2byte ?d (?h + 1) = Some (b2 ?d (?h + 1))"
    using get2byteNotZero_b2 [of "?h + 5" ?d] get2byte_b2 [of "?h + 3" ?d] get2byte_b2 [of "?h + 1" ?d] assms(1) by (simp_all add: b2nz_def)
  show ?thesis
  proof (cases "rc1 = SQLITE_OK")
    case False
    then show ?thesis using rd q rc1 unfolding btreeInitPage_def if_not_P [OF assms(4)] Let_def by (simp add: Q)
  next
    case True
    define Q1 where "Q1 = Q\<lparr>maskPage := pageSize (pBt Q) - 1, ovfl := [], cellOffset := ?h + 12 - 4 * (if leaf Q then 1 else 0), nCell := b2 ?d (?h + 3)\<rparr>"
    have q1: "aData Q1 = ?d" "pBt Q1 = pBt P" "nCell Q1 = b2 ?d (?h + 3)" using q by (simp_all add: Q1_def)
    define lo where "lo = cellOffset Q1 + 2 * nCell Q1"
    let ?n0 = "unat (?d ! (?h + 7)) + b2nz ?d (?h + 5)"
    obtain rc m where run: "init_free ?d lo (usable P) (b2 ?d (?h + 1)) ?n0 = Some (rc, m)" "rc \<in> {SQLITE_OK, SQLITE_CORRUPT}"
        "rc = SQLITE_OK \<longrightarrow> (\<exists>fs. chain ?d (?h + 1) fs 0 \<and> checked (usable P) lo fs \<and> m = ?n0 + sum_list (map snd fs))"
      using init_free_total [OF assms(2,3), of "?h + 1" 0 lo ?n0] by blast
    have start: "btreeInitPage P = (if MX_CELL (pBt P) < b2 ?d (?h + 3) then Some (SQLITE_CORRUPT, Q1)
      else if rc \<noteq> SQLITE_OK \<or> usable P < m then Some (SQLITE_CORRUPT, Q1)
      else Some (SQLITE_OK, Q1\<lparr>nFree := (m + 65536 - lo) mod 65536, isInit := True\<rparr>))"
      using rd g q q1 run(1) True unfolding btreeInitPage_def if_not_P [OF assms(4)] Let_def lo_def
      by (simp add: Q Q1_def cong: if_cong)
    show ?thesis
    proof (cases "MX_CELL (pBt P) < b2 ?d (?h + 3) \<or> rc \<noteq> SQLITE_OK \<or> usable P < m")
      case True
      then have "btreeInitPage P = Some (SQLITE_CORRUPT, Q1)" using start by auto
      then show ?thesis using q1 by simp
    next
      case False
      then have "btreeInitPage P = Some (SQLITE_OK, Q1\<lparr>nFree := (m + 65536 - lo) mod 65536, isInit := True\<rparr>)" using start by simp
      moreover obtain fs where "chain ?d (?h + 1) fs 0" "checked (usable P) lo fs" "m = ?n0 + sum_list (map snd fs)" using run(3) False by blast
      ultimately show ?thesis using q1 False by (auto simp: lo_def algebra_simps)
    qed
  qed
qed

text \<open>The block at 40 of this page points back to itself.\<close>

definition example_loop :: MemPage where
  "example_loop = \<lparr>isInit = False, intKey = False, leaf = False, hasData = False, hdrOffset = 0, childPtrSize = 0, pgMax1byte = 0,
     pgMaxLocal = 0, pgMinLocal = 0, cellOffset = 0, nFree = 0, nCell = 0, maskPage = 0, ovfl = [], pBt = example_bt,
     aData = [10, 0, 40, 0, 0, 0, 36, 0] @ replicate 32 0 @ [0, 40, 0, 8] @ replicate 468 0, pgno = 3\<rparr>"

theorem btreeInitPage_total_witness:
  "\<exists>rc P'. btreeInitPage example_loop = Some (rc, P') \<and> rc \<in> {SQLITE_OK, SQLITE_CORRUPT} \<and> aData P' = aData example_loop \<and>
    (rc = SQLITE_OK \<longrightarrow> isInit P' \<and> (\<exists>fs. chain (aData example_loop) (hdrOffset example_loop + 1) fs 0 \<and>
       checked (usable example_loop) (cellOffset P' + 2 * nCell P') fs \<and>
       b2nz (aData example_loop) (hdrOffset example_loop + 5) + unat (aData example_loop ! (hdrOffset example_loop + 7)) + sum_list (map snd fs) \<le> usable example_loop))"
  by (rule btreeInitPage_total) (simp_all add: example_loop_def example_bt_def bt_limits_def)

end
