(* ===== verification/Btree_History.thy ===== *)
theory Btree_History
  imports Btree_Build
begin

text \<open>
  What the callers of the page routines rely on: a store of cells by position.  The contract is a
  locale, the page of btree.c an interpretation of it, and any history of insertions, removals and
  defragmentations has the effect it has on a list.
\<close>

section \<open>The contract\<close>

datatype ('e, 'c) store_op = Put 'e nat 'c | Del nat | Tidy 'e

fun effect :: "'c list \<Rightarrow> ('e, 'c) store_op \<Rightarrow> 'c list" where
  "effect cs (Put e i c) = ins i c cs"
| "effect cs (Del i) = del i cs"
| "effect cs (Tidy e) = cs"

text \<open>A history whose positions exist, whose cells fit and whose environments are as required.\<close>

fun legal :: "('c list \<Rightarrow> bool) \<Rightarrow> ('e \<Rightarrow> bool) \<Rightarrow> ('e, 'c) store_op list \<Rightarrow> 'c list \<Rightarrow> bool" where
  "legal fits env [] cs = True"
| "legal fits env (Put e i c # ops) cs = (i \<le> length cs \<and> env e \<and> fits (ins i c cs) \<and> legal fits env ops (ins i c cs))"
| "legal fits env (Del i # ops) cs = (i < length cs \<and> legal fits env ops (del i cs))"
| "legal fits env (Tidy e # ops) cs = (env e \<and> legal fits env ops cs)"

fun run_ops ::
  "('e \<Rightarrow> 'p \<Rightarrow> nat \<Rightarrow> 'c \<Rightarrow> 'p option) \<Rightarrow> ('p \<Rightarrow> nat \<Rightarrow> 'p option) \<Rightarrow> ('e \<Rightarrow> 'p \<Rightarrow> 'p option) \<Rightarrow> ('e, 'c) store_op list \<Rightarrow> 'p \<Rightarrow> 'p option" where
  "run_ops put drp tidy [] p = Some p"
| "run_ops put drp tidy (Put e i c # ops) p = do { p \<leftarrow> put e p i c; run_ops put drp tidy ops p }"
| "run_ops put drp tidy (Del i # ops) p = do { p \<leftarrow> drp p i; run_ops put drp tidy ops p }"
| "run_ops put drp tidy (Tidy e # ops) p = do { p \<leftarrow> tidy e p; run_ops put drp tidy ops p }"

locale cell_store =
  fixes rep :: "'p \<Rightarrow> 'c list \<Rightarrow> bool"
    and put :: "'e \<Rightarrow> 'p \<Rightarrow> nat \<Rightarrow> 'c \<Rightarrow> 'p option"
    and drp :: "'p \<Rightarrow> nat \<Rightarrow> 'p option"
    and tidy :: "'e \<Rightarrow> 'p \<Rightarrow> 'p option"
    and fetch :: "'p \<Rightarrow> nat \<Rightarrow> 'c option"
    and fits :: "'p \<Rightarrow> 'c list \<Rightarrow> bool"
    and env :: "'p \<Rightarrow> 'e \<Rightarrow> bool"
  assumes put: "rep p cs \<Longrightarrow> i \<le> length cs \<Longrightarrow> env p e \<Longrightarrow> fits p (ins i c cs) \<Longrightarrow>
      \<exists>p'. put e p i c = Some p' \<and> rep p' (ins i c cs) \<and> fits p' = fits p \<and> env p' = env p"
    and drp: "rep p cs \<Longrightarrow> i < length cs \<Longrightarrow> \<exists>p'. drp p i = Some p' \<and> rep p' (del i cs) \<and> fits p' = fits p \<and> env p' = env p"
    and tidy: "rep p cs \<Longrightarrow> env p e \<Longrightarrow> \<exists>p'. tidy e p = Some p' \<and> rep p' cs \<and> fits p' = fits p \<and> env p' = env p"
    and fetch: "rep p cs \<Longrightarrow> i < length cs \<Longrightarrow> fetch p i = Some (cs ! i)"
begin

lemma one_step:
  assumes "rep p cs" and "legal (fits p) (env p) (op # ops) cs"
  shows "\<exists>p1. run_ops put drp tidy (op # ops) p = run_ops put drp tidy ops p1 \<and> rep p1 (effect cs op) \<and> fits p1 = fits p \<and> env p1 = env p \<and>
    legal (fits p) (env p) ops (effect cs op)"
proof (cases op)
  case (Put e i c)
  then obtain p1 where "put e p i c = Some p1" "rep p1 (ins i c cs)" "fits p1 = fits p" "env p1 = env p"
    using put [OF assms(1), of i e c] assms(2) by auto
  then show ?thesis using Put assms(2) by (intro exI [of _ p1]) simp
next
  case (Del i)
  then obtain p1 where "drp p i = Some p1" "rep p1 (del i cs)" "fits p1 = fits p" "env p1 = env p"
    using drp [OF assms(1), of i] assms(2) by auto
  then show ?thesis using Del assms(2) by (intro exI [of _ p1]) simp
next
  case (Tidy e)
  then obtain p1 where "tidy e p = Some p1" "rep p1 cs" "fits p1 = fits p" "env p1 = env p"
    using tidy [OF assms(1), of e] assms(2) by auto
  then show ?thesis using Tidy assms(2) by (intro exI [of _ p1]) simp
qed

lemma history:
  assumes "rep p cs" and "legal (fits p) (env p) ops cs"
  shows "\<exists>p'. run_ops put drp tidy ops p = Some p' \<and> rep p' (foldl effect cs ops) \<and> fits p' = fits p \<and> env p' = env p"
  using assms
proof (induction ops arbitrary: p cs)
  case (Cons op ops)
  obtain p1 where p1: "run_ops put drp tidy (op # ops) p = run_ops put drp tidy ops p1" "rep p1 (effect cs op)" "fits p1 = fits p" "env p1 = env p"
      "legal (fits p) (env p) ops (effect cs op)"
    using one_step [OF Cons.prems] by blast
  then show ?case using Cons.IH [of p1 "effect cs op"] by simp
qed simp

lemma history_fetch:
  assumes "rep p cs" and "legal (fits p) (env p) ops cs"
  shows "\<exists>p'. run_ops put drp tidy ops p = Some p' \<and> rep p' (foldl effect cs ops) \<and>
     (\<forall>i < length (foldl effect cs ops). fetch p' i = Some (foldl effect cs ops ! i))"
  using history [OF assms] fetch by blast

end

section \<open>The page\<close>

text \<open>The environment of a call: the scratch space of the pager and the pager.\<close>

definition page_put :: "bytes \<times> Pager \<Rightarrow> MemPage \<Rightarrow> nat \<Rightarrow> bytes \<Rightarrow> MemPage option" where
  "page_put e P i c = do { (rc, P', p') \<leftarrow> insertCell P (snd e) (fst e) i c (length c) 0; if rc = SQLITE_OK then Some P' else None }"

definition page_drop :: "MemPage \<Rightarrow> nat \<Rightarrow> MemPage option" where
  "page_drop P i = do { n \<leftarrow> cellSize P i; (rc, P') \<leftarrow> dropCell P i n; if rc = SQLITE_OK then Some P' else None }"

definition page_tidy :: "bytes \<times> Pager \<Rightarrow> MemPage \<Rightarrow> MemPage option" where
  "page_tidy e P = do { (rc, P') \<leftarrow> defragmentPage P (fst e); if rc = SQLITE_OK then Some P' else None }"

definition page_fits :: "MemPage \<Rightarrow> bytes list \<Rightarrow> bool" where
  "page_fits P cs \<longleftrightarrow> list_all (is_cell P) cs \<and> cellOffset P + 2 * length cs + sizes cs \<le> usable P"

definition page_env :: "MemPage \<Rightarrow> bytes \<times> Pager \<Rightarrow> bool" where
  "page_env P e \<longleftrightarrow> usable P \<le> length (fst e) \<and> fst (sqlite3PagerWrite (snd e)) = SQLITE_OK \<and> \<not> autoVacuum (pBt P)"

lemma page_static [simp]:
  "page_fits (P\<lparr>aData := d\<rparr>) = page_fits P" "page_fits (P\<lparr>nCell := n\<rparr>) = page_fits P" "page_fits (P\<lparr>nFree := n\<rparr>) = page_fits P"
  "page_env (P\<lparr>aData := d\<rparr>) = page_env P" "page_env (P\<lparr>nCell := n\<rparr>) = page_env P" "page_env (P\<lparr>nFree := n\<rparr>) = page_env P"
  by (simp_all add: fun_eq_iff page_fits_def page_env_def)

lemma sizes_ins: "sizes (ins i c cs) = sizes cs + length c"
proof -
  have "sizes cs = sizes (take i cs @ drop i cs)" by simp
  then show ?thesis unfolding ins_def map_append sum_list_append by simp
qed

lemma page_put_rep:
  assumes rep: "page_rep P cs" and i: "i \<le> length cs" and e: "page_env P e" and f: "page_fits P (ins i c cs)"
  shows "\<exists>P'. page_put e P i c = Some P' \<and> page_rep P' (ins i c cs) \<and> page_fits P' = page_fits P \<and> page_env P' = page_env P"
proof -
  have c: "cellSizePtr P c = Some (length c)" using f by (simp add: page_fits_def ins_def is_cell_def)
  have room: "length c + 2 \<le> nFree P" using f rep sizes_ins [of i c cs] by (simp add: page_fits_def page_rep_def)
  obtain p' where w: "sqlite3PagerWrite (snd e) = (SQLITE_OK, p')" using e by (cases "sqlite3PagerWrite (snd e)") (auto simp: page_env_def)
  obtain d where "page_rep (P\<lparr>aData := d, nCell := nCell P + 1, nFree := nFree P - (2 + length c)\<rparr>) (ins i (cell_bytes c (length c) 0) cs)"
      "insertCell P (snd e) (fst e) i c (length c) 0 = Some (SQLITE_OK, P\<lparr>aData := d, nCell := nCell P + 1, nFree := nFree P - (2 + length c)\<rparr>, p')"
    using insertCell_spec [OF rep c order_refl _ i room _ w, of 0 "fst e"] e by (auto simp: page_env_def Let_def)
  moreover have "cell_bytes c (length c) 0 = c" by (simp add: cell_bytes_def)
  ultimately show ?thesis by (simp add: page_put_def)
qed

lemma page_drop_rep:
  assumes rep: "page_rep P cs" and i: "i < length cs"
  shows "\<exists>P'. page_drop P i = Some P' \<and> page_rep P' (del i cs) \<and> page_fits P' = page_fits P \<and> page_env P' = page_env P"
proof -
  obtain d where "page_rep (P\<lparr>aData := d, nCell := nCell P - 1, nFree := nFree P + length (cs ! i) + 2\<rparr>) (del i cs)"
      "dropCell P i (length (cs ! i)) = Some (SQLITE_OK, P\<lparr>aData := d, nCell := nCell P - 1, nFree := nFree P + length (cs ! i) + 2\<rparr>)"
    using dropCell_spec [OF rep i] by (auto simp: Let_def)
  then show ?thesis using page_cell_rep(2) [OF rep i] by (simp add: page_drop_def)
qed

lemma page_tidy_rep:
  assumes rep: "page_rep P cs" and e: "page_env P e"
  shows "\<exists>P'. page_tidy e P = Some P' \<and> page_rep P' cs \<and> page_fits P' = page_fits P \<and> page_env P' = page_env P"
proof -
  have "usable P \<le> length (fst e)" using e by (simp add: page_env_def)
  then obtain d where "page_rep (P\<lparr>aData := d\<rparr>) cs" "defragmentPage P (fst e) = Some (SQLITE_OK, P\<lparr>aData := d\<rparr>)"
    using defragmentPage_rep [OF rep] by blast
  then show ?thesis by (simp add: page_tidy_def)
qed

interpretation page: cell_store page_rep page_put page_drop page_tidy page_cell page_fits page_env
  by unfold_locales (blast intro: page_put_rep page_drop_rep page_tidy_rep page_cell_rep(1))+

text \<open>A page that zeroPage has cleared and assemblePage has filled.\<close>

lemma start_rep:
  assumes "new_page P" and "flags \<in> {2, 5, 10, 13}" and "zeroPage P flags = Some Z" and "page_fits Z cells"
  shows "\<exists>P0. assemblePage Z cells = Some P0 \<and> page_rep P0 cells \<and> page_fits P0 = page_fits Z \<and> page_env P0 = page_env Z"
proof -
  have z: "page_rep Z []" "b2 (aData Z) (hdrOffset Z + 1) = 0" "aData Z ! (hdrOffset Z + 7) = 0"
    using zeroPage_spec [OF assms(1,2)] assms(3) by auto
  obtain d where "assemblePage Z cells = Some (Z\<lparr>aData := d, nFree := nFree Z - (length cells * 2 + sizes cells), nCell := length cells\<rparr>)"
      "page_rep (Z\<lparr>aData := d, nFree := nFree Z - (length cells * 2 + sizes cells), nCell := length cells\<rparr>) cells"
    using assemblePage_rep [OF z, of cells] assms(4) unfolding page_fits_def by blast
  then show ?thesis by simp
qed

section \<open>Examples\<close>

definition plain_bt :: BtShared where "plain_bt = example_bt\<lparr>autoVacuum := False\<rparr>"

definition example_page :: MemPage where
  "example_page = \<lparr>isInit = False, intKey = False, leaf = False, hasData = False, hdrOffset = 0, childPtrSize = 0, pgMax1byte = 0,
     pgMaxLocal = 0, pgMinLocal = 0, cellOffset = 0, nFree = 0, nCell = 0, maskPage = 0, ovfl = [], pBt = plain_bt, aData = replicate 512 7, pgno = 3\<rparr>"

definition example_history :: "(bytes \<times> Pager, bytes) store_op list" where
  "example_history = [Put (replicate 512 0, example_pager) 0 [2, 1, 65, 66], Put (replicate 512 0, example_pager) 0 [4, 2, 67, 68, 69],
     Del 1, Tidy (replicate 512 1, example_pager), Put (replicate 512 0, example_pager) 1 [0, 3, 0, 0]]"

lemma plain_bt_ok: "bt_ok plain_bt"
  by (simp add: plain_bt_def bt_ok_def bt_sizes_def example_bt_def bt_limits_def)

lemma example_new: "new_page example_page"
  using plain_bt_ok by (simp add: new_page_def example_page_def plain_bt_def example_bt_def bt_limits_def)

section \<open>Properties\<close>


definition example_P0 :: MemPage where "example_P0 = the (zeroPage example_page 10)"

lemma example_P0: "zeroPage example_page 10 = Some example_P0"
  using zeroPage_spec [OF example_new, of 10] by (auto simp: example_P0_def)

lemma decodeFlags_index_leaf:
  "decodeFlags P 10 = (SQLITE_OK, P\<lparr>leaf := True, childPtrSize := 0, intKey := False, hasData := False, pgMaxLocal := maxLocal (pBt P),
     pgMinLocal := minLocal (pBt P), pgMax1byte := max1bytePayload (pBt P)\<rparr>)"
  by (simp add: decodeFlags_def PTF_LEAF_def PTF_LEAFDATA_def PTF_INTKEY_def PTF_ZERODATA_def)

lemma example_P0_fields:
  "intKey example_P0 = False" "hasData example_P0 = False" "childPtrSize example_P0 = 0" "pgMaxLocal example_P0 = maxLocal plain_bt"
  "pgMinLocal example_P0 = minLocal plain_bt" "pBt example_P0 = plain_bt" "cellOffset example_P0 = 8"
proof -
  let ?P = example_P0
  have z: "page_rep ?P []" "leaf ?P" "pBt ?P = plain_bt" "hdrOffset ?P = 0" "unat (aData ?P ! hdrOffset ?P) = 10"
    using zeroPage_spec [OF example_new, of 10] example_P0 by (auto simp: example_page_def)
  have pf: "page_fields ?P" using z(1) unfolding page_rep_def by blast
  have "decodeFlags ?P 10 = (SQLITE_OK, ?P)" using pf z(5) unfolding page_fields_def by metis
  then have "?P\<lparr>leaf := True, childPtrSize := 0, intKey := False, hasData := False, pgMaxLocal := maxLocal (pBt ?P),
     pgMinLocal := minLocal (pBt ?P), pgMax1byte := max1bytePayload (pBt ?P)\<rparr> = ?P"
    unfolding decodeFlags_index_leaf by simp
  from arg_cong [OF this, of intKey] arg_cong [OF this, of hasData] arg_cong [OF this, of childPtrSize] arg_cong [OF this, of pgMaxLocal]
    arg_cong [OF this, of pgMinLocal]
  show "intKey ?P = False" "hasData ?P = False" "childPtrSize ?P = 0" "pgMaxLocal ?P = maxLocal plain_bt" "pgMinLocal ?P = minLocal plain_bt"
    using z(3) by simp_all
  show "pBt ?P = plain_bt" "cellOffset ?P = 8" using z page_fieldsD(5) [OF pf] by simp_all
qed

lemma example_cells: "is_cell example_P0 [2, 1, 65, 66]" "is_cell example_P0 [4, 2, 67, 68, 69]" "is_cell example_P0 [0, 3, 0, 0]"
proof -
  have v: "getVarint32 [2, 1, 65, 66] = Some (1, 2)" "getVarint32 [4, 2, 67, 68, 69] = Some (1, 4)" "getVarint32 [0, 3, 0, 0] = Some (1, 0)"
    by code_simp+
  have m: "maxLocal plain_bt = 102" by (simp add: plain_bt_def example_bt_def bt_limits_def)
  show "is_cell example_P0 [2, 1, 65, 66]" "is_cell example_P0 [4, 2, 67, 68, 69]" "is_cell example_P0 [0, 3, 0, 0]"
    by (simp_all add: is_cell_def cellSizePtr_def example_P0_fields v m)
qed

lemma example_bt_values: "usableSize plain_bt = 512" "\<not> autoVacuum plain_bt"
  by (simp_all add: plain_bt_def example_bt_def bt_limits_def)

lemma example_fits: "page_fits example_P0 [[2, 1, 65, 66]]"
  by (simp add: page_fits_def example_cells example_P0_fields example_bt_values)

lemma example_legal: "legal (page_fits example_P0) (page_env example_P0) example_history [[2, 1, 65, 66]]"
proof -
  have e: "page_env example_P0 (replicate 512 x, example_pager)" for x
    by (simp add: page_env_def example_P0_fields example_bt_values example_pager_def sqlite3PagerWrite_def pager_next_def)
  show ?thesis
    by (simp add: example_history_def e page_fits_def ins_def del_def example_cells example_P0_fields example_bt_values)
qed


text \<open>
  C16: What a page object holds besides its bytes is determined by them: after any such
  history, btreeInitPage on a fresh object with the bytes of the page rebuilds the very same
  object, its free space and cell count included.
\<close>

theorem page_reload:
  assumes "new_page P" and "flags \<in> {2, 5, 10, 13}" and "zeroPage P flags = Some Z" and "page_fits Z cells" and "legal (page_fits Z) (page_env Z) ops cells"
    and "assemblePage Z cells = Some P0" and "run_ops page_put page_drop page_tidy ops P0 = Some P1" and "same_file P1 Q" and "\<not> isInit Q"
  shows "btreeInitPage Q = Some (SQLITE_OK, P1)"
proof -
  have "page_rep P0 cells" "page_fits P0 = page_fits Z" "page_env P0 = page_env Z" using start_rep [OF assms(1-4)] assms(6) by auto
  then have "page_rep P1 (foldl effect cells ops)" using page.history [of P0 cells ops] assms(5,7) by auto
  then show ?thesis by (rule btreeInitPage_rep [OF _ assms(8,9)])
qed

definition example_P1 :: MemPage where
  "example_P1 = the (assemblePage example_P0 [[2, 1, 65, 66]] \<bind> run_ops page_put page_drop page_tidy example_history)"

lemma example_P1:
  obtains P0 where "assemblePage example_P0 [[2, 1, 65, 66]] = Some P0" "run_ops page_put page_drop page_tidy example_history P0 = Some example_P1"
proof -
  obtain P0 where P0: "assemblePage example_P0 [[2, 1, 65, 66]] = Some P0" "page_rep P0 [[2, 1, 65, 66]]" "page_fits P0 = page_fits example_P0"
      "page_env P0 = page_env example_P0"
    using start_rep [OF example_new _ example_P0 example_fits] by auto
  then obtain P1 where P1: "run_ops page_put page_drop page_tidy example_history P0 = Some P1" using page.history [OF P0(2)] example_legal by auto
  then have "example_P1 = P1" by (simp add: example_P1_def P0(1))
  then show thesis using that P0(1) P1 by simp
qed

theorem page_reload_witness:
  "btreeInitPage (example_page\<lparr>pBt := pBt example_P1, hdrOffset := hdrOffset example_P1, aData := aData example_P1, pgno := pgno example_P1\<rparr>) =
     Some (SQLITE_OK, example_P1)"
proof -
  obtain P0 where P0: "assemblePage example_P0 [[2, 1, 65, 66]] = Some P0" "run_ops page_put page_drop page_tidy example_history P0 = Some example_P1"
    by (rule example_P1)
  show ?thesis
    by (rule page_reload [OF example_new _ example_P0 example_fits example_legal P0]) (simp_all add: same_file_def example_page_def)
qed

end
