(* ===== verification/Spec2Isabelle.thy ===== *)
theory Spec2Isabelle
  imports Varint_Roundtrip Util_Int Util_Text Rowset Complete Bitvec Vdbe_Record Unix_Locks Wal_Checkpoint Btree_History
begin

text \<open>
  SQLite 3.7.14: the storage core.

  A statement of SQL ends as calls on a database file.  The parts of that way which carry their own
  logic are modelled here, from the bytes up:

  \<^item> integers and text as they stand in the file and in SQL (util.c, global.c, complete.c);
  \<^item> the record of a row, made and compared by the virtual machine (vdbemem.c, vdbeaux.c, vdbe.c);
  \<^item> the page of a b-tree, on which records are cells, and the pointer map between pages (btree.c);
  \<^item> the write-ahead log, its index in shared memory, recovery and checkpoint (wal.c);
  \<^item> the locks by which connections exclude each other (os_unix.c);
  \<^item> two sets that the layers above use: bit vectors of pages (bitvec.c) and sets of rowids (rowset.c).

  All of src/src is annotated in Chinese by its owners; where such a comment has broken a file (wal.c),
  the same function of the amalgamation src/Sqlite3.07.14-run/sqlite3.c is modelled, and the manifest
  names the lines there.

  Conventions.  Sqlite_Prelude holds the types and result codes.  An unsigned C integer is a word of its
  width (u8, u16, u32, u64); a signed one is an int with its overflow written out (ck64 of Util_Int is
  None where C leaves the overflow undefined); offsets and sizes that stay small are nat, and what is
  stored in a field of 16 bits is reduced modulo 2^16.  A C struct is a record, a union a datatype, a
  pointer to bytes a list.  Whatever the code may do wrong with memory is visible: a read or a write
  outside of a buffer is None (rd of the prelude, mem_read and mem_write of Btree_Bytes), so a theorem
  that a call is Some result says that it stays inside of its buffers.  Result codes are values of the
  type result_code.

  Loops.  Most loops are structural recursions.  A loop of the code that could run for ever is a
  partial_function into option or, in Bitvec, a recursion with fuel, and None is a loop that does not
  end; the theorems prove Some.  The fuel of Bitvec is one unit for each level of sub-vectors and each
  redistribution; need bounds it by the size of the vector, and nine units are enough for the largest
  vector that the code can address (2^32 - 62 bits).

  The environment.  What the code calls outside of src/, or what the operating system decides, is a
  parameter or a list of outcomes in the state: allocations (a list of bool, True for a failure, in
  Bitvec and Vdbe_Record), file operations (the list faults of a Wal: a write may fail after any number
  of bytes), calls of the pager by the b-tree (pgFaults), the lock calls of other connections during a
  checkpoint (ckpt_env), fcntl and close with their answers (Unix_Locks, where every system call is a
  step of its own), arithmetic on IEEE numbers and collating functions (arguments of the comparison in
  Vdbe_Record).  No theorem assumes that these succeed unless its text says so.

  The theories.

  \<^item> Util_Varint and Varint_Roundtrip: sqlite3PutVarint, the unrolled sqlite3GetVarint, their 32-bit
    forms and the four-byte integers.  The unrolled code equals a byte-by-byte decoder, and reading undoes
    writing.
  \<^item> Util_Int: sqlite3AddInt64, SubInt64, MulInt64: exact or reported, and the one case in which
    MulInt64 itself overflows.  Util_Text with Global_Tables: comparing, dequoting, decimal and
    hexadecimal text.
  \<^item> Complete: sqlite3_complete, the scanner and its state machine, against a definition by statements.
  \<^item> Vdbe_Record: serial types, OP_MakeRecord, sqlite3VdbeRecordUnpack, sqlite3VdbeRecordCompare and
    sqlite3MemCompare: what is made is what is taken apart, and comparing bytes is comparing keys.
  \<^item> Btree_Bytes, Btree_Ptrmap: two-byte fields, the parameters of a file (lockBtree), ptrmapPageno,
    ptrmapPut, ptrmapGet as a map.
  \<^item> Btree_Page: the page object MemPage and the routines on it (cellSizePtr, btreeParseCellPtr,
    defragmentPage, allocateSpace, freeSpace, decodeFlags, btreeInitPage, zeroPage, dropCell, insertCell,
    assemblePage).  Btree_Cell: the size of a cell depends on its own bytes only.  Btree_Space: the
    layout of a page as used regions, a linked list of free blocks, fragments and a gap, and what
    searching, taking, linking and joining free blocks do to it.  Btree_Alloc: freeSpace and
    defragmentPage.  Btree_Store: allocateSpace, the moves of the cell pointers, and the layout after an
    insertion or a removal.  Btree_Sequence: page_rep, a page represents a list of cells, kept by every
    operation.  Btree_Build: assemblePage, and btreeInitPage on arbitrary bytes.  Btree_History: the
    contract cell_store as a locale, its interpretation by the page, and the histories.
  \<^item> Wal_Index: the hash tables of the wal-index (walHashGet, walIndexAppend, walCleanupHash, the lookup
    in sqlite3WalRead, savepoints, the header with its two copies).  Wal_Log: frames, checksums,
    sqlite3WalFrames, sqlite3WalRead, walIndexRecover.  Wal_Crash: the bytes of a log that is cut off
    anywhere.  Wal_Recovery: recovery after a crash brings back the committed transactions.  Wal_History:
    the index as a map under any sequence of writes, savepoints, rollbacks and dead writers.  Wal_Sort:
    the iterator of a checkpoint.  Wal_Checkpoint: walCheckpoint, what it keeps for readers, its
    invariant under faults, and that it completes when nothing fails.
  \<^item> Unix_Locks: unixLock, unixUnlock, unixClose and unixCheckReservedLock for any number of processes
    and connections, interleaved at every system call; the contract of the advisory locks of the system
    is the locale advisory_locks, interpreted by posix locks.
  \<^item> Bitvec: the three representations as one set (locale page_set), and the bitvec of free pages that
    btree.c keeps.  Rowset: sqlite3RowSetInsert, Test and Next with the merge sort and the forest of
    trees (locale batched_set), and the scan over OR terms that where.c builds on them.

  How the parts meet.  The varints of Util_Varint are used by the records of Vdbe_Record and by the cells
  of Btree_Page; Btree_Page uses the pointer map and the four-byte integers; the set operations of Rowset
  are the opcodes RowSetAdd, RowSetRead and RowSetTest of vdbe.c; the pages of Wal_Log are the unit that
  btree.c reads and writes through the pager.

  Abstract specifications.  Log: the list of committed transactions (Wal_Recovery, Wal_History).  Page:
  a list of cells (Btree_History).  Pointer map, bit vector: a map and a set.  Locks: at most one writer,
  and no reader beside an exclusive lock (Unix_Locks).  Records: a list of values with the order of the
  key (Vdbe_Record).  sqlite3_complete: statements and triggers (Complete).

  Not modelled, and why.  The pager: src/src/pager.c breaks off in the middle; the b-tree sees it as a
  store of pages.  B-tree above the page (cursors, balancing, the free list of the file, overflow
  chains), the connection side of the log (walTryBeginRead, walRestartLog, open and close), the page
  cache, utf.c, func.c, printf.c, the allocators, the journals in memory and the sorter have not been
  reached.  hash.c and where.c do not compile.  The parser is generated; code generation for statements
  is a translation without a stated specification; os_win.c and the rest of os_unix.c are system calls.
  Floating point (sqlite3AtoF, date.c) is left out.  The directories ext/ and test code are outside of the
  core, and the amalgamations repeat src/src.
\<close>

end
